(* ===== verification/Cox_Prelude.thy ===== *)
theory Cox_Prelude
  imports
    Main
    "HOL-Library.Monad_Syntax"
    "HOL-Library.Char_ord"
    "HOL-Library.List_Lexorder"
    "HOL-Library.Word"
begin

text \<open>
  Shared material of the development: the parts of the C++ standard library and of the C
  library that the sources call (\<^verbatim>\<open>std::find\<close>, \<^verbatim>\<open>std::string::find\<close>, \<^verbatim>\<open>std::tolower\<close>,
  \<^verbatim>\<open>std::strtoul\<close>, \<^verbatim>\<open>std::atoi\<close>, \<^verbatim>\<open>std::to_string\<close>, \<^verbatim>\<open>std::map\<close>), and the generic lemmas
  on lists and options that the component theories use.

  Conventions used everywhere:
  \<^item> a \<^verbatim>\<open>std::string\<close> is an Isabelle \<open>string\<close>: a list of 8-bit \<open>char\<close>s, so its length counts
    bytes as \<^verbatim>\<open>size()\<close> does;
  \<^item> \<open>None\<close> as the result of an operation of type \<open>'a option\<close> means that the program does not
    go on: an \<^verbatim>\<open>assert\<close> failed (Debug builds), or the behaviour is undefined. Theorems of the
    form \<open>f x = Some y\<close> therefore include that no assertion fails;
  \<^item> a \<^verbatim>\<open>size_t\<close> that counts bytes held in memory is a \<open>nat\<close>, since such a count is bounded by
    the address space. Where a value comes from outside (a declared length) or wraps, its
    64-bit range is written out.
\<close>

section \<open>Collections of facts\<close>

named_theorems buf_simps \<open>content and size of a byte buffer after an operation\<close>
named_theorems parse_simps \<open>facts that drive the message parsers\<close>

section \<open>Character constants\<close>

abbreviation CR :: char where "CR \<equiv> CHR 0x0D"
abbreviation LF :: char where "LF \<equiv> CHR 0x0A"
abbreviation DQ :: char where "DQ \<equiv> CHR 0x22"
abbreviation BSL :: char where "BSL \<equiv> CHR 0x5C"
abbreviation SP :: char where "SP \<equiv> CHR '' ''"
abbreviation CRLF :: string where "CRLF \<equiv> [CR, LF]"

type_synonym byte_string = string

lemma take_append_self: "take (length s) (s @ t) = s"
  by simp

section \<open>std::find, std::string::find and substr\<close>

text \<open>\<^verbatim>\<open>std::find(begin, end, c)\<close> as an index; \<^verbatim>\<open>end\<close> is the length of the range.\<close>

fun find_char :: "char \<Rightarrow> string \<Rightarrow> nat" where
  "find_char c [] = 0"
| "find_char c (x # xs) = (if x = c then 0 else Suc (find_char c xs))"

lemma find_char_le [simp]: "find_char c s \<le> length s"
  by (induction s) auto

lemma find_char_eq_length [simp]: "find_char c s = length s \<longleftrightarrow> c \<notin> set s"
  by (induction s) auto

lemma find_char_none: "c \<notin> set s \<Longrightarrow> find_char c s = length s"
  by simp

lemma find_char_less [simp]: "find_char c s < length s \<longleftrightarrow> c \<in> set s"
  using find_char_le find_char_eq_length le_neq_implies_less by (metis less_irrefl)

lemma find_char_append:
  "find_char c (s @ t) = (if c \<in> set s then find_char c s else length s + find_char c t)"
  by (induction s) auto

lemma find_char_hit [simp]: "c \<notin> set s \<Longrightarrow> find_char c (s @ c # t) = length s"
  by (induction s) auto

lemma take_find_char: "c \<notin> set (take (find_char c s) s)"
  by (induction s) auto

lemma find_char_take: "find_char c (take n s) = min n (find_char c s)"
  by (induction s arbitrary: n) (auto simp: take_Cons' min_def)

lemma find_char_inj: "find_char a s = find_char b s \<Longrightarrow> a \<in> set s \<Longrightarrow> a = b"
  by (induction s) (auto split: if_splits)

lemma nth_find_char: "c \<in> set s \<Longrightarrow> s ! find_char c s = c"
  by (induction s) auto

text \<open>\<^verbatim>\<open>std::string::find(c, pos)\<close>; \<^verbatim>\<open>npos\<close> is \<open>None\<close>.\<close>

definition str_find :: "char \<Rightarrow> string \<Rightarrow> nat \<Rightarrow> nat option" where
  "str_find c s pos =
     (let i = pos + find_char c (drop pos s) in if i < length s then Some i else None)"

text \<open>\<^verbatim>\<open>s.substr(pos, n)\<close> for \<^verbatim>\<open>pos <= size()\<close> (the sources never pass a larger one).\<close>

definition substr :: "string \<Rightarrow> nat \<Rightarrow> nat \<Rightarrow> string" where
  "substr s pos n = take n (drop pos s)"

text \<open>\<^verbatim>\<open>s.find(pat) != npos\<close>.\<close>

fun str_contains :: "string \<Rightarrow> string \<Rightarrow> bool" where
  "str_contains pat [] = (pat = [])"
| "str_contains pat (x # xs) = (take (length pat) (x # xs) = pat \<or> str_contains pat xs)"

lemma str_contains_iff: "str_contains pat s \<longleftrightarrow> (\<exists>l r. s = l @ pat @ r)"
proof (induction s)
  case Nil
  then show ?case by auto
next
  case (Cons x xs)
  have pre: "take (length pat) (x # xs) = pat \<longleftrightarrow> (\<exists>r. x # xs = pat @ r)"
    by (metis append_eq_conv_conj append_take_drop_id)
  show ?case
    unfolding str_contains.simps Cons.IH pre
    by (auto simp: Cons_eq_append_conv)
qed

section \<open>Characters and numbers\<close>

text \<open>\<^verbatim>\<open>std::tolower\<close> in the C locale, and the \<^verbatim>\<open>std::transform\<close> over a string.\<close>

definition tolower :: "char \<Rightarrow> char" where
  "tolower c = (if CHR ''A'' \<le> c \<and> c \<le> CHR ''Z'' then char_of (of_char c + 32 :: nat) else c)"

definition toLower :: "string \<Rightarrow> string" where
  "toLower s = map tolower s"

lemma toLower_append [simp]: "toLower (s @ t) = toLower s @ toLower t"
  by (simp add: toLower_def)

lemma length_toLower [simp]: "length (toLower s) = length s"
  by (simp add: toLower_def)

lemma tolower_idem [simp]: "tolower (tolower c) = tolower c"
proof (cases "CHR ''A'' \<le> c \<and> c \<le> CHR ''Z''")
  case True
  then have b: "(65::nat) \<le> of_char c" "of_char c \<le> (90::nat)"
    by (simp_all add: less_eq_char_def)
  have "of_char (char_of (of_char c + 32 :: nat) :: char) = (of_char c + 32 :: nat)"
    using b by simp
  then show ?thesis
    using True b by (auto simp: tolower_def less_eq_char_def)
next
  case False
  then show ?thesis by (auto simp: tolower_def)
qed

lemma toLower_idem [simp]: "toLower (toLower s) = toLower s"
  by (simp add: toLower_def)

text \<open>Value of a digit in a base up to 16, as \<^verbatim>\<open>strtoul\<close> reads it.\<close>

definition digit_value :: "nat \<Rightarrow> char \<Rightarrow> nat option" where
  "digit_value base c =
     (let n = (of_char c :: nat);
          v = (if 48 \<le> n \<and> n \<le> 57 then n - 48
               else if 97 \<le> n \<and> n \<le> 122 then n - 87
               else if 65 \<le> n \<and> n \<le> 90 then n - 55
               else 99)
      in if v < base then Some v else None)"

fun read_digits :: "nat \<Rightarrow> nat \<Rightarrow> string \<Rightarrow> nat" where
  "read_digits base acc [] = acc"
| "read_digits base acc (c # cs) =
     (case digit_value base c of
        None \<Rightarrow> acc
      | Some v \<Rightarrow> read_digits base (acc * base + v) cs)"

text \<open>\<^verbatim>\<open>isspace\<close> in the C locale.\<close>

definition is_space :: "char \<Rightarrow> bool" where
  "is_space c = (let n = (of_char c :: nat) in n = 32 \<or> (9 \<le> n \<and> n \<le> 13))"

definition ULONG_MAX :: nat where
  "ULONG_MAX = 2 ^ 64 - 1"

text \<open>
  The magnitude \<^verbatim>\<open>strtoul\<close> reads after the sign: in base 16 an optional \<^verbatim>\<open>0x\<close> is skipped when
  a hexadecimal digit follows it.
\<close>

definition strip_hex_prefix :: "nat \<Rightarrow> string \<Rightarrow> string" where
  "strip_hex_prefix base s =
     (case s of
        z # x # d # rest \<Rightarrow>
          if base = 16 \<and> z = CHR ''0'' \<and> (x = CHR ''x'' \<or> x = CHR ''X'') \<and> digit_value 16 d \<noteq> None
          then d # rest else s
      | _ \<Rightarrow> s)"

text \<open>
  \<^verbatim>\<open>std::strtoul(s, nullptr, base)\<close> with a 64-bit \<^verbatim>\<open>unsigned long\<close>: leading white space and one
  sign are skipped, an out-of-range magnitude gives \<^verbatim>\<open>ULONG_MAX\<close>, a minus sign negates modulo
  \<open>2 ^ 64\<close>, and text without digits gives 0.
\<close>

definition strtoul :: "string \<Rightarrow> nat \<Rightarrow> nat" where
  "strtoul s base =
     (let t = dropWhile is_space s;
          neg = (t \<noteq> [] \<and> hd t = CHR ''-'');
          u = (if t \<noteq> [] \<and> (hd t = CHR ''-'' \<or> hd t = CHR ''+'') then tl t else t);
          m = read_digits base 0 (strip_hex_prefix base u)
      in if m > ULONG_MAX then ULONG_MAX
         else if neg then (2 ^ 64 - m) mod 2 ^ 64
         else m)"

text \<open>
  \<^verbatim>\<open>std::atoi\<close> as the C library implements it: \<^verbatim>\<open>strtol\<close> in base 10, saturated to 64 bits,
  then converted to a 32-bit \<^verbatim>\<open>int\<close>.
\<close>

definition atoi :: "string \<Rightarrow> int" where
  "atoi s =
     (let t = dropWhile is_space s;
          neg = (t \<noteq> [] \<and> hd t = CHR ''-'');
          u = (if t \<noteq> [] \<and> (hd t = CHR ''-'' \<or> hd t = CHR ''+'') then tl t else t);
          m = int (read_digits 10 0 u);
          v = (if neg then max (- (2 ^ 63)) (- m) else min (2 ^ 63 - 1) m)
      in sint (word_of_int v :: 32 word))"

lemma strtoul_bound: "strtoul s base < 2 ^ 64"
  by (auto simp: strtoul_def Let_def ULONG_MAX_def)

text \<open>\<^verbatim>\<open>std::to_string\<close> of an unsigned value.\<close>

definition digit_char :: "nat \<Rightarrow> char" where
  "digit_char d = char_of (48 + d)"

fun to_string :: "nat \<Rightarrow> string" where
  "to_string n = (if n < 10 then [digit_char n] else to_string (n div 10) @ [digit_char (n mod 10)])"

declare to_string.simps [simp del]

lemma of_char_digit_char: "d < 10 \<Longrightarrow> of_char (digit_char d) = 48 + d"
  by (simp add: digit_char_def)

lemma digit_value_digit_char [simp]: "d < 10 \<Longrightarrow> 10 \<le> base \<Longrightarrow> digit_value base (digit_char d) = Some d"
  by (simp add: digit_value_def of_char_digit_char)

lemma read_digits_digit_snoc:
  "\<forall>c \<in> set s. digit_value base c \<noteq> None \<Longrightarrow>
   read_digits base acc (s @ t) = read_digits base (read_digits base acc s) t"
  by (induction s arbitrary: acc) auto

lemma to_string_digits: "c \<in> set (to_string n) \<Longrightarrow> \<exists>d < 10. c = digit_char d"
proof (induction n rule: to_string.induct)
  case (1 n)
  show ?case
  proof (cases "n < 10")
    case True
    then show ?thesis using "1.prems" by (subst (asm) to_string.simps) auto
  next
    case False
    have "c \<in> set (to_string (n div 10)) \<or> c = digit_char (n mod 10)"
      using "1.prems" False by (subst (asm) to_string.simps) auto
    then show ?thesis using "1.IH" False by (metis mod_less_divisor zero_less_numeral)
  qed
qed

lemma read_digits_to_string: "read_digits 10 0 (to_string n) = n"
proof (induction n rule: to_string.induct)
  case (1 n)
  show ?case
  proof (cases "n < 10")
    case True
    then show ?thesis by (subst to_string.simps) simp
  next
    case False
    have d: "\<forall>c \<in> set (to_string (n div 10)). digit_value 10 c \<noteq> None"
      using to_string_digits by fastforce
    show ?thesis
      using False "1.IH" by (subst to_string.simps) (simp add: read_digits_digit_snoc [OF d])
  qed
qed

lemma to_string_nonempty [simp]: "to_string n \<noteq> []"
  by (subst to_string.simps) simp

lemma digit_char_plain:
  assumes "d < 10"
  shows "\<not> is_space (digit_char d)" and "digit_char d \<noteq> CHR ''-''" and "digit_char d \<noteq> CHR ''+''"
    and "digit_char d \<noteq> CR" and "digit_char d \<noteq> LF" and "digit_char d \<noteq> SP"
proof -
  have n: "of_char (digit_char d) = (48 + d :: nat)" using assms by (rule of_char_digit_char)
  show "\<not> is_space (digit_char d)" using n assms by (simp add: is_space_def)
  show "digit_char d \<noteq> CHR ''-''" "digit_char d \<noteq> CHR ''+''"
    "digit_char d \<noteq> CR" "digit_char d \<noteq> LF" "digit_char d \<noteq> SP"
    using n by auto
qed

lemma to_string_chars:
  assumes "c \<in> set (to_string n)"
  shows "\<not> is_space c" and "c \<noteq> CHR ''-''" and "c \<noteq> CHR ''+''" and "c \<noteq> CR" and "c \<noteq> LF" and "c \<noteq> SP"
  using to_string_digits [OF assms] digit_char_plain by auto

text \<open>\<^verbatim>\<open>strtoul\<close> reads back what \<^verbatim>\<open>std::to_string\<close> wrote, for every 64-bit value.\<close>

lemma strtoul_to_string: "n < 2 ^ 64 \<Longrightarrow> strtoul (to_string n) 10 = n"
proof -
  assume n: "n < 2 ^ 64"
  obtain c cs where cs: "to_string n = c # cs"
    using to_string_nonempty by (meson neq_Nil_conv)
  have c: "\<not> is_space c" "c \<noteq> CHR ''-''" "c \<noteq> CHR ''+''"
    using to_string_chars [of c n] cs by auto
  have "strip_hex_prefix 10 (c # cs) = c # cs"
    by (simp add: strip_hex_prefix_def split: list.splits)
  then show ?thesis
    using c n read_digits_to_string [of n]
    by (simp add: strtoul_def cs ULONG_MAX_def Let_def)
qed

lemma atoi_to_string: "n < 2 ^ 31 \<Longrightarrow> atoi (to_string n) = int n"
proof -
  assume n: "n < 2 ^ 31"
  obtain c cs where cs: "to_string n = c # cs"
    using to_string_nonempty by (meson neq_Nil_conv)
  have c: "\<not> is_space c" "c \<noteq> CHR ''-''" "c \<noteq> CHR ''+''"
    using to_string_chars [of c n] cs by auto
  have m: "min (2 ^ 63 - 1) (int n) = int n"
    using n by simp
  have s: "sint (word_of_int (int n) :: 32 word) = int n"
    using n by (subst int_word_sint) simp
  show ?thesis
    using c m s read_digits_to_string [of n]
    by (simp add: atoi_def cs Let_def)
qed


section \<open>std::map\<close>

text \<open>
  A \<^verbatim>\<open>std::map\<close> iterates in key order, and the serialisers of this program write what the
  iteration gives. It is a list of pairs with strictly increasing keys. Strings compare by
  unsigned bytes, which is the order of \<open>string\<close> here.
\<close>

type_synonym ('k, 'v) smap = "('k \<times> 'v) list"

fun smap_put :: "'k::linorder \<Rightarrow> 'v \<Rightarrow> ('k, 'v) smap \<Rightarrow> ('k, 'v) smap" where
  "smap_put k v [] = [(k, v)]"
| "smap_put k v ((k', v') # m) =
     (if k < k' then (k, v) # (k', v') # m
      else if k = k' then (k, v) # m
      else (k', v') # smap_put k v m)"

definition smap_get :: "('k, 'v) smap \<Rightarrow> 'k \<Rightarrow> 'v option" where
  "smap_get m k = map_of m k"

definition smap_erase :: "'k \<Rightarrow> ('k, 'v) smap \<Rightarrow> ('k, 'v) smap" where
  "smap_erase k m = filter (\<lambda>p. fst p \<noteq> k) m"

definition smap_ok :: "('k::linorder, 'v) smap \<Rightarrow> bool" where
  "smap_ok m = sorted_wrt (<) (map fst m)"

text \<open>The interface every client of a map relies on.\<close>

locale ordered_map =
  fixes empty_m :: "'m"
    and put :: "'k::linorder \<Rightarrow> 'v \<Rightarrow> 'm \<Rightarrow> 'm"
    and erase :: "'k \<Rightarrow> 'm \<Rightarrow> 'm"
    and get :: "'m \<Rightarrow> 'k \<Rightarrow> 'v option"
    and items :: "'m \<Rightarrow> ('k \<times> 'v) list"
    and ok :: "'m \<Rightarrow> bool"
  assumes get_empty: "get empty_m k = None"
    and get_put: "ok m \<Longrightarrow> get (put k v m) k' = (if k' = k then Some v else get m k')"
    and get_erase: "ok m \<Longrightarrow> get (erase k m) k' = (if k' = k then None else get m k')"
    and ok_empty: "ok empty_m"
    and ok_put: "ok m \<Longrightarrow> ok (put k v m)"
    and ok_erase: "ok m \<Longrightarrow> ok (erase k m)"
    and items_sorted: "ok m \<Longrightarrow> sorted_wrt (<) (map fst (items m))"
    and items_get: "ok m \<Longrightarrow> get m = map_of (items m)"
begin

lemma ok_fold_put: "ok m \<Longrightarrow> ok (fold (\<lambda>(k, v). put k v) kvs m)"
  by (induction kvs arbitrary: m) (auto simp: ok_put)

lemma get_fold_put:
  "ok m \<Longrightarrow> get (fold (\<lambda>(k, v). put k v) kvs m) k =
     (case map_of (rev kvs) k of None \<Rightarrow> get m k | Some v \<Rightarrow> Some v)"
proof (induction kvs arbitrary: m)
  case Nil
  then show ?case by simp
next
  case (Cons p kvs)
  obtain a b where p: "p = (a, b)" by force
  have "get (fold (\<lambda>(k, v). put k v) kvs (put a b m)) k =
      (case map_of (rev kvs) k of None \<Rightarrow> get (put a b m) k | Some v \<Rightarrow> Some v)"
    using Cons.prems by (intro Cons.IH ok_put)
  then show ?case
    using Cons.prems by (auto simp: p get_put map_add_def split: option.splits)
qed

lemma map_of_rev_distinct: "distinct (map fst kvs) \<Longrightarrow> map_of (rev kvs) = map_of kvs"
  by (rule map_of_eqI) (auto simp: map_of_eq_Some_iff rev_map [symmetric])

text \<open>A map is determined by its contents: rebuilding it from its own items gives the same items.\<close>

lemma items_rebuild:
  assumes m: "ok m"
  shows "items (fold (\<lambda>(k, v). put k v) (items m) empty_m) = items m"
proof -
  let ?r = "fold (\<lambda>(k, v). put k v) (items m) empty_m"
  have ok_r: "ok ?r" by (rule ok_fold_put [OF ok_empty])
  have d: "distinct (map fst (items m))"
    using items_sorted [OF m] by (simp add: strict_sorted_iff)
  have "get ?r k = get m k" for k
    using get_fold_put [OF ok_empty, of "items m" k] items_get [OF m] get_empty
    by (simp add: map_of_rev_distinct [OF d] split: option.splits)
  then have eq: "map_of (items ?r) = map_of (items m)"
    using items_get [OF m] items_get [OF ok_r] by auto
  have s: "sorted (map fst (items ?r))" "distinct (map fst (items ?r))"
      "sorted (map fst (items m))"
    using items_sorted [OF ok_r] items_sorted [OF m] by (simp_all add: strict_sorted_iff)
  show ?thesis
  proof (rule map_sorted_distinct_set_unique [where f = fst])
    show "inj_on fst (set (items ?r) \<union> set (items m))"
    proof (rule inj_onI, clarsimp)
      fix a b c
      assume "(a, b) \<in> set (items ?r) \<or> (a, b) \<in> set (items m)"
        and "(a, c) \<in> set (items ?r) \<or> (a, c) \<in> set (items m)"
      then show "b = c"
        using eq d s(2) by (metis map_of_is_SomeI option.inject)
    qed
    show "set (items ?r) = set (items m)"
      using eq d s(2) by (metis map_of_eq_Some_iff subsetI subset_antisym surj_pair)
  qed (use s d in auto)
qed

end

lemma smap_put_keys: "set (map fst (smap_put k v m)) = insert k (set (map fst m))"
  by (induction k v m rule: smap_put.induct) auto

lemma smap_ok_put: "smap_ok m \<Longrightarrow> smap_ok (smap_put k v m)"
proof (induction k v m rule: smap_put.induct)
  case (1 k v)
  then show ?case by (simp add: smap_ok_def)
next
  case (2 k v k' v' m)
  have keys: "set (map fst (smap_put k v m)) = insert k (set (map fst m))"
    by (rule smap_put_keys)
  show ?case
    using 2 keys by (fastforce simp: smap_ok_def)
qed

lemma smap_get_put: "smap_ok m \<Longrightarrow> smap_get (smap_put k v m) k' = (if k' = k then Some v else smap_get m k')"
  by (induction k v m rule: smap_put.induct) (auto simp: smap_get_def smap_ok_def)

lemma smap_get_erase: "smap_get (smap_erase k m) k' = (if k' = k then None else smap_get m k')"
  by (induction m) (auto simp: smap_get_def smap_erase_def)

lemma smap_ok_erase: "smap_ok m \<Longrightarrow> smap_ok (smap_erase k m)"
  by (induction m) (auto simp: smap_ok_def smap_erase_def)

interpretation smap: ordered_map "[]" smap_put smap_erase smap_get "\<lambda>m. m" smap_ok
  by unfold_locales
    (auto simp: smap_get_put smap_get_erase smap_ok_put smap_ok_erase,
     auto simp: smap_get_def smap_ok_def)

lemma smap_ok_Nil [simp]: "smap_ok []"
  by (simp add: smap_ok_def)

lemma smap_get_Nil [simp]: "smap_get [] k = None"
  by (simp add: smap_get_def)

end
