(* ===== verification/Cox_Buffer.thy ===== *)
theory Cox_Buffer
  imports Cox_Prelude
begin

text \<open>
  The growable byte buffer of \<^verbatim>\<open>buffer/buffer.h\<close> and \<^verbatim>\<open>buffer/buffer.cc\<close>: one byte vector with a
  reader and a writer index. The theory holds the record, one definition per member function,
  the index invariant, and the refinement of the buffer to a queue of bytes. The interface that
  the message parsers use is the locale \<open>byte_queue\<close>, interpreted on the buffer's operations.
\<close>

section \<open>State and constructor\<close>

record buffer =
  buf_data :: "char list"
  reader_index :: nat
  writer_index :: nat

definition kCheapPrepend :: nat where
  "kCheapPrepend = 8"

definition kInitialSize :: nat where
  "kInitialSize = 1024"

definition Buffer :: "nat \<Rightarrow> buffer" where
  "Buffer initial_size =
     \<lparr>buf_data = replicate (kCheapPrepend + initial_size) (CHR 0x00),
      reader_index = kCheapPrepend, writer_index = kCheapPrepend\<rparr>"

definition readableBytes :: "buffer \<Rightarrow> nat" where
  "readableBytes b = writer_index b - reader_index b"

definition writableBytes :: "buffer \<Rightarrow> nat" where
  "writableBytes b = length (buf_data b) - writer_index b"

definition prependableBytes :: "buffer \<Rightarrow> nat" where
  "prependableBytes b = reader_index b"

text \<open>The memory a pointer returned by \<^verbatim>\<open>peek()\<close> may read: from the reader index to the end.\<close>

definition peek :: "buffer \<Rightarrow> char list" where
  "peek b = drop (reader_index b) (buf_data b)"

text \<open>The readable region, \<^verbatim>\<open>[peek(), peek() + readableBytes())\<close>.\<close>

definition readable :: "buffer \<Rightarrow> string" where
  "readable b = take (readableBytes b) (peek b)"

section \<open>Consuming\<close>

definition retrieveAll :: "buffer \<Rightarrow> buffer" where
  "retrieveAll b = b\<lparr>reader_index := kCheapPrepend, writer_index := kCheapPrepend\<rparr>"

definition retrieve :: "nat \<Rightarrow> buffer \<Rightarrow> buffer option" where
  "retrieve len b =
     (if \<not> len \<le> readableBytes b then None
      else if len < readableBytes b then Some (b\<lparr>reader_index := reader_index b + len\<rparr>)
      else Some (retrieveAll b))"

definition retrieveAsString :: "nat \<Rightarrow> buffer \<Rightarrow> (string \<times> buffer) option" where
  "retrieveAsString len b =
     (if \<not> len \<le> readableBytes b then None
      else do {
        let result = take len (peek b);
        b' \<leftarrow> retrieve len b;
        Some (result, b')
      })"

definition retrieveAllAsString :: "buffer \<Rightarrow> (string \<times> buffer) option" where
  "retrieveAllAsString b = retrieveAsString (readableBytes b) b"

section \<open>Producing\<close>

text \<open>\<^verbatim>\<open>std::memcpy\<close> and \<^verbatim>\<open>std::memmove\<close> of a block to an offset of the vector.\<close>

definition mem_copy :: "nat \<Rightarrow> char list \<Rightarrow> char list \<Rightarrow> char list" where
  "mem_copy pos src d = take pos d @ src @ drop (pos + length src) d"

text \<open>\<^verbatim>\<open>std::vector::resize\<close>: new elements are zero bytes.\<close>

definition vec_resize :: "nat \<Rightarrow> char list \<Rightarrow> char list" where
  "vec_resize n d = take n d @ replicate (n - length d) (CHR 0x00)"

definition makeSpace :: "nat \<Rightarrow> buffer \<Rightarrow> buffer" where
  "makeSpace len b =
     (if writableBytes b + prependableBytes b < len + kCheapPrepend
      then b\<lparr>buf_data := vec_resize (writer_index b + len) (buf_data b)\<rparr>
      else
        (let readable_n = readableBytes b
         in b\<lparr>buf_data := mem_copy kCheapPrepend (take readable_n (peek b)) (buf_data b),
              reader_index := kCheapPrepend,
              writer_index := kCheapPrepend + readable_n\<rparr>))"

definition ensureWritable :: "nat \<Rightarrow> buffer \<Rightarrow> buffer option" where
  "ensureWritable len b =
     (let b' = (if writableBytes b < len then makeSpace len b else b)
      in if writableBytes b' \<ge> len then Some b' else None)"

definition hasWritten :: "nat \<Rightarrow> buffer \<Rightarrow> buffer option" where
  "hasWritten len b =
     (if len \<le> writableBytes b then Some (b\<lparr>writer_index := writer_index b + len\<rparr>) else None)"

definition buf_append :: "string \<Rightarrow> buffer \<Rightarrow> buffer option" where
  "buf_append data b = do {
     b' \<leftarrow> ensureWritable (length data) b;
     Some (b'\<lparr>buf_data := mem_copy (writer_index b') data (buf_data b'),
              writer_index := writer_index b' + length data\<rparr>)
   }"

section \<open>Reading from a descriptor\<close>

text \<open>The answer of a read-like system call: the bytes it delivered, or an error number.\<close>

datatype io_result = IoData string | IoError nat

definition extrabuf_size :: nat where
  "extrabuf_size = 65536"

text \<open>Bytes one \<^verbatim>\<open>readv\<close> of \<^verbatim>\<open>readFd\<close> may deliver: the second vector is used only when needed.\<close>

definition readv_capacity :: "buffer \<Rightarrow> nat" where
  "readv_capacity b =
     (if writableBytes b < extrabuf_size then writableBytes b + extrabuf_size else writableBytes b)"

text \<open>
  \<^verbatim>\<open>readFd\<close>: the first \<^verbatim>\<open>writable\<close> bytes land in the vector, the rest in the stack buffer and are
  appended. The result is the return value, the saved \<^verbatim>\<open>errno\<close> when it is set, and the buffer.
\<close>

definition readFd :: "io_result \<Rightarrow> buffer \<Rightarrow> (int \<times> nat option \<times> buffer) option" where
  "readFd r b =
     (case r of
        IoError e \<Rightarrow> Some (-1, Some e, b)
      | IoData bs \<Rightarrow>
          (let writable = writableBytes b; n = length bs in
           if n \<le> writable
           then Some (int n, None,
                  b\<lparr>buf_data := mem_copy (writer_index b) bs (buf_data b),
                    writer_index := writer_index b + n\<rparr>)
           else do {
             let b1 = b\<lparr>buf_data := mem_copy (writer_index b) (take writable bs) (buf_data b),
                        writer_index := length (buf_data b)\<rparr>;
             b2 \<leftarrow> buf_append (drop writable bs) b1;
             Some (int n, None, b2)
           }))"

section \<open>The index invariant\<close>

text \<open>The layout of the header comment, with the prependable region never below its reserve.\<close>

definition buf_ok :: "buffer \<Rightarrow> bool" where
  "buf_ok b = (kCheapPrepend \<le> reader_index b \<and> reader_index b \<le> writer_index b \<and>
               writer_index b \<le> length (buf_data b))"

lemma buf_ok_Buffer [simp, intro]: "buf_ok (Buffer n)"
  by (simp add: buf_ok_def Buffer_def)

lemma readable_Buffer [simp]: "readable (Buffer n) = []"
  by (simp add: readable_def readableBytes_def Buffer_def)

lemma length_readable [buf_simps]: "buf_ok b \<Longrightarrow> length (readable b) = readableBytes b"
  by (auto simp: readable_def peek_def readableBytes_def buf_ok_def)

lemma readableBytes_conv: "buf_ok b \<Longrightarrow> readableBytes b = length (readable b)"
  by (simp add: length_readable)

lemma take_peek [buf_simps]: "buf_ok b \<Longrightarrow> n \<le> readableBytes b \<Longrightarrow> take n (peek b) = take n (readable b)"
  by (simp add: readable_def min_absorb1)

lemma retrieveAll_ok: "buf_ok b \<Longrightarrow> buf_ok (retrieveAll b)"
  by (auto simp: buf_ok_def retrieveAll_def)

lemma retrieveAll_readable [simp]: "readable (retrieveAll b) = []"
  by (simp add: readable_def readableBytes_def retrieveAll_def)

lemma retrieve_spec [buf_simps]:
  assumes ok: "buf_ok b" and len: "len \<le> length (readable b)"
  shows "\<exists>b'. retrieve len b = Some b' \<and> buf_ok b' \<and> readable b' = drop len (readable b)"
proof (cases "len < readableBytes b")
  case True
  then show ?thesis
    using ok len
    by (auto simp: retrieve_def buf_ok_def readable_def peek_def readableBytes_def drop_take add.commute)
next
  case False
  then have l: "len = readableBytes b"
    using ok len by (simp add: length_readable)
  have "retrieve len b = Some (retrieveAll b)"
    using False l by (simp add: retrieve_def)
  moreover have "drop len (readable b) = []"
    using ok l by (simp add: length_readable)
  ultimately show ?thesis
    using retrieveAll_ok [OF ok] by simp
qed

lemma retrieve_too_much: "buf_ok b \<Longrightarrow> length (readable b) < len \<Longrightarrow> retrieve len b = None"
  by (simp add: retrieve_def length_readable)

lemma length_mem_copy: "pos + length src \<le> length d \<Longrightarrow> length (mem_copy pos src d) = length d"
  by (simp add: mem_copy_def)

lemma makeSpace_readable:
  assumes ok: "buf_ok b" and few: "writableBytes b < len"
  shows "buf_ok (makeSpace len b)" and "readable (makeSpace len b) = readable b"
    and "len \<le> writableBytes (makeSpace len b)"
proof -
  note defs = makeSpace_def buf_ok_def readable_def peek_def readableBytes_def writableBytes_def
    prependableBytes_def vec_resize_def mem_copy_def Let_def kCheapPrepend_def
  show "buf_ok (makeSpace len b)"
    using ok few by (auto simp: defs)
  show "readable (makeSpace len b) = readable b"
    using ok few by (auto simp: defs min_absorb1 min_absorb2)
  show "len \<le> writableBytes (makeSpace len b)"
    using ok few by (auto simp: defs)
qed

lemma ensureWritable_spec:
  assumes "buf_ok b"
  shows "\<exists>b'. ensureWritable len b = Some b' \<and> buf_ok b' \<and> readable b' = readable b \<and>
              len \<le> writableBytes b'"
  using assms makeSpace_readable [OF assms, of len] by (auto simp: ensureWritable_def Let_def not_less)

lemma writable_room: "buf_ok b \<Longrightarrow> n \<le> writableBytes b \<Longrightarrow> writer_index b + n \<le> length (buf_data b)"
  by (auto simp: writableBytes_def buf_ok_def)

lemma write_at_writer:
  assumes ok: "buf_ok b" and fit: "length bs \<le> writableBytes b"
  defines "b' \<equiv> b\<lparr>buf_data := mem_copy (writer_index b) bs (buf_data b),
                   writer_index := writer_index b + length bs\<rparr>"
  shows "buf_ok b' \<and> readable b' = readable b @ bs"
proof -
  have fit': "writer_index b + length bs \<le> length (buf_data b)"
    using ok fit by (rule writable_room)
  have len: "length (mem_copy (writer_index b) bs (buf_data b)) = length (buf_data b)"
    using fit' by (rule length_mem_copy)
  have "take (writer_index b + length bs) (mem_copy (writer_index b) bs (buf_data b)) =
      take (writer_index b) (buf_data b) @ bs"
    using fit' by (simp add: mem_copy_def)
  then have "drop (reader_index b)
        (take (writer_index b + length bs) (mem_copy (writer_index b) bs (buf_data b))) =
      drop (reader_index b) (take (writer_index b) (buf_data b)) @ bs"
    using ok by (simp add: buf_ok_def)
  then show ?thesis
    using ok fit' len
    by (auto simp: b'_def buf_ok_def readable_def peek_def readableBytes_def drop_take)
qed

lemma buf_append_spec [buf_simps]:
  assumes "buf_ok b"
  shows "\<exists>b'. buf_append bs b = Some b' \<and> buf_ok b' \<and> readable b' = readable b @ bs"
proof -
  obtain b' where b': "ensureWritable (length bs) b = Some b'" "buf_ok b'"
      "readable b' = readable b" "length bs \<le> writableBytes b'"
    using ensureWritable_spec [OF assms] by blast
  show ?thesis
    using write_at_writer [OF b'(2,4)] b' by (simp add: buf_append_def)
qed

lemma readFd_spec:
  assumes ok: "buf_ok b"
  shows "\<exists>b'. readFd (IoData bs) b = Some (int (length bs), None, b') \<and> buf_ok b' \<and>
              readable b' = readable b @ bs"
proof (cases "length bs \<le> writableBytes b")
  case True
  then show ?thesis
    using write_at_writer [OF ok True] by (simp add: readFd_def Let_def)
next
  case False
  let ?w = "writableBytes b"
  let ?b1 = "b\<lparr>buf_data := mem_copy (writer_index b) (take ?w bs) (buf_data b),
               writer_index := length (buf_data b)\<rparr>"
  have w: "length (take ?w bs) = ?w" "writer_index b + ?w = length (buf_data b)"
    using False ok by (simp_all add: writableBytes_def buf_ok_def)
  have b1: "buf_ok ?b1 \<and> readable ?b1 = readable b @ take ?w bs"
    using write_at_writer [OF ok, of "take ?w bs"] w by simp
  then obtain b2 where "buf_append (drop ?w bs) ?b1 = Some b2" "buf_ok b2"
      "readable b2 = readable ?b1 @ drop ?w bs"
    using buf_append_spec by blast
  then show ?thesis
    using False b1 by (simp add: readFd_def Let_def)
qed

section \<open>The interface the parsers rely on\<close>

locale byte_queue =
  fixes contents :: "'b \<Rightarrow> string"
    and enqueue :: "string \<Rightarrow> 'b \<Rightarrow> 'b option"
    and consume :: "nat \<Rightarrow> 'b \<Rightarrow> 'b option"
    and wf :: "'b \<Rightarrow> bool"
  assumes enqueue_contents:
      "wf b \<Longrightarrow> \<exists>b'. enqueue s b = Some b' \<and> wf b' \<and> contents b' = contents b @ s"
    and consume_contents:
      "wf b \<Longrightarrow> n \<le> length (contents b) \<Longrightarrow>
       \<exists>b'. consume n b = Some b' \<and> wf b' \<and> contents b' = drop n (contents b)"
    and consume_too_much:
      "wf b \<Longrightarrow> length (contents b) < n \<Longrightarrow> consume n b = None"
begin

lemma consume_iff: "wf b \<Longrightarrow> (\<exists>b'. consume n b = Some b') \<longleftrightarrow> n \<le> length (contents b)"
  using consume_contents consume_too_much by (metis not_less option.distinct(1))

lemma consume_SomeD: "wf b \<Longrightarrow> consume n b = Some b' \<Longrightarrow> wf b' \<and> contents b' = drop n (contents b)"
  using consume_contents [of b n] consume_iff [of b n] by fastforce

lemma enqueue_SomeD: "wf b \<Longrightarrow> enqueue s b = Some b' \<Longrightarrow> wf b' \<and> contents b' = contents b @ s"
  using enqueue_contents [of b s] by fastforce

text \<open>Two blocks appended one after the other are one block.\<close>

lemma enqueue_twice:
  "wf b \<Longrightarrow> \<exists>b'. Option.bind (enqueue s b) (enqueue t) = Some b' \<and> wf b' \<and>
               contents b' = contents b @ s @ t"
  using enqueue_contents [of b s] enqueue_contents [of _ t] by fastforce

end

interpretation bq: byte_queue readable buf_append retrieve buf_ok
  by unfold_locales (auto intro: buf_append_spec retrieve_spec retrieve_too_much)

section \<open>Refinement to a queue of bytes\<close>

text \<open>
  The operations a client performs on a buffer, each with the value it returns. \<open>OpFill\<close> is the use of \<^verbatim>\<open>hasWritten\<close>: room is reserved, the client writes at \<^verbatim>\<open>beginWrite()\<close>
  and commits what it wrote.
\<close>

datatype buf_op =
    OpAppend string
  | OpRetrieve nat
  | OpRetrieveAll
  | OpRetrieveAsString nat
  | OpRetrieveAllAsString
  | OpEnsureWritable nat
  | OpFill string
  | OpReadFd io_result

datatype buf_out = OutVoid | OutString string | OutRead int "nat option"

definition fill :: "string \<Rightarrow> buffer \<Rightarrow> buffer option" where
  "fill s b = do {
     b1 \<leftarrow> ensureWritable (length s) b;
     hasWritten (length s) (b1\<lparr>buf_data := mem_copy (writer_index b1) s (buf_data b1)\<rparr>)
   }"

fun exec_op :: "buf_op \<Rightarrow> buffer \<Rightarrow> (buf_out \<times> buffer) option" where
  "exec_op (OpAppend s) b = map_option (Pair OutVoid) (buf_append s b)"
| "exec_op (OpRetrieve n) b = map_option (Pair OutVoid) (retrieve n b)"
| "exec_op OpRetrieveAll b = Some (OutVoid, retrieveAll b)"
| "exec_op (OpRetrieveAsString n) b = map_option (apfst OutString) (retrieveAsString n b)"
| "exec_op OpRetrieveAllAsString b = map_option (apfst OutString) (retrieveAllAsString b)"
| "exec_op (OpEnsureWritable n) b = map_option (Pair OutVoid) (ensureWritable n b)"
| "exec_op (OpFill s) b = map_option (Pair OutVoid) (fill s b)"
| "exec_op (OpReadFd r) b = map_option (\<lambda>(n, e, b'). (OutRead n e, b')) (readFd r b)"

fun exec_ops :: "buf_op list \<Rightarrow> buffer \<Rightarrow> (buf_out list \<times> buffer) option" where
  "exec_ops [] b = Some ([], b)"
| "exec_ops (x # xs) b = do { (r, b1) \<leftarrow> exec_op x b; (rs, b2) \<leftarrow> exec_ops xs b1; Some (r # rs, b2) }"

text \<open>The specification: the same operations on the plain sequence of unread bytes.\<close>

fun spec_op :: "buf_op \<Rightarrow> string \<Rightarrow> (buf_out \<times> string) option" where
  "spec_op (OpAppend s) q = Some (OutVoid, q @ s)"
| "spec_op (OpRetrieve n) q = (if n \<le> length q then Some (OutVoid, drop n q) else None)"
| "spec_op OpRetrieveAll q = Some (OutVoid, [])"
| "spec_op (OpRetrieveAsString n) q = (if n \<le> length q then Some (OutString (take n q), drop n q) else None)"
| "spec_op OpRetrieveAllAsString q = Some (OutString q, [])"
| "spec_op (OpEnsureWritable n) q = Some (OutVoid, q)"
| "spec_op (OpFill s) q = Some (OutVoid, q @ s)"
| "spec_op (OpReadFd (IoData s)) q = Some (OutRead (int (length s)) None, q @ s)"
| "spec_op (OpReadFd (IoError e)) q = Some (OutRead (-1) (Some e), q)"

fun spec_ops :: "buf_op list \<Rightarrow> string \<Rightarrow> (buf_out list \<times> string) option" where
  "spec_ops [] q = Some ([], q)"
| "spec_ops (x # xs) q = do { (r, q1) \<leftarrow> spec_op x q; (rs, q2) \<leftarrow> spec_ops xs q1; Some (r # rs, q2) }"

lemma retrieveAsString_spec:
  assumes "buf_ok b" "n \<le> length (readable b)"
  shows "\<exists>b'. retrieveAsString n b = Some (take n (readable b), b') \<and> buf_ok b' \<and> readable b' = drop n (readable b)"
  using retrieve_spec [OF assms] assms by (auto simp: retrieveAsString_def length_readable take_peek)

lemma retrieveAsString_too_much: "buf_ok b \<Longrightarrow> length (readable b) < n \<Longrightarrow> retrieveAsString n b = None"
  by (simp add: retrieveAsString_def length_readable)

lemma fill_spec:
  assumes "buf_ok b"
  shows "\<exists>b'. fill s b = Some b' \<and> buf_ok b' \<and> readable b' = readable b @ s"
proof -
  obtain b1 where b1: "ensureWritable (length s) b = Some b1" "buf_ok b1" "readable b1 = readable b" "length s \<le> writableBytes b1"
    using ensureWritable_spec [OF assms] by blast
  have "length (mem_copy (writer_index b1) s (buf_data b1)) = length (buf_data b1)"
    using writable_room [OF b1(2,4)] by (rule length_mem_copy)
  then show ?thesis using write_at_writer [OF b1(2,4)] b1 by (simp add: fill_def hasWritten_def writableBytes_def)
qed

lemma exec_op_refines:
  assumes ok: "buf_ok b"
  shows "map_option (apsnd readable) (exec_op x b) = spec_op x (readable b) \<and>
         (\<forall>r b'. exec_op x b = Some (r, b') \<longrightarrow> buf_ok b')"
proof (cases x)
  case (OpAppend s)
  then show ?thesis using bq.enqueue_contents [OF ok, of s] by auto
next
  case (OpRetrieve n)
  then show ?thesis
    using bq.consume_contents [OF ok, of n] bq.consume_too_much [OF ok, of n]
    by (cases "n \<le> length (readable b)") auto
next
  case OpRetrieveAll
  then show ?thesis using retrieveAll_ok [OF ok] by simp
next
  case (OpRetrieveAsString n)
  then show ?thesis using retrieveAsString_spec [OF ok, of n] retrieveAsString_too_much [OF ok, of n]
    by (cases "n \<le> length (readable b)") auto
next
  case OpRetrieveAllAsString
  then show ?thesis using retrieveAsString_spec [OF ok, of "length (readable b)"] ok
    by (auto simp: retrieveAllAsString_def length_readable)
next
  case (OpEnsureWritable n)
  then show ?thesis using ensureWritable_spec [OF ok, of n] by auto
next
  case (OpFill s)
  then show ?thesis using fill_spec [OF ok, of s] by auto
next
  case (OpReadFd r)
  show ?thesis
  proof (cases r)
    case (IoData bs)
    then show ?thesis using readFd_spec [OF ok, of bs] OpReadFd by auto
  next
    case (IoError e)
    then show ?thesis using OpReadFd ok by (simp add: readFd_def)
  qed
qed

lemma exec_ops_refines:
  "buf_ok b \<Longrightarrow> map_option (apsnd readable) (exec_ops xs b) = spec_ops xs (readable b) \<and>
                (\<forall>rs b'. exec_ops xs b = Some (rs, b') \<longrightarrow> buf_ok b')"
proof (induction xs arbitrary: b)
  case Nil
  then show ?case by simp
next
  case (Cons x xs)
  show ?case
  proof (cases "exec_op x b")
    case None
    then show ?thesis using exec_op_refines [OF Cons.prems, of x] by auto
  next
    case (Some y)
    obtain r b' where y: "y = (r, b')" by (cases y)
    have b': "buf_ok b'" "spec_op x (readable b) = Some (r, readable b')"
      using exec_op_refines [OF Cons.prems, of x] Some y by auto
    have ih: "spec_ops xs (readable b') = map_option (apsnd readable) (exec_ops xs b')" "\<forall>rs c. exec_ops xs b' = Some (rs, c) \<longrightarrow> buf_ok c"
      using Cons.IH [OF b'(1)] by simp_all
    show ?thesis using ih Some y b'(2) by (cases "exec_ops xs b'") auto
  qed
qed


lemma buf_append_length:
  assumes "buf_ok b" "buf_append bs b = Some b'"
  shows "length (buf_data b') =
    length (buf_data (if writableBytes b < length bs then makeSpace (length bs) b else b))"
proof -
  let ?b1 = "if writableBytes b < length bs then makeSpace (length bs) b else b"
  have "buf_ok ?b1" "length bs \<le> writableBytes ?b1"
    using makeSpace_readable [OF assms(1), of "length bs"] assms(1) by auto
  then have "writer_index ?b1 + length bs \<le> length (buf_data ?b1)"
    by (rule writable_room)
  then have "length (mem_copy (writer_index ?b1) bs (buf_data ?b1)) = length (buf_data ?b1)"
    by (rule length_mem_copy)
  then show ?thesis
    using assms(2) by (auto simp: buf_append_def ensureWritable_def Let_def bind_eq_Some_conv split: if_splits)
qed

lemma makeSpace_length:
  assumes ok: "buf_ok b" and few: "writableBytes b < len"
  shows "length (buf_data (makeSpace len b)) =
    (if len + kCheapPrepend \<le> writableBytes b + prependableBytes b
     then length (buf_data b) else writer_index b + len)"
proof (cases "len + kCheapPrepend \<le> writableBytes b + prependableBytes b")
  case True
  have "kCheapPrepend + length (take (readableBytes b) (peek b)) \<le> length (buf_data b)"
    using ok by (auto simp: buf_ok_def readableBytes_def peek_def)
  then show ?thesis using True by (simp add: makeSpace_def Let_def length_mem_copy)
next
  case False
  then show ?thesis using ok few by (auto simp: makeSpace_def vec_resize_def writableBytes_def buf_ok_def)
qed

text \<open>
  growth. An append that finds enough room in the writable and the consumed region together
  keeps the vector's size (it compacts at most); otherwise the vector ends exactly
  at the appended data. In both cases the bytes already buffered are kept.
\<close>

theorem buf_append_growth:
  assumes "buf_ok b"
  shows "\<exists>b'. buf_append bs b = Some b' \<and> readable b' = readable b @ bs \<and>
     length (buf_data b') =
       (if length bs \<le> writableBytes b \<or>
           length bs + kCheapPrepend \<le> writableBytes b + prependableBytes b
        then length (buf_data b) else writer_index b + length bs)"
proof -
  obtain b' where b': "buf_append bs b = Some b'" "readable b' = readable b @ bs"
    using buf_append_spec [OF assms] by blast
  have "length (buf_data b') =
       (if length bs \<le> writableBytes b \<or>
           length bs + kCheapPrepend \<le> writableBytes b + prependableBytes b
        then length (buf_data b) else writer_index b + length bs)"
    using buf_append_length [OF assms b'(1)] makeSpace_length [OF assms, of "length bs"] by auto
  with b' show ?thesis by blast
qed

theorem buf_append_growth_witness:
  "\<exists>b'. buf_append ''abc'' (Buffer 2) = Some b' \<and> readable b' = ''abc'' \<and> length (buf_data b') = 11"
proof -
  have ok: "buf_ok (Buffer 2)" by simp
  show ?thesis
    using buf_append_growth [OF ok, of "''abc''"]
    by (simp add: writableBytes_def prependableBytes_def Buffer_def [of 2] kCheapPrepend_def
        readable_def readableBytes_def)
qed

end
