(* ===== verification/Http_Url.thy ===== *)
theory Http_Url
  imports Cox_Prelude
begin

unbundle bit_operations_syntax

text \<open>
  Percent coding and query strings, \<^verbatim>\<open>http/url.h\<close> and \<^verbatim>\<open>http/url.cc\<close>. The theory shows that
  decoding inverts encoding, that an encoded string holds no delimiter, that the
  index-based query loop is a split into pairs, and that a query built from encoded pairs is
  read back as those pairs.
\<close>

section \<open>Definitions\<close>

type_synonym query_params = "(string, string) smap"

definition hexValue :: "char \<Rightarrow> int" where
  "hexValue c =
     (if CHR ''0'' \<le> c \<and> c \<le> CHR ''9'' then int (of_char c) - int (of_char (CHR ''0''))
      else if CHR ''a'' \<le> c \<and> c \<le> CHR ''f'' then int (of_char c) - int (of_char (CHR ''a'')) + 10
      else if CHR ''A'' \<le> c \<and> c \<le> CHR ''F'' then int (of_char c) - int (of_char (CHR ''A'')) + 10
      else -1)"

definition isalnum :: "char \<Rightarrow> bool" where
  "isalnum c = (CHR ''0'' \<le> c \<and> c \<le> CHR ''9'' \<or> CHR ''A'' \<le> c \<and> c \<le> CHR ''Z'' \<or>
                CHR ''a'' \<le> c \<and> c \<le> CHR ''z'')"

definition isUnreserved :: "char \<Rightarrow> bool" where
  "isUnreserved c = (isalnum c \<or> c = CHR ''-'' \<or> c = CHR ''_'' \<or> c = CHR ''.'' \<or> c = CHR ''~'')"

text \<open>\<^verbatim>\<open>urlDecode\<close>: the rest of the input stands for the index; \<^verbatim>\<open>i + 2 < size\<close> is two more bytes.\<close>

fun urlDecode :: "bool \<Rightarrow> string \<Rightarrow> string" where
  "urlDecode plus_as_space [] = []"
| "urlDecode plus_as_space (c # rest) =
     (if c = CHR ''%'' \<and> length rest \<ge> 2
      then (let hi = hexValue (rest ! 0); lo = hexValue (rest ! 1) in
            if hi \<ge> 0 \<and> lo \<ge> 0
            then char_of (push_bit 4 hi OR lo) # urlDecode plus_as_space (drop 2 rest)
            else c # urlDecode plus_as_space rest)
      else if c = CHR ''+'' \<and> plus_as_space then SP # urlDecode plus_as_space rest
      else c # urlDecode plus_as_space rest)"

definition kHex :: string where
  "kHex = ''0123456789ABCDEF''"

definition encode_char :: "char \<Rightarrow> string" where
  "encode_char ch =
     (let c = (of_char ch :: nat) in
      if isUnreserved ch then [ch]
      else [CHR ''%'', kHex ! (drop_bit 4 c), kHex ! (c AND 15)])"

fun urlEncode :: "string \<Rightarrow> string" where
  "urlEncode [] = []"
| "urlEncode (ch # rest) = encode_char ch @ urlEncode rest"

text \<open>The loop of \<^verbatim>\<open>parseQuery\<close> from index \<open>i\<close>.\<close>

function parseQuery_from :: "string \<Rightarrow> nat \<Rightarrow> query_params \<Rightarrow> query_params" where
  "parseQuery_from query i params =
     (if i < length query
      then (let amp = (case str_find (CHR ''&'') query i of None \<Rightarrow> length query | Some a \<Rightarrow> a);
                eq = str_find (CHR ''='') query i;
                params' =
                  (case eq of
                     None \<Rightarrow>
                       (let key = urlDecode True (substr query i (amp - i)) in
                        if key \<noteq> [] then smap_put key [] params else params)
                   | Some e \<Rightarrow>
                       if e > amp
                       then (let key = urlDecode True (substr query i (amp - i)) in
                             if key \<noteq> [] then smap_put key [] params else params)
                       else (let key = urlDecode True (substr query i (e - i));
                                 value = urlDecode True (substr query (e + 1) (amp - e - 1)) in
                             if key \<noteq> [] then smap_put key value params else params))
            in parseQuery_from query (amp + 1) params')
      else params)"
  by pat_completeness auto
termination
  by (relation "measure (\<lambda>(q, i, p). length q - i)")
    (auto simp: str_find_def Let_def split: option.splits if_splits)

declare parseQuery_from.simps [simp del]

definition parseQuery :: "string \<Rightarrow> query_params" where
  "parseQuery query = parseQuery_from query 0 []"

section \<open>Percent coding\<close>

lemma less_16_iff: "(d::nat) < 16 \<longleftrightarrow> d \<in> set [0..<16]"
  by simp

lemma kHex_table: "\<forall>d \<in> set [0..<16]. hexValue (kHex ! d) = int d \<and> isUnreserved (kHex ! d)"
  by code_simp

lemma hexValue_kHex: "d < 16 \<Longrightarrow> hexValue (kHex ! d) = int d"
  using kHex_table unfolding less_16_iff by blast

lemma kHex_unreserved: "d < 16 \<Longrightarrow> isUnreserved (kHex ! d)"
  using kHex_table unfolding less_16_iff by blast

lemma hexValue_range: "-1 \<le> hexValue c \<and> hexValue c < 16"
  by (auto simp: hexValue_def less_eq_char_def)

lemma nibbles_or:
  assumes "d < 16" "e < 16"
  shows "push_bit 4 (int d) OR int e = int (16 * d + e)"
proof -
  have "push_bit 4 (int d) OR int e = push_bit 4 (int d) + int e"
  proof (rule disjunctive_add [symmetric])
    fix n
    show "\<not> bit (push_bit 4 (int d)) n \<or> \<not> bit (int e) n"
    proof (cases "n < 4")
      case True
      then show ?thesis by (simp add: bit_push_bit_iff)
    next
      case False
      have "take_bit 4 (int e) = int e" using assms(2) by (simp add: take_bit_int_eq_self)
      then have "\<not> bit (int e) n" using False by (metis bit_take_bit_iff)
      then show ?thesis by simp
    qed
  qed
  then show ?thesis by (simp add: push_bit_eq_mult)
qed

lemma of_char_nibbles:
  fixes ch :: char
  defines "c \<equiv> (of_char ch :: nat)"
  shows "drop_bit 4 c < 16" and "c AND 15 < 16" and "16 * drop_bit 4 c + (c AND 15) = c"
proof -
  have c: "c < 256" by (simp add: c_def)
  have m: "c AND 15 = c mod 16"
  proof -
    have "c AND 15 = take_bit 4 c" by (simp add: take_bit_eq_mask mask_eq_exp_minus_1)
    then show ?thesis by (simp add: take_bit_eq_mod)
  qed
  show "drop_bit 4 c < 16" using c by (simp add: drop_bit_eq_div)
  show "c AND 15 < 16" by (simp add: m)
  show "16 * drop_bit 4 c + (c AND 15) = c" by (simp add: m drop_bit_eq_div)
qed

lemma urlDecode_encode_char: "urlDecode pas (encode_char ch @ rest) = ch # urlDecode pas rest"
proof (cases "isUnreserved ch")
  case True
  then have "ch \<noteq> CHR ''%''" "ch \<noteq> CHR ''+''"
    by (auto simp: isUnreserved_def isalnum_def less_eq_char_def)
  then show ?thesis using True by (simp add: encode_char_def)
next
  case False
  let ?c = "of_char ch :: nat"
  note nib = of_char_nibbles [of ch]
  have "char_of (push_bit 4 (int (drop_bit 4 ?c)) OR int (?c AND 15)) = ch"
    unfolding nibbles_or [OF nib(1,2)] nib(3) by (simp add: char_of_def [symmetric])
  then show ?thesis
    using False hexValue_kHex [OF nib(1)] hexValue_kHex [OF nib(2)]
    by (simp add: encode_char_def Let_def)
qed

lemma urlDecode_urlEncode_append: "urlDecode pas (urlEncode s @ t) = s @ urlDecode pas t"
  by (induction s) (simp_all add: urlDecode_encode_char)

lemma urlDecode_urlEncode [simp]: "urlDecode pas (urlEncode s) = s"
  using urlDecode_urlEncode_append [of pas s "[]"] by simp

lemma urlEncode_chars: "c \<in> set (urlEncode s) \<Longrightarrow> isUnreserved c \<or> c = CHR ''%''"
  by (induction s)
    (auto simp: encode_char_def Let_def of_char_nibbles kHex_unreserved split: if_splits)

lemma urlEncode_no_delimiter:
  "CHR ''&'' \<notin> set (urlEncode s)" "CHR ''='' \<notin> set (urlEncode s)" "CHR ''/'' \<notin> set (urlEncode s)"
  using urlEncode_chars [of "CHR ''&''" s] urlEncode_chars [of "CHR ''=''" s] urlEncode_chars [of "CHR ''/''" s]
  by (auto simp: isUnreserved_def isalnum_def less_eq_char_def)

section \<open>Query strings\<close>

text \<open>The reference: cut at every ampersand, then each piece at its first equals sign.\<close>

function split_on :: "char \<Rightarrow> string \<Rightarrow> string list" where
  "split_on c s =
     (let n = find_char c s in
      if n < length s then take n s # split_on c (drop (Suc n) s) else [s])"
  by pat_completeness auto
termination
  by (relation "measure (\<lambda>(c, s). length s)") (auto simp: Let_def intro: diff_less dest: length_pos_if_in_set)

declare split_on.simps [simp del]

definition put_piece :: "string \<Rightarrow> query_params \<Rightarrow> query_params" where
  "put_piece piece params =
     (let n = find_char (CHR ''='') piece;
          key = urlDecode True (take n piece);
          value = urlDecode True (drop (Suc n) piece)
      in if key \<noteq> [] then smap_put key value params else params)"

lemma split_on_hit: "c \<notin> set s \<Longrightarrow> split_on c (s @ c # t) = s # split_on c t"
  by (subst split_on.simps) (simp add: Let_def)

lemma split_on_miss: "c \<notin> set s \<Longrightarrow> split_on c s = [s]"
  by (subst split_on.simps) (simp add: Let_def)

lemma put_piece_Nil [simp]: "put_piece [] params = params"
  by (simp add: put_piece_def)

text \<open>One round of the loop handles exactly the next piece.\<close>

lemma parseQuery_round:
  assumes i: "i < length q"
  defines "n \<equiv> find_char (CHR ''&'') (drop i q)"
  shows "parseQuery_from q i params = parseQuery_from q (i + n + 1) (put_piece (take n (drop i q)) params)"
proof -
  let ?d = "drop i q" and ?e = "find_char (CHR ''='') (drop i q)"
  have n_le: "n \<le> length ?d" unfolding n_def by (rule find_char_le)
  have amp: "(case str_find (CHR ''&'') q i of None \<Rightarrow> length q | Some a \<Rightarrow> a) = i + n"
    using i n_le by (auto simp: str_find_def Let_def n_def [symmetric])
  have piece_find: "find_char (CHR ''='') (take n ?d) = min n ?e"
    by (rule find_char_take)
  have ne: "?e \<noteq> n" if "?e < length ?d"
    using find_char_inj [of "CHR ''=''" ?d "CHR ''&''"] that find_char_less [of "CHR ''=''" ?d]
    unfolding n_def by auto
  have eq: "str_find (CHR ''='') q i = (if ?e < length ?d then Some (i + ?e) else None)"
    using i by (auto simp: str_find_def Let_def)
  show ?thesis
  proof (cases "?e < n")
    case True
    then have "?e < length ?d" using n_le by simp
    then show ?thesis
      using i True piece_find n_le
      by (subst parseQuery_from.simps)
        (simp add: amp eq put_piece_def Let_def substr_def min_absorb1 drop_take add.commute)
  next
    case False
    then have "\<not> i + ?e \<le> i + n" if "?e < length ?d" using ne that by simp
    then show ?thesis
      using i False piece_find n_le
      by (subst parseQuery_from.simps)
        (auto simp: amp eq put_piece_def Let_def substr_def min_absorb1)
  qed
qed

lemma parseQuery_from_split:
  "parseQuery_from q i params = fold put_piece (split_on (CHR ''&'') (drop i q)) params"
proof (induction "length q - i" arbitrary: i params rule: less_induct)
  case less
  let ?n = "find_char (CHR ''&'') (drop i q)"
  show ?case
  proof (cases "i < length q")
    case False
    then show ?thesis
      by (subst parseQuery_from.simps) (simp add: split_on_miss)
  next
    case True
    have IH: "parseQuery_from q (i + ?n + 1) p =
        fold put_piece (split_on (CHR ''&'') (drop (i + ?n + 1) q)) p" for p
      using True by (intro less) simp
    show ?thesis
    proof (cases "?n < length (drop i q)")
      case hit: True
      then have "split_on (CHR ''&'') (drop i q) =
          take ?n (drop i q) # split_on (CHR ''&'') (drop (i + ?n + 1) q)"
        by (subst split_on.simps) (simp add: Let_def add.commute add.left_commute)
      then show ?thesis
        unfolding parseQuery_round [OF True] IH by simp
    next
      case False
      then have "?n = length (drop i q)" using find_char_le le_neq_implies_less by blast
      then have "split_on (CHR ''&'') (drop i q) = [take ?n (drop i q)]"
          "drop (i + ?n + 1) q = []"
        by (subst split_on.simps, simp_all add: Let_def)
      then show ?thesis
        unfolding parseQuery_round [OF True] IH by (simp add: split_on_miss)
    qed
  qed
qed

fun join_query :: "(string \<times> string) list \<Rightarrow> string" where
  "join_query [] = []"
| "join_query [(k, v)] = urlEncode k @ CHR ''='' # urlEncode v"
| "join_query ((k, v) # kvs) = urlEncode k @ CHR ''='' # urlEncode v @ CHR ''&'' # join_query kvs"

lemma put_piece_pair:
  "k \<noteq> [] \<Longrightarrow> put_piece (urlEncode k @ CHR ''='' # urlEncode v) params = smap_put k v params"
  by (simp add: put_piece_def Let_def urlEncode_no_delimiter)

lemma split_join_query:
  "\<forall>(k, v) \<in> set kvs. k \<noteq> [] \<Longrightarrow>
   fold put_piece (split_on (CHR ''&'') (join_query kvs)) params = fold (\<lambda>(k, v). smap_put k v) kvs params"
proof (induction kvs arbitrary: params rule: join_query.induct)
  case 1
  then show ?case by (simp add: split_on_miss)
next
  case (2 k v)
  then show ?case
    by (simp add: split_on_miss urlEncode_no_delimiter put_piece_pair)
next
  case (3 k v p kvs)
  have nd: "CHR ''&'' \<notin> set (urlEncode k @ CHR ''='' # urlEncode v)"
    by (simp add: urlEncode_no_delimiter)
  show ?case
    using 3 split_on_hit [OF nd, of "join_query (p # kvs)"] by (simp add: put_piece_pair)
qed

section \<open>Properties\<close>

text \<open>
  Percent coding round trip. Decoding an encoded string gives the string back, whichever
  way plus signs are read, and this also holds when more text follows; the encoded string
  consists of unreserved characters and percent signs only.
\<close>

theorem urlDecode_urlEncode_roundtrip:
  "urlDecode pas (urlEncode s @ t) = s @ urlDecode pas t \<and>
   list_all (\<lambda>c. isUnreserved c \<or> c = CHR ''%'') (urlEncode s)"
  using urlDecode_urlEncode_append urlEncode_chars by (auto simp: list_all_iff)

text \<open>
  the query loop, which walks the string by index with two searches per round, computes the
  same map as the reference: cut the query at every ampersand, cut each piece at its first
  equals sign, decode both halves, skip empty keys, and let later keys overwrite earlier ones.
\<close>

theorem parseQuery_is_split: "parseQuery q = fold put_piece (split_on (CHR ''&'') q) []"
  by (simp add: parseQuery_def parseQuery_from_split)

text \<open>
  A query string assembled from percent-encoded pairs with non-empty keys is parsed to
  exactly those pairs; of several pairs with one key the last one counts.
\<close>

theorem parseQuery_join_roundtrip:
  assumes "\<forall>(k, v) \<in> set kvs. k \<noteq> []"
  shows "smap_get (parseQuery (join_query kvs)) k = map_of (rev kvs) k \<and> smap_ok (parseQuery (join_query kvs))"
proof -
  have "parseQuery (join_query kvs) = fold (\<lambda>(k, v). smap_put k v) kvs []"
    using split_join_query [OF assms] by (simp add: parseQuery_def parseQuery_from_split)
  then show ?thesis
    using smap.get_fold_put [of "[]" kvs k] smap.ok_fold_put [of "[]" kvs]
    by (simp split: option.splits)
qed

theorem parseQuery_join_roundtrip_witness:
  "smap_get (parseQuery (join_query [(''a b'', ''1&2''), (''c'', ''%'')])) ''a b'' = Some ''1&2''"
proof -
  have h: "\<forall>(k, v) \<in> set [(''a b'', ''1&2''), (''c'', ''%'')]. k \<noteq> []" by simp
  show ?thesis using parseQuery_join_roundtrip [OF h, of "''a b''"] by simp
qed

end
