(* ===== verification/Http_Message.thy ===== *)
theory Http_Message
  imports Cox_Buffer Http_Url
begin

text \<open>
  The request and response objects of \<^verbatim>\<open>http/http_request.{h,cc}\<close> and
  \<^verbatim>\<open>http/http_response.{h,cc}\<close>: methods, case-insensitive headers, the lazily parsed query
  parameters, keep-alive, and the serialisers. Operations on a mutable object return it updated.
\<close>

section \<open>Methods\<close>

datatype Method = kInvalid | kGet | kPost | kPut | kDelete | kHead | kOptions | kPatch

fun methodToString :: "Method \<Rightarrow> string" where
  "methodToString kGet = ''GET''"
| "methodToString kPost = ''POST''"
| "methodToString kPut = ''PUT''"
| "methodToString kDelete = ''DELETE''"
| "methodToString kHead = ''HEAD''"
| "methodToString kOptions = ''OPTIONS''"
| "methodToString kPatch = ''PATCH''"
| "methodToString kInvalid = ''INVALID''"

definition methodFromString :: "string \<Rightarrow> Method" where
  "methodFromString s =
     (if s = ''GET'' then kGet
      else if s = ''POST'' then kPost
      else if s = ''PUT'' then kPut
      else if s = ''DELETE'' then kDelete
      else if s = ''HEAD'' then kHead
      else if s = ''OPTIONS'' then kOptions
      else if s = ''PATCH'' then kPatch
      else kInvalid)"

lemma methodFromString_ToString [simp]: "methodFromString (methodToString m) = m"
  by (cases m) (simp_all add: methodFromString_def)

lemma methodToString_FromString: "methodFromString s \<noteq> kInvalid \<Longrightarrow> methodToString (methodFromString s) = s"
  by (auto simp: methodFromString_def)

lemma methodToString_chars: "c \<in> set (methodToString m) \<Longrightarrow> c \<noteq> SP \<and> c \<noteq> CR \<and> c \<noteq> LF"
  by (cases m) auto

section \<open>Requests\<close>

record HttpRequest =
  req_method :: Method
  req_path :: string
  req_query :: string
  req_version :: string
  req_headers :: "(string, string) smap"
  req_body :: string
  req_query_params :: query_params
  req_query_parsed :: bool

definition HttpRequest_new :: HttpRequest where
  "HttpRequest_new =
     \<lparr>req_method = kInvalid, req_path = [], req_query = [], req_version = ''HTTP/1.1'',
      req_headers = [], req_body = [], req_query_params = [], req_query_parsed = False\<rparr>"

definition setQuery :: "string \<Rightarrow> HttpRequest \<Rightarrow> HttpRequest" where
  "setQuery q r = r\<lparr>req_query := q, req_query_parsed := False, req_query_params := []\<rparr>"

definition appendBody :: "string \<Rightarrow> HttpRequest \<Rightarrow> HttpRequest" where
  "appendBody data r = r\<lparr>req_body := req_body r @ data\<rparr>"

definition addHeader :: "string \<Rightarrow> string \<Rightarrow> HttpRequest \<Rightarrow> HttpRequest" where
  "addHeader key value r = r\<lparr>req_headers := smap_put (toLower key) value (req_headers r)\<rparr>"

definition header :: "HttpRequest \<Rightarrow> string \<Rightarrow> string" where
  "header r key =
     (case smap_get (req_headers r) (toLower key) of None \<Rightarrow> [] | Some v \<Rightarrow> v)"

definition hasHeader :: "HttpRequest \<Rightarrow> string \<Rightarrow> bool" where
  "hasHeader r key = (smap_get (req_headers r) (toLower key) \<noteq> None)"

text \<open>\<^verbatim>\<open>queryParams()\<close> is \<^verbatim>\<open>const\<close> but fills a mutable cache: the result carries the request.\<close>

definition queryParams :: "HttpRequest \<Rightarrow> query_params \<times> HttpRequest" where
  "queryParams r =
     (let r' = (if \<not> req_query_parsed r
                then r\<lparr>req_query_params := parseQuery (req_query r), req_query_parsed := True\<rparr>
                else r)
      in (req_query_params r', r'))"

definition queryParam :: "HttpRequest \<Rightarrow> string \<Rightarrow> string \<times> HttpRequest" where
  "queryParam r key =
     (let (p, r') = queryParams r
      in (case smap_get p key of None \<Rightarrow> [] | Some v \<Rightarrow> v, r'))"

definition hasQueryParam :: "HttpRequest \<Rightarrow> string \<Rightarrow> bool \<times> HttpRequest" where
  "hasQueryParam r key = (let (p, r') = queryParams r in (smap_get p key \<noteq> None, r'))"

definition formParams :: "HttpRequest \<Rightarrow> query_params" where
  "formParams r =
     (let ct = toLower (header r ''content-type'') in
      if \<not> str_contains ''application/x-www-form-urlencoded'' ct then []
      else parseQuery (req_body r))"

definition keepAlive :: "HttpRequest \<Rightarrow> bool" where
  "keepAlive r =
     (let conn = toLower (header r ''connection'') in
      if req_version r = ''HTTP/1.1'' then conn \<noteq> ''close''
      else conn = ''keep-alive'')"

definition HttpRequest_reset :: "HttpRequest \<Rightarrow> HttpRequest" where
  "HttpRequest_reset r =
     r\<lparr>req_method := kInvalid, req_path := [], req_query := [], req_version := ''HTTP/1.1'',
       req_headers := [], req_body := [], req_query_params := [], req_query_parsed := False\<rparr>"

text \<open>One header line of the serialisers.\<close>

definition header_line :: "string \<Rightarrow> string \<Rightarrow> string" where
  "header_line key value = key @ '': '' @ value @ CRLF"

definition request_head :: "HttpRequest \<Rightarrow> string \<Rightarrow> string" where
  "request_head r host =
     methodToString (req_method r) @ '' '' @
     (if req_path r = [] then ''/'' else req_path r) @
     (if req_query r \<noteq> [] then ''?'' @ req_query r else []) @
     '' HTTP/1.1'' @ CRLF @
     (if host \<noteq> [] \<and> smap_get (req_headers r) ''host'' = None then header_line ''Host'' host else []) @
     concat (map (\<lambda>(key, value). if key = ''content-length'' then [] else header_line key value)
       (req_headers r)) @
     ''Content-Length: '' @ to_string (length (req_body r)) @ CRLF @ CRLF"

definition HttpRequest_appendTo :: "HttpRequest \<Rightarrow> string \<Rightarrow> buffer \<Rightarrow> buffer option" where
  "HttpRequest_appendTo r host buf = do {
     b \<leftarrow> buf_append (request_head r host) buf;
     if req_body r \<noteq> [] then buf_append (req_body r) b else Some b
   }"

section \<open>Responses\<close>

record HttpResponse =
  status_code :: int
  status_reason :: string
  resp_headers :: "(string, string) smap"
  resp_body :: string
  keep_alive :: bool

definition HttpResponse_new :: "bool \<Rightarrow> HttpResponse" where
  "HttpResponse_new ka =
     \<lparr>status_code = 200, status_reason = ''OK'', resp_headers = [], resp_body = [], keep_alive = ka\<rparr>"

definition defaultReason :: "int \<Rightarrow> string" where
  "defaultReason code =
     (if code = 200 then ''OK''
      else if code = 201 then ''Created''
      else if code = 204 then ''No Content''
      else if code = 301 then ''Moved Permanently''
      else if code = 302 then ''Found''
      else if code = 304 then ''Not Modified''
      else if code = 400 then ''Bad Request''
      else if code = 401 then ''Unauthorized''
      else if code = 403 then ''Forbidden''
      else if code = 404 then ''Not Found''
      else if code = 405 then ''Method Not Allowed''
      else if code = 408 then ''Request Timeout''
      else if code = 413 then ''Payload Too Large''
      else if code = 429 then ''Too Many Requests''
      else if code = 500 then ''Internal Server Error''
      else if code = 501 then ''Not Implemented''
      else if code = 503 then ''Service Unavailable''
      else ''OK'')"

definition setStatus :: "int \<Rightarrow> string \<Rightarrow> HttpResponse \<Rightarrow> HttpResponse" where
  "setStatus code reason resp =
     resp\<lparr>status_code := code, status_reason := (if reason = [] then defaultReason code else reason)\<rparr>"

definition resp_addHeader :: "string \<Rightarrow> string \<Rightarrow> HttpResponse \<Rightarrow> HttpResponse" where
  "resp_addHeader key value resp = resp\<lparr>resp_headers := smap_put key value (resp_headers resp)\<rparr>"

definition resp_header :: "HttpResponse \<Rightarrow> string \<Rightarrow> string" where
  "resp_header resp key = (case smap_get (resp_headers resp) key of None \<Rightarrow> [] | Some v \<Rightarrow> v)"

definition setContentType :: "string \<Rightarrow> HttpResponse \<Rightarrow> HttpResponse" where
  "setContentType type resp = resp_addHeader ''Content-Type'' type resp"

definition setBody :: "string \<Rightarrow> HttpResponse \<Rightarrow> HttpResponse" where
  "setBody body resp = resp\<lparr>resp_body := body\<rparr>"

definition setKeepAlive :: "bool \<Rightarrow> HttpResponse \<Rightarrow> HttpResponse" where
  "setKeepAlive on resp = resp\<lparr>keep_alive := on\<rparr>"

text \<open>\<^verbatim>\<open>std::to_string(int)\<close>.\<close>

definition to_string_int :: "int \<Rightarrow> string" where
  "to_string_int i = (if i < 0 then CHR ''-'' # to_string (nat (- i)) else to_string (nat i))"

definition response_head :: "HttpResponse \<Rightarrow> string" where
  "response_head resp =
     ''HTTP/1.1 '' @ to_string_int (status_code resp) @ '' '' @ status_reason resp @ CRLF @
     ''Content-Length: '' @ to_string (length (resp_body resp)) @ CRLF @
     ''Connection: '' @ (if keep_alive resp then ''keep-alive'' else ''close'') @ CRLF @
     concat (map (\<lambda>(key, value). if key = ''Content-Length'' \<or> key = ''Connection'' then []
                                 else header_line key value)
       (resp_headers resp)) @
     CRLF"

definition HttpResponse_appendTo :: "HttpResponse \<Rightarrow> buffer \<Rightarrow> buffer option" where
  "HttpResponse_appendTo resp buf = do {
     b \<leftarrow> buf_append (response_head resp) buf;
     if resp_body resp \<noteq> [] then buf_append (resp_body resp) b else Some b
   }"

section \<open>Facts on the message objects\<close>

lemma HttpRequest_appendTo_spec:
  assumes "buf_ok buf"
  shows "\<exists>b. HttpRequest_appendTo r host buf = Some b \<and> buf_ok b \<and>
             readable b = readable buf @ request_head r host @ req_body r"
proof -
  obtain b where b: "buf_append (request_head r host) buf = Some b" "buf_ok b"
      "readable b = readable buf @ request_head r host"
    using bq.enqueue_contents [OF assms] by blast
  show ?thesis
    using b bq.enqueue_contents [OF b(2), of "req_body r"]
    by (auto simp: HttpRequest_appendTo_def)
qed

lemma HttpResponse_appendTo_spec:
  assumes "buf_ok buf"
  shows "\<exists>b. HttpResponse_appendTo r buf = Some b \<and> buf_ok b \<and>
             readable b = readable buf @ response_head r @ resp_body r"
proof -
  obtain b where b: "buf_append (response_head r) buf = Some b" "buf_ok b"
      "readable b = readable buf @ response_head r"
    using bq.enqueue_contents [OF assms] by blast
  show ?thesis
    using b bq.enqueue_contents [OF b(2), of "resp_body r"]
    by (auto simp: HttpResponse_appendTo_def)
qed

text \<open>The well-formed requests: a sorted header map with lower-case keys, and a coherent cache.\<close>

definition request_ok :: "HttpRequest \<Rightarrow> bool" where
  "request_ok r = (smap_ok (req_headers r) \<and> list_all (\<lambda>(k, v). toLower k = k) (req_headers r) \<and>
     (req_query_parsed r \<longrightarrow> req_query_params r = parseQuery (req_query r)))"

lemma set_smap_put: "set (smap_put k v m) \<subseteq> insert (k, v) (set m)"
  by (induction k v m rule: smap_put.induct) auto

lemma request_ok_new [simp]: "request_ok HttpRequest_new"
  by (simp add: request_ok_def HttpRequest_new_def)

lemma request_ok_addHeader: "request_ok r \<Longrightarrow> request_ok (addHeader k v r)"
  using set_smap_put [of "toLower k" v "req_headers r"]
  by (fastforce simp: request_ok_def addHeader_def smap_ok_put list_all_iff)

lemma request_ok_fields [simp]:
  "request_ok (r\<lparr>req_method := m\<rparr>) = request_ok r" "request_ok (r\<lparr>req_path := p\<rparr>) = request_ok r"
  "request_ok (r\<lparr>req_version := v\<rparr>) = request_ok r" "request_ok (r\<lparr>req_body := b\<rparr>) = request_ok r"
  by (simp_all add: request_ok_def)

lemma req_body_setQuery [simp]: "req_body (setQuery q r) = req_body r"
  by (simp add: setQuery_def)

lemma request_ok_setQuery: "request_ok r \<Longrightarrow> request_ok (setQuery q r)"
  by (simp add: request_ok_def setQuery_def)

lemma request_ok_queryParams: "request_ok r \<Longrightarrow> request_ok (snd (queryParams r))"
  by (simp add: request_ok_def queryParams_def Let_def)

lemma HttpRequest_reset_eq [simp]: "HttpRequest_reset r = HttpRequest_new"
  by (simp add: HttpRequest_reset_def HttpRequest_new_def)

text \<open>
  headers are case-insensitive. After adding a header, a lookup under any capitalisation of its
  name gives the new value, and every other name gives what it gave before.
\<close>

theorem header_addHeader:
  assumes "request_ok r"
  shows "header (addHeader k v r) k' = (if toLower k' = toLower k then v else header r k') \<and>
         hasHeader (addHeader k v r) k' = (toLower k' = toLower k \<or> hasHeader r k')"
  using assms by (auto simp: request_ok_def header_def hasHeader_def addHeader_def smap.get_put)

theorem header_addHeader_witness:
  "header (addHeader ''X-Id'' ''7'' HttpRequest_new) ''x-ID'' = ''7''"
proof -
  have "toLower ''x-ID'' = toLower ''X-Id''" by code_simp
  then show ?thesis
    using header_addHeader [OF request_ok_new, of "''X-Id''" "''7''" "''x-ID''"] by simp
qed

text \<open>The calls that touch the query or its cache, in any order.\<close>

datatype query_call = CallSetQuery string | CallQueryParams | CallQueryParam string
  | CallHasQueryParam string | CallAddHeader string string | CallReset

fun query_call_step :: "query_call \<Rightarrow> HttpRequest \<Rightarrow> HttpRequest" where
  "query_call_step (CallSetQuery q) r = setQuery q r"
| "query_call_step CallQueryParams r = snd (queryParams r)"
| "query_call_step (CallQueryParam k) r = snd (queryParam r k)"
| "query_call_step (CallHasQueryParam k) r = snd (hasQueryParam r k)"
| "query_call_step (CallAddHeader k v) r = addHeader k v r"
| "query_call_step CallReset r = HttpRequest_reset r"

lemma request_ok_calls: "request_ok r \<Longrightarrow> request_ok (fold query_call_step cs r)"
proof (induction cs arbitrary: r)
  case Nil
  then show ?case by simp
next
  case (Cons c cs)
  have "request_ok (query_call_step c r)"
    using Cons.prems request_ok_queryParams [OF Cons.prems]
    by (cases c) (auto simp: request_ok_setQuery request_ok_addHeader queryParam_def hasQueryParam_def
        Let_def split: prod.splits)
  then show ?case using Cons.IH by simp
qed

text \<open>
  the lazily filled cache of query parameters is never stale. After any sequence of setters,
  lookups and resets on a fresh request, \<^verbatim>\<open>queryParams()\<close> returns the parse of the current query, and
  asking again returns the same.
\<close>

theorem queryParams_coherent:
  "fst (queryParams (fold query_call_step cs HttpRequest_new)) =
     parseQuery (req_query (fold query_call_step cs HttpRequest_new)) \<and>
   queryParams (snd (queryParams (fold query_call_step cs HttpRequest_new))) =
     queryParams (fold query_call_step cs HttpRequest_new)"
  using request_ok_calls [OF request_ok_new, of cs] by (auto simp: request_ok_def queryParams_def Let_def)

end
