(* ===== verification/Http_Wire.thy ===== *)
theory Http_Wire
  imports Http_Message
begin

text \<open>
  What the request parser (\<^verbatim>\<open>http/http_context.cc\<close>) and the response parser
  (\<^verbatim>\<open>http/response_parser.cc\<close>) share: the search for a line end, header lines, the chunk
  encoding of RFC 7230, and the theory of an incremental parser driven by a
  \<^verbatim>\<open>while (progress)\<close> loop over a byte buffer. The locales \<open>stream_parser\<close> and
  \<open>buffered_parser\<close> are interpreted on both parsers.
\<close>

section \<open>Line ends\<close>

text \<open>\<^verbatim>\<open>findCrlf\<close>: the index of the first CRLF of the range, or \<^verbatim>\<open>nullptr\<close>.\<close>

fun findCrlf :: "string \<Rightarrow> nat option" where
  "findCrlf (a # b # rest) = (if a = CR \<and> b = LF then Some 0 else map_option Suc (findCrlf (b # rest)))"
| "findCrlf _ = None"

lemma findCrlf_bound: "findCrlf s = Some i \<Longrightarrow> i + 2 \<le> length s"
  by (induction s arbitrary: i rule: findCrlf.induct) (auto split: if_splits)

lemma findCrlf_pos: "findCrlf s = Some i \<Longrightarrow> 2 \<le> length s \<and> Suc (Suc i) \<le> length s"
  using findCrlf_bound by fastforce

lemma findCrlf_append: "findCrlf s = Some i \<Longrightarrow> findCrlf (s @ t) = Some i"
  by (induction s arbitrary: i rule: findCrlf.induct) (auto split: if_splits)

lemma findCrlf_line [parse_simps]: "CR \<notin> set l \<Longrightarrow> findCrlf (l @ CR # LF # r) = Some (length l)"
proof (induction l)
  case Nil
  then show ?case by simp
next
  case (Cons a l)
  then have "findCrlf (l @ CR # LF # r) = Some (length l)" by simp
  then show ?case using Cons.prems by (cases l) auto
qed

lemma drop_line: "drop (length l + 2) (l @ CR # LF # r) = r"
  by simp

lemma findCrlf_start [parse_simps]: "findCrlf (CR # LF # r) = Some 0"
  by simp

lemma take_findCrlf_append: "findCrlf s = Some i \<Longrightarrow> take i (s @ t) = take i s"
  using findCrlf_bound by fastforce

text \<open>Splitting one header line (without its CRLF) at the colon and trimming leading blanks.\<close>

definition line_key :: "string \<Rightarrow> string" where
  "line_key line = take (find_char (CHR '':'') line) line"

definition line_value :: "string \<Rightarrow> string" where
  "line_value line = dropWhile (\<lambda>c. c = SP) (drop (Suc (find_char (CHR '':'') line)) line)"

text \<open>Header fields that survive a trip over the wire.\<close>

definition field_ok :: "string \<Rightarrow> string \<Rightarrow> bool" where
  "field_ok k v = (CHR '':'' \<notin> set k \<and> CR \<notin> set k \<and> CR \<notin> set v \<and> (v = [] \<or> hd v \<noteq> SP))"

lemma line_key_header [parse_simps]: "field_ok k v \<Longrightarrow> line_key (k @ CHR '':'' # SP # v) = k"
  by (simp add: line_key_def field_ok_def)

lemma line_value_header [parse_simps]: "field_ok k v \<Longrightarrow> line_value (k @ CHR '':'' # SP # v) = v"
  by (cases v) (auto simp: line_value_def field_ok_def)

text \<open>The header block as the serialisers write it.\<close>

lemma length_header_line: "length (header_line k v) = length k + length v + 4"
  by (simp add: header_line_def)

definition header_lines :: "(string \<times> string) list \<Rightarrow> string" where
  "header_lines kvs = concat (map (\<lambda>(k, v). header_line k v) kvs)"

lemma header_lines_simps [simp]:
  "header_lines [] = []" "header_lines ((k, v) # kvs) = header_line k v @ header_lines kvs"
  "header_lines (xs @ ys) = header_lines xs @ header_lines ys"
  by (simp_all add: header_lines_def)

lemma concat_header_lines:
  "concat (map (\<lambda>(key, value). if P key then [] else header_line key value) kvs) =
     header_lines (filter (\<lambda>(k, v). \<not> P k) kvs)"
  by (induction kvs) auto

section \<open>The chunk encoding\<close>

fun to_hex :: "nat \<Rightarrow> string" where
  "to_hex n = (if n < 16 then [kHex ! n] else to_hex (n div 16) @ [kHex ! (n mod 16)])"

declare to_hex.simps [simp del]

definition encode_chunk :: "string \<Rightarrow> string" where
  "encode_chunk d = to_hex (length d) @ CRLF @ d @ CRLF"

text \<open>A chunked body: the chunks, then the last chunk of size zero, then the empty trailer.\<close>

definition encode_chunks :: "string list \<Rightarrow> string" where
  "encode_chunks ds = concat (map encode_chunk ds)"

definition last_chunk :: string where
  "last_chunk = ''0'' @ CRLF"

definition trailer_end :: string where
  "trailer_end = CRLF"

lemma kHex_facts_table:
  "\<forall>d \<in> set [0..<16]. digit_value 16 (kHex ! d) = Some d \<and> \<not> is_space (kHex ! d) \<and> kHex ! d \<noteq> CHR ''-'' \<and>
     kHex ! d \<noteq> CHR ''+'' \<and> kHex ! d \<noteq> CR \<and> kHex ! d \<noteq> CHR ''x'' \<and> kHex ! d \<noteq> CHR ''X''"
  by (simp add: upt_rec kHex_def digit_value_def is_space_def)

lemma kHex_facts:
  assumes "d < 16"
  shows "digit_value 16 (kHex ! d) = Some d" and "\<not> is_space (kHex ! d)" and "kHex ! d \<noteq> CHR ''-''"
    and "kHex ! d \<noteq> CHR ''+''" and "kHex ! d \<noteq> CR" and "kHex ! d \<noteq> CHR ''x''" and "kHex ! d \<noteq> CHR ''X''"
  using kHex_facts_table assms unfolding less_16_iff by blast+

lemma to_hex_digits: "c \<in> set (to_hex n) \<Longrightarrow> \<exists>d < 16. c = kHex ! d"
proof (induction n rule: to_hex.induct)
  case (1 n)
  show ?case
  proof (cases "n < 16")
    case True
    then show ?thesis using "1.prems" by (subst (asm) to_hex.simps) auto
  next
    case False
    then have "c \<in> set (to_hex (n div 16)) \<or> c = kHex ! (n mod 16)"
      using "1.prems" by (subst (asm) to_hex.simps) auto
    then show ?thesis using "1.IH" False by (metis mod_less_divisor zero_less_numeral)
  qed
qed

lemma read_digits_to_hex: "read_digits 16 0 (to_hex n) = n"
proof (induction n rule: to_hex.induct)
  case (1 n)
  show ?case
  proof (cases "n < 16")
    case True
    then show ?thesis by (subst to_hex.simps) (simp add: kHex_facts)
  next
    case False
    have d: "\<forall>c \<in> set (to_hex (n div 16)). digit_value 16 c \<noteq> None"
      using to_hex_digits kHex_facts(1) by fastforce
    show ?thesis
      using False "1.IH"
      by (subst to_hex.simps) (simp add: read_digits_digit_snoc [OF d] kHex_facts)
  qed
qed

lemma to_hex_nonempty [simp]: "to_hex n \<noteq> []"
  by (subst to_hex.simps) simp

lemma to_hex_no_CR [simp]: "CR \<notin> set (to_hex n)"
  using to_hex_digits kHex_facts(5) by fastforce

lemma strip_hex_prefix_to_hex: "strip_hex_prefix 16 (to_hex n) = to_hex n"
proof -
  have "CHR ''x'' \<notin> set (to_hex n)" "CHR ''X'' \<notin> set (to_hex n)"
    using to_hex_digits kHex_facts(6,7) by fastforce+
  then show ?thesis
    by (auto simp: strip_hex_prefix_def split: list.splits)
qed

lemma strtoul_to_hex [parse_simps]: "n < 2 ^ 64 \<Longrightarrow> strtoul (to_hex n) 16 = n"
proof -
  assume n: "n < 2 ^ 64"
  obtain c cs where cs: "to_hex n = c # cs"
    using to_hex_nonempty by (meson neq_Nil_conv)
  have c: "\<not> is_space c" "c \<noteq> CHR ''-''" "c \<noteq> CHR ''+''"
    using to_hex_digits [of c n] kHex_facts cs by auto
  show ?thesis
    using c n read_digits_to_hex [of n] strip_hex_prefix_to_hex [of n]
    by (simp add: strtoul_def cs ULONG_MAX_def Let_def)
qed

section \<open>Incremental parsers\<close>

text \<open>
  How one round of the loop ends: with \<^verbatim>\<open>progress = true\<close>, with \<^verbatim>\<open>progress = false\<close>, or with
  \<^verbatim>\<open>return false\<close>. A round also says how many bytes it retrieves, if it calls \<^verbatim>\<open>retrieve\<close>.
\<close>

datatype loop_ctl = Continue | Stop | Fail

fun skip :: "nat option \<Rightarrow> string \<Rightarrow> string" where
  "skip None s = s"
| "skip (Some n) s = drop n s"

definition outcome :: "('c \<Rightarrow> 'e option) \<Rightarrow> 'c \<times> string \<Rightarrow> 'e + 'c \<times> string" where
  "outcome failure p = (case failure (fst p) of Some e \<Rightarrow> Inl e | None \<Rightarrow> Inr p)"

locale stream_parser =
  fixes step :: "'c \<Rightarrow> string \<Rightarrow> loop_ctl \<times> nat option \<times> 'c"
    and run :: "'c \<Rightarrow> string \<Rightarrow> 'c \<times> string"
    and inv :: "'c \<Rightarrow> bool"
    and failure :: "'c \<Rightarrow> 'e option"
  assumes run_eq:
      "run c s = (case step c s of
                    (Continue, n, c') \<Rightarrow> run c' (skip n s)
                  | (Stop, n, c') \<Rightarrow> (c', skip n s)
                  | (Fail, n, c') \<Rightarrow> (c', skip n s))"
    and step_continue:
      "inv c \<Longrightarrow> step c s = (Continue, n, c') \<Longrightarrow> \<exists>k. n = Some k \<and> 0 < k \<and> k \<le> length s \<and> inv c'"
    and step_stop: "inv c \<Longrightarrow> step c s = (Stop, n, c') \<Longrightarrow> n = None \<and> c' = c"
    and step_fail:
      "inv c \<Longrightarrow> step c s = (Fail, n, c') \<Longrightarrow>
       failure c' \<noteq> None \<and> inv c' \<and> (\<forall>k. n = Some k \<longrightarrow> k \<le> length s)"
    and failed_stuck: "failure c \<noteq> None \<Longrightarrow> step c s = (Stop, None, c)"
    and fail_stable:
      "inv c \<Longrightarrow> step c s = (Fail, n, c') \<Longrightarrow>
       \<exists>n2 c2. step c (s @ t) = (Fail, n2, c2) \<and> failure c2 = failure c'"
    and extend:
      "inv c \<Longrightarrow> step c s = (Continue, Some k, c') \<Longrightarrow> t \<noteq> [] \<Longrightarrow>
       step c (s @ t) = (Continue, Some k, c') \<or>
       k = length s \<and>
       ((\<exists>m c2. step c (s @ t) = (Continue, Some (k + m), c2) \<and> step c' t = (Continue, Some m, c2)) \<or>
        (\<exists>n1 n2 c1 c2. step c (s @ t) = (Fail, n1, c1) \<and> step c' t = (Fail, n2, c2) \<and>
                 failure c1 = failure c2))"
begin

lemma run_failed: "failure c \<noteq> None \<Longrightarrow> run c s = (c, s)"
  by (subst run_eq) (simp add: failed_stuck)

lemma run_cases [consumes 1, case_names Continue Stop Fail]:
  assumes "inv c"
  obtains k c' where "step c s = (Continue, Some k, c')" "0 < k" "k \<le> length s" "inv c'"
      "run c s = run c' (drop k s)"
    | "step c s = (Stop, None, c)" "run c s = (c, s)"
    | n c' where "step c s = (Fail, n, c')" "failure c' \<noteq> None" "inv c'" "run c s = (c', skip n s)"
        "\<forall>k. n = Some k \<longrightarrow> k \<le> length s"
proof -
  obtain ctl n c' where st: "step c s = (ctl, n, c')" by (cases "step c s") auto
  show ?thesis
  proof (cases ctl)
    case Continue
    then obtain k where "n = Some k" "0 < k" "k \<le> length s" "inv c'"
      using step_continue [OF assms] st by blast
    then show ?thesis using that(1) Continue st run_eq [of c s] by simp
  next
    case Stop
    then show ?thesis using that(2) st step_stop [OF assms, of s n c'] run_eq [of c s] by simp
  next
    case Fail
    then show ?thesis using that(3) st step_fail [OF assms, of s n c'] run_eq [of c s] by simp
  qed
qed

lemma run_inv: "inv c \<Longrightarrow> inv (fst (run c s))"
proof (induction s arbitrary: c rule: length_induct)
  case (1 s)
  from "1.prems" show ?case
    by (cases rule: run_cases [where s = s]) (use "1" in auto)
qed

text \<open>What is left over after a run stops the next run at once.\<close>

lemma run_quiescent: "inv c \<Longrightarrow> run c s = (c1, r) \<Longrightarrow> run c1 r = (c1, r)"
proof (induction "length s" arbitrary: c s rule: less_induct)
  case less
  from less.prems(1) show ?case
  proof (cases rule: run_cases [where s = s])
    case (Continue k c')
    then show ?thesis using less.hyps [of "drop k s" c'] less.prems by simp
  qed (use less.prems run_failed in auto)
qed

lemma run_remainder: "inv c \<Longrightarrow> run c s = (c1, r) \<Longrightarrow> \<exists>n. r = drop n s"
proof (induction "length s" arbitrary: c s rule: less_induct)
  case less
  from less.prems(1) show ?case
  proof (cases rule: run_cases [where s = s])
    case (Continue k c')
    then have "\<exists>n. r = drop n (drop k s)"
      using less.hyps [of "drop k s" c'] less.prems by simp
    then show ?thesis by (metis drop_drop)
  next
    case Stop
    then show ?thesis using less.prems by (auto intro: exI [of _ 0])
  next
    case (Fail n c')
    then show ?thesis using less.prems by (cases n) (auto intro: exI [of _ 0])
  qed
qed

text \<open>A round that continues may be replaced by what it leads to, also when more input follows.\<close>

lemma run_extend:
  assumes "inv c" "step c s = (Continue, Some k, c')" "k \<le> length s" "t \<noteq> []"
  shows "outcome failure (run c (s @ t)) = outcome failure (run c' (drop k s @ t))"
  using extend [OF assms(1,2,4)]
proof (elim disjE conjE exE)
  assume "step c (s @ t) = (Continue, Some k, c')"
  then have "run c (s @ t) = run c' (drop k s @ t)"
    using assms(3) by (subst run_eq) simp
  then show ?thesis by simp
next
  fix m c2
  assume *: "k = length s" "step c (s @ t) = (Continue, Some (k + m), c2)"
    "step c' t = (Continue, Some m, c2)"
  have "run c (s @ t) = run c2 (drop m t)" using * by (subst run_eq) simp
  moreover have "run c' t = run c2 (drop m t)" using * by (subst run_eq) simp
  ultimately show ?thesis using * by simp
next
  fix n1 n2 c1 c2
  assume *: "k = length s" "step c (s @ t) = (Fail, n1, c1)" "step c' t = (Fail, n2, c2)"
    "failure c1 = failure c2"
  have "run c (s @ t) = (c1, skip n1 (s @ t))" using * by (subst run_eq) simp
  moreover have "run c' t = (c2, skip n2 t)" using * by (subst run_eq) simp
  moreover have "failure c1 \<noteq> None" using step_fail [OF assms(1) *(2)] by simp
  ultimately show ?thesis using * by (auto simp: outcome_def)
qed

text \<open>Running on a prefix first and then on the rest has the outcome of one run on everything.\<close>

lemma run_split:
  "inv c \<Longrightarrow> run c s = (c1, r) \<Longrightarrow> outcome failure (run c1 (r @ t)) = outcome failure (run c (s @ t))"
proof (induction "length s" arbitrary: c s rule: less_induct)
  case less
  show ?case
  proof (cases "t = []")
    case True
    then show ?thesis using run_quiescent less.prems by simp
  next
    case t: False
    from less.prems(1) show ?thesis
    proof (cases rule: run_cases [where s = s])
      case (Continue k c')
      have "outcome failure (run c1 (r @ t)) = outcome failure (run c' (drop k s @ t))"
        using less.hyps [of "drop k s" c'] less.prems Continue by simp
      then show ?thesis using run_extend [OF less.prems(1) Continue(1,3) t] by simp
    next
      case Stop
      then show ?thesis using less.prems by simp
    next
      case (Fail n c')
      then obtain n2 c2 where c2: "step c (s @ t) = (Fail, n2, c2)" "failure c2 = failure c'"
        using fail_stable [OF less.prems(1)] by blast
      have "run c (s @ t) = (c2, skip n2 (s @ t))" using c2 by (subst run_eq) simp
      then show ?thesis
        using Fail less.prems c2 run_failed [of c'] by (auto simp: outcome_def)
    qed
  qed
qed

end

lemma retrieve_shrinks:
  assumes "0 < k" "k \<le> length (readable b)" "retrieve k b = Some b'"
  shows "readableBytes b' < readableBytes b"
proof -
  have "k \<le> readableBytes b" using assms(2) by (simp add: readable_def)
  then show ?thesis
    using assms(1,3) by (auto simp: retrieve_def retrieveAll_def readableBytes_def split: if_splits)
qed

text \<open>The same loop over a byte queue, where every \<^verbatim>\<open>retrieve\<close> may fail its assertion.\<close>

fun consume_opt :: "(nat \<Rightarrow> 'b \<Rightarrow> 'b option) \<Rightarrow> nat option \<Rightarrow> 'b \<Rightarrow> 'b option" where
  "consume_opt consume None b = Some b"
| "consume_opt consume (Some n) b = consume n b"

text \<open>Segments arriving one after the other: each is appended, then the parser runs.\<close>

fun feed_with ::
  "(string \<Rightarrow> 'b \<Rightarrow> 'b option) \<Rightarrow> ('c \<Rightarrow> 'b \<Rightarrow> (bool \<times> 'c \<times> 'b) option) \<Rightarrow>
   string list \<Rightarrow> 'c \<Rightarrow> 'b \<Rightarrow> ('c \<times> 'b) option" where
  "feed_with enqueue parse [] c b = Some (c, b)"
| "feed_with enqueue parse (seg # segs) c b = do {
     b1 \<leftarrow> enqueue seg b;
     (ok, c', b') \<leftarrow> parse c b1;
     feed_with enqueue parse segs c' b'
   }"

locale buffered_parser =
  stream_parser step run inv failure + byte_queue contents enqueue consume wf
  for step :: "'c \<Rightarrow> string \<Rightarrow> loop_ctl \<times> nat option \<times> 'c"
    and run :: "'c \<Rightarrow> string \<Rightarrow> 'c \<times> string"
    and inv :: "'c \<Rightarrow> bool"
    and failure :: "'c \<Rightarrow> 'e option"
    and contents :: "'b \<Rightarrow> string"
    and enqueue :: "string \<Rightarrow> 'b \<Rightarrow> 'b option"
    and consume :: "nat \<Rightarrow> 'b \<Rightarrow> 'b option"
    and wf :: "'b \<Rightarrow> bool" +
  fixes parse :: "'c \<Rightarrow> 'b \<Rightarrow> (bool \<times> 'c \<times> 'b) option"
  assumes parse_eq:
    "parse c b = (case step c (contents b) of
                    (Continue, n, c') \<Rightarrow> Option.bind (consume_opt consume n b) (parse c')
                  | (Stop, n, c') \<Rightarrow>
                      map_option (\<lambda>b'. (failure c' = None, c', b')) (consume_opt consume n b)
                  | (Fail, n, c') \<Rightarrow> map_option (\<lambda>b'. (False, c', b')) (consume_opt consume n b))"
begin

text \<open>On a well-formed queue the loop runs the string parser, and no assertion fails.\<close>

lemma parse_refines:
  "inv c \<Longrightarrow> wf b \<Longrightarrow> run c (contents b) = (c1, r) \<Longrightarrow>
   \<exists>b'. parse c b = Some (failure c1 = None, c1, b') \<and> wf b' \<and> contents b' = r"
proof (induction "length (contents b)" arbitrary: c b rule: less_induct)
  case less
  from less.prems(1) show ?case
  proof (cases rule: run_cases [where s = "contents b"])
    case (Continue k c')
    then obtain b2 where b2: "consume k b = Some b2" "wf b2" "contents b2 = drop k (contents b)"
      using consume_contents [OF less.prems(2)] by blast
    have "\<exists>b'. parse c' b2 = Some (failure c1 = None, c1, b') \<and> wf b' \<and> contents b' = r"
      using less.hyps [of b2 c'] Continue b2 less.prems by simp
    then show ?thesis using parse_eq [of c b] Continue b2 by simp
  next
    case Stop
    then show ?thesis using parse_eq [of c b] less.prems by simp
  next
    case (Fail n c')
    show ?thesis
    proof (cases n)
      case None
      then show ?thesis using parse_eq [of c b] Fail less.prems by simp
    next
      case (Some k)
      then obtain b2 where "consume k b = Some b2" "wf b2" "contents b2 = drop k (contents b)"
        using consume_contents [OF less.prems(2), of k] Fail by blast
      then show ?thesis using parse_eq [of c b] Some Fail less.prems by simp
    qed
  qed
qed

text \<open>The outcome of feeding segments is the outcome of one run over all the bytes.\<close>

lemma feed_outcome:
  "inv c \<Longrightarrow> wf b \<Longrightarrow> run c (contents b) = (c, contents b) \<Longrightarrow>
   \<exists>c1 b1. feed_with enqueue parse segs c b = Some (c1, b1) \<and> wf b1 \<and> inv c1 \<and>
     outcome failure (c1, contents b1) = outcome failure (run c (contents b @ concat segs))"
proof (induction segs arbitrary: c b)
  case Nil
  then show ?case by simp
next
  case (Cons seg segs)
  obtain b1 where b1: "enqueue seg b = Some b1" "wf b1" "contents b1 = contents b @ seg"
    using enqueue_contents [OF Cons.prems(2)] by blast
  obtain c' r where r: "run c (contents b @ seg) = (c', r)" by fastforce
  then obtain b' where b': "parse c b1 = Some (failure c' = None, c', b')" "wf b'" "contents b' = r"
    using parse_refines [OF Cons.prems(1) b1(2)] b1(3) by auto
  have c': "inv c'" using run_inv [OF Cons.prems(1), of "contents b @ seg"] r by simp
  have q: "run c' r = (c', r)" using run_quiescent [OF Cons.prems(1) r] .
  obtain c1 b2 where "feed_with enqueue parse segs c' b' = Some (c1, b2)" "wf b2" "inv c1"
      "outcome failure (c1, contents b2) = outcome failure (run c' (r @ concat segs))"
    using Cons.IH [OF c' b'(2), unfolded b'(3), OF q] by blast
  then show ?case
    using b1 b' run_split [OF Cons.prems(1) r, of "concat segs"] by simp
qed

end

end
