(* ===== verification/Http_Context.thy ===== *)
theory Http_Context
  imports Http_Wire
begin

text \<open>
  The incremental request parser, \<^verbatim>\<open>http/http_context.h\<close> and \<^verbatim>\<open>http/http_context.cc\<close>: the state of one
  connection's parse, one definition per branch of the loop in \<^verbatim>\<open>parseRequest\<close>, the loop over a
  buffer, and the same loop over a string that it refines. The theory shows that parsing does not
  depend on how the input is cut into segments, that a serialised request is parsed back, that
  chunked bodies are decoded, and that the body limit holds.
\<close>

section \<open>State\<close>

datatype State =
    kExpectRequestLine | kExpectHeaders | kExpectBody | kExpectChunkSize | kExpectChunkData
  | kExpectChunkCrlf | kGotAll | kError

datatype Error = kNone | kBadRequest | kTooLarge

record HttpContext =
  ctx_state :: State
  ctx_error :: Error
  ctx_request :: HttpRequest
  content_length :: nat
  body_received :: nat
  header_bytes :: nat
  chunk_remaining :: nat
  max_body_bytes :: nat

definition HttpContext_new :: HttpContext where
  "HttpContext_new =
     \<lparr>ctx_state = kExpectRequestLine, ctx_error = kNone, ctx_request = HttpRequest_new,
      content_length = 0, body_received = 0, header_bytes = 0, chunk_remaining = 0,
      max_body_bytes = 0\<rparr>"

definition kMaxHeaderBytes :: nat where
  "kMaxHeaderBytes = 64 * 1024"

definition kDefaultMaxBodyBytes :: nat where
  "kDefaultMaxBodyBytes = 8 * 1024 * 1024"

definition gotAll :: "HttpContext \<Rightarrow> bool" where
  "gotAll c = (ctx_state c = kGotAll)"

definition hasError :: "HttpContext \<Rightarrow> bool" where
  "hasError c = (ctx_state c = kError)"

definition setMaxBodyBytes :: "nat \<Rightarrow> HttpContext \<Rightarrow> HttpContext" where
  "setMaxBodyBytes bytes c = c\<lparr>max_body_bytes := bytes\<rparr>"

definition HttpContext_reset :: "HttpContext \<Rightarrow> HttpContext" where
  "HttpContext_reset c =
     c\<lparr>ctx_state := kExpectRequestLine, ctx_error := kNone,
       ctx_request := HttpRequest_reset (ctx_request c),
       content_length := 0, body_received := 0, header_bytes := 0, chunk_remaining := 0\<rparr>"

section \<open>The request line\<close>

text \<open>
  The setters run before later checks fail, so the request comes back changed on failure too.
\<close>

definition parseRequestLine :: "string \<Rightarrow> HttpRequest \<Rightarrow> bool \<times> HttpRequest" where
  "parseRequestLine line r =
     (let space1 = find_char SP line in
      if space1 = length line then (False, r)
      else let m = methodFromString (take space1 line) in
      if m = kInvalid then (False, r)
      else let r1 = r\<lparr>req_method := m\<rparr>;
               target = drop (space1 + 1) line;
               space2 = find_char SP target in
      if space2 = length target then (False, r1)
      else let uri = take space2 target;
               q = find_char (CHR ''?'') uri;
               r2 = r1\<lparr>req_path := take q uri\<rparr>;
               r3 = (if q \<noteq> length uri then setQuery (drop (q + 1) uri) r2 else r2);
               version = drop (space2 + 1) target in
      if version \<noteq> ''HTTP/1.0'' \<and> version \<noteq> ''HTTP/1.1'' then (False, r3)
      else (True, r3\<lparr>req_version := version\<rparr>))"

section \<open>One round of the loop\<close>

definition step_request_line :: "HttpContext \<Rightarrow> string \<Rightarrow> loop_ctl \<times> nat option \<times> HttpContext" where
  "step_request_line c s =
     (case findCrlf s of
        None \<Rightarrow> (Stop, None, c)
      | Some crlf \<Rightarrow>
          (let (ok, r) = parseRequestLine (take crlf s) (ctx_request c) in
           if \<not> ok then (Fail, None, c\<lparr>ctx_request := r, ctx_state := kError\<rparr>)
           else (Continue, Some (crlf + 2),
                 c\<lparr>ctx_request := r, header_bytes := header_bytes c + (crlf + 2),
                   ctx_state := kExpectHeaders\<rparr>)))"

text \<open>The blank line: decide the body framing. \<^verbatim>\<open>retrieve(2)\<close> has already run.\<close>

definition end_of_headers :: "HttpContext \<Rightarrow> loop_ctl \<times> nat option \<times> HttpContext" where
  "end_of_headers c =
     (let te = toLower (header (ctx_request c) ''transfer-encoding'') in
      if str_contains ''chunked'' te then (Continue, Some 2, c\<lparr>ctx_state := kExpectChunkSize\<rparr>)
      else
        (let cl = header (ctx_request c) ''content-length'';
             c1 = c\<lparr>content_length := (if cl = [] then 0 else strtoul cl 10), body_received := 0\<rparr> in
         if max_body_bytes c1 > 0 \<and> content_length c1 > max_body_bytes c1
         then (Fail, Some 2, c1\<lparr>ctx_error := kTooLarge, ctx_state := kError\<rparr>)
         else (Continue, Some 2,
               c1\<lparr>ctx_state := (if content_length c1 > 0 then kExpectBody else kGotAll)\<rparr>)))"

definition step_headers :: "HttpContext \<Rightarrow> string \<Rightarrow> loop_ctl \<times> nat option \<times> HttpContext" where
  "step_headers c s =
     (case findCrlf s of
        None \<Rightarrow> (Stop, None, c)
      | Some crlf \<Rightarrow>
          if crlf = 0 then end_of_headers c
          else
            (let line = take crlf s; colon = find_char (CHR '':'') line in
             if colon = length line then (Fail, None, c\<lparr>ctx_state := kError\<rparr>)
             else
               (let c1 = c\<lparr>ctx_request := addHeader (line_key line) (line_value line) (ctx_request c),
                           header_bytes := header_bytes c + (crlf + 2)\<rparr> in
                if header_bytes c1 > kMaxHeaderBytes then (Fail, None, c1\<lparr>ctx_state := kError\<rparr>)
                else (Continue, Some (crlf + 2), c1))))"

definition step_body :: "HttpContext \<Rightarrow> string \<Rightarrow> loop_ctl \<times> nat option \<times> HttpContext" where
  "step_body c s =
     (let avail = length s;
          need = content_length c - body_received c;
          tk = min avail need;
          c1 = (if tk > 0
                then c\<lparr>ctx_request := appendBody (take tk s) (ctx_request c),
                       body_received := body_received c + tk\<rparr>
                else c);
          c2 = (if body_received c1 = content_length c1 then c1\<lparr>ctx_state := kGotAll\<rparr> else c1)
      in if tk > 0 then (Continue, Some tk, c2) else (Stop, None, c2))"

definition step_chunk_size :: "HttpContext \<Rightarrow> string \<Rightarrow> loop_ctl \<times> nat option \<times> HttpContext" where
  "step_chunk_size c s =
     (case findCrlf s of
        None \<Rightarrow> (Stop, None, c)
      | Some crlf \<Rightarrow>
          (let line = take crlf s; n = strtoul line 16 in
           (Continue, Some (crlf + 2),
            c\<lparr>chunk_remaining := n, ctx_state := (if n = 0 then kGotAll else kExpectChunkData)\<rparr>)))"

definition step_chunk_data :: "HttpContext \<Rightarrow> string \<Rightarrow> loop_ctl \<times> nat option \<times> HttpContext" where
  "step_chunk_data c s =
     (let avail = length s;
          tk = min avail (chunk_remaining c) in
      if tk > 0 \<and> max_body_bytes c > 0 \<and> body_received c + tk > max_body_bytes c
      then (Fail, None, c\<lparr>ctx_error := kTooLarge, ctx_state := kError\<rparr>)
      else
        (let c1 = (if tk > 0
                   then c\<lparr>ctx_request := appendBody (take tk s) (ctx_request c),
                          chunk_remaining := chunk_remaining c - tk,
                          body_received := body_received c + tk\<rparr>
                   else c);
             c2 = (if chunk_remaining c1 = 0 then c1\<lparr>ctx_state := kExpectChunkCrlf\<rparr> else c1)
         in if tk > 0 then (Continue, Some tk, c2) else (Stop, None, c2)))"

definition step_chunk_crlf :: "HttpContext \<Rightarrow> string \<Rightarrow> loop_ctl \<times> nat option \<times> HttpContext" where
  "step_chunk_crlf c s =
     (if length s \<ge> 2 then (Continue, Some 2, c\<lparr>ctx_state := kExpectChunkSize\<rparr>)
      else (Stop, None, c))"

definition context_step :: "HttpContext \<Rightarrow> string \<Rightarrow> loop_ctl \<times> nat option \<times> HttpContext" where
  "context_step c s =
     (case ctx_state c of
        kExpectRequestLine \<Rightarrow> step_request_line c s
      | kExpectHeaders \<Rightarrow> step_headers c s
      | kExpectBody \<Rightarrow> step_body c s
      | kExpectChunkSize \<Rightarrow> step_chunk_size c s
      | kExpectChunkData \<Rightarrow> step_chunk_data c s
      | kExpectChunkCrlf \<Rightarrow> step_chunk_crlf c s
      | kGotAll \<Rightarrow> (Stop, None, c)
      | kError \<Rightarrow> (Stop, None, c))"

lemmas step_defs = context_step_def step_request_line_def step_headers_def end_of_headers_def
  step_body_def step_chunk_size_def step_chunk_data_def step_chunk_crlf_def

section \<open>The loop\<close>

lemma context_step_consumes:
  "context_step c s = (Continue, n, c') \<Longrightarrow> \<exists>k. n = Some k \<and> 0 < k \<and> k \<le> length s"
  by (auto simp: step_defs Let_def dest: findCrlf_pos
      split: State.splits option.splits if_splits prod.splits)

text \<open>
  \<^verbatim>\<open>parseRequest(buf)\<close>: its return value, the context and the buffer; \<open>None\<close> when the assertion in
  \<^verbatim>\<open>retrieve\<close> fails. Every continuing round retrieves at least one byte, so the loop ends.
\<close>

function parseRequest :: "HttpContext \<Rightarrow> buffer \<Rightarrow> (bool \<times> HttpContext \<times> buffer) option" where
  "parseRequest c b =
     (case context_step c (readable b) of
        (Continue, n, c') \<Rightarrow>
          (case consume_opt retrieve n b of None \<Rightarrow> None | Some b' \<Rightarrow> parseRequest c' b')
      | (Stop, n, c') \<Rightarrow>
          map_option (\<lambda>b'. (ctx_state c' \<noteq> kError, c', b')) (consume_opt retrieve n b)
      | (Fail, n, c') \<Rightarrow> map_option (\<lambda>b'. (False, c', b')) (consume_opt retrieve n b))"
  by pat_completeness auto
termination
proof (relation "measure (\<lambda>(c, b). readableBytes b)", goal_cases)
  case 1
  then show ?case by simp
next
  case (2 c b ctl p n c' b')
  then have "context_step c (readable b) = (Continue, n, c')" by simp
  then obtain k where "n = Some k" "0 < k" "k \<le> length (readable b)"
    using context_step_consumes by blast
  then show ?case using 2 retrieve_shrinks [of k b b'] by simp
qed

declare parseRequest.simps [simp del]

text \<open>The same loop on the bytes alone.\<close>

function context_run :: "HttpContext \<Rightarrow> string \<Rightarrow> HttpContext \<times> string" where
  "context_run c s =
     (case context_step c s of
        (Continue, n, c') \<Rightarrow> context_run c' (skip n s)
      | (Stop, n, c') \<Rightarrow> (c', skip n s)
      | (Fail, n, c') \<Rightarrow> (c', skip n s))"
  by pat_completeness auto
termination
proof (relation "measure (\<lambda>(c, s). length s)", goal_cases)
  case 1
  then show ?case by simp
next
  case (2 c s ctl p n c')
  then have "context_step c s = (Continue, n, c')" by simp
  then obtain k where "n = Some k" "0 < k" "k \<le> length s"
    using context_step_consumes by blast
  then show ?case by simp
qed

declare context_run.simps [simp del]

section \<open>The invariant of the parse state\<close>

definition context_failure :: "HttpContext \<Rightarrow> Error option" where
  "context_failure c = (if ctx_state c = kError then Some (ctx_error c) else None)"

definition context_ok :: "HttpContext \<Rightarrow> bool" where
  "context_ok c =
     (request_ok (ctx_request c) \<and>
      ctx_error c \<noteq> kBadRequest \<and>
      body_received c = length (req_body (ctx_request c)) \<and>
      (max_body_bytes c > 0 \<longrightarrow> body_received c \<le> max_body_bytes c) \<and>
      (ctx_state c = kExpectRequestLine \<or> ctx_state c = kExpectHeaders \<longrightarrow> body_received c = 0) \<and>
      (ctx_state c = kExpectBody \<longrightarrow> body_received c < content_length c \<and>
         (max_body_bytes c > 0 \<longrightarrow> content_length c \<le> max_body_bytes c)) \<and>
      (ctx_state c = kExpectChunkData \<longrightarrow> 0 < chunk_remaining c))"

lemma context_ok_new [simp]: "context_ok HttpContext_new"
  by (simp add: context_ok_def HttpContext_new_def) (simp add: HttpRequest_new_def)

lemma context_ok_setMax [simp]: "context_ok (setMaxBodyBytes n HttpContext_new)"
  by (simp add: context_ok_def HttpContext_new_def setMaxBodyBytes_def) (simp add: HttpRequest_new_def)

lemma context_ok_reset [simp]: "context_ok (HttpContext_reset c)"
  by (simp add: context_ok_def HttpContext_reset_def) (simp add: HttpRequest_new_def)

lemma parseRequestLine_frame:
  "req_body (snd (parseRequestLine l r)) = req_body r"
  "request_ok r \<Longrightarrow> request_ok (snd (parseRequestLine l r))"
  by (simp_all add: parseRequestLine_def Let_def request_ok_setQuery)

lemma step_request_line_ok:
  "context_ok c \<Longrightarrow> ctx_state c = kExpectRequestLine \<Longrightarrow> step_request_line c s = (ctl, n, c') \<Longrightarrow> context_ok c'"
  using parseRequestLine_frame [where r = "ctx_request c"]
  by (auto simp: step_request_line_def context_ok_def case_prod_beta split: option.splits if_splits)

lemma end_of_headers_ok:
  "context_ok c \<Longrightarrow> ctx_state c = kExpectHeaders \<Longrightarrow> end_of_headers c = (ctl, n, c') \<Longrightarrow> context_ok c'"
  by (auto simp: end_of_headers_def context_ok_def Let_def split: if_splits)

lemma req_body_addHeader [simp]: "req_body (addHeader k v r) = req_body r"
  by (simp add: addHeader_def)

lemma step_headers_ok:
  "context_ok c \<Longrightarrow> ctx_state c = kExpectHeaders \<Longrightarrow> step_headers c s = (ctl, n, c') \<Longrightarrow> context_ok c'"
  unfolding step_headers_def Let_def
  by (simp split: option.splits if_splits add: context_ok_def [of "_\<lparr>ctx_state := _\<rparr>"] end_of_headers_ok)
    (auto simp: context_ok_def request_ok_addHeader)

lemma appendBody_facts [simp]:
  "req_body (appendBody d r) = req_body r @ d" "request_ok (appendBody d r) = request_ok r"
  "req_headers (appendBody d r) = req_headers r"
  by (simp_all add: appendBody_def request_ok_def)

lemma step_body_ok:
  "context_ok c \<Longrightarrow> ctx_state c = kExpectBody \<Longrightarrow> step_body c s = (ctl, n, c') \<Longrightarrow> context_ok c'"
  by (auto simp: step_body_def context_ok_def Let_def split: if_splits)

lemma step_chunk_size_ok:
  "context_ok c \<Longrightarrow> ctx_state c = kExpectChunkSize \<Longrightarrow> step_chunk_size c s = (ctl, n, c') \<Longrightarrow> context_ok c'"
  by (auto simp: step_chunk_size_def context_ok_def Let_def split: option.splits if_splits)

lemma step_chunk_data_ok:
  "context_ok c \<Longrightarrow> ctx_state c = kExpectChunkData \<Longrightarrow> step_chunk_data c s = (ctl, n, c') \<Longrightarrow> context_ok c'"
  by (auto simp: step_chunk_data_def context_ok_def Let_def split: if_splits)

lemma step_chunk_crlf_ok:
  "context_ok c \<Longrightarrow> ctx_state c = kExpectChunkCrlf \<Longrightarrow> step_chunk_crlf c s = (ctl, n, c') \<Longrightarrow> context_ok c'"
  by (auto simp: step_chunk_crlf_def context_ok_def split: if_splits)

lemma context_step_ok: "context_ok c \<Longrightarrow> context_step c s = (ctl, n, c') \<Longrightarrow> context_ok c'"
  by (cases "ctx_state c")
    (auto simp: context_step_def intro: step_request_line_ok step_headers_ok step_body_ok
      step_chunk_size_ok step_chunk_data_ok step_chunk_crlf_ok)

section \<open>The parser as an instance of the incremental interface\<close>

text \<open>A round that finds a line end, or all the bytes it waits for, ignores what follows.\<close>

lemma context_step_line_extend:
  assumes "ctx_state c \<in> {kExpectRequestLine, kExpectHeaders, kExpectChunkSize}" "findCrlf s = Some i"
  shows "context_step c (s @ t) = context_step c s"
  using assms findCrlf_append [of s i t] take_findCrlf_append [of s i t]
  by (auto simp: context_step_def step_request_line_def step_headers_def step_chunk_size_def)

lemma context_step_body_extend:
  assumes ok: "context_ok c" and st: "ctx_state c = kExpectBody"
    and cont: "context_step c s = (Continue, Some k, c')" and t: "t \<noteq> []"
  shows "context_step c (s @ t) = (Continue, Some k, c') \<or>
     k = length s \<and> (\<exists>m c2. context_step c (s @ t) = (Continue, Some (k + m), c2) \<and>
                            context_step c' t = (Continue, Some m, c2))"
proof (cases "content_length c - body_received c \<le> length s")
  case True
  have "s \<noteq> []" using context_step_consumes [OF cont] by auto
  then have "step_body c (s @ t) = step_body c s"
    using True by (simp add: step_body_def min_absorb2 Let_def)
  then show ?thesis using st cont by (simp add: context_step_def)
next
  case False
  then have k: "k = length s"
    and c': "c' = c\<lparr>ctx_request := appendBody s (ctx_request c), body_received := body_received c + length s\<rparr>"
    and s: "s \<noteq> []"
    using st cont by (auto simp: context_step_def step_body_def Let_def split: if_splits)
  define m where "m = min (length t) (content_length c - (body_received c + length s))"
  have tk: "min (length s + length t) (content_length c - body_received c) = length s + m"
    using False by (simp add: m_def)
  have m: "0 < m" using False t by (simp add: m_def)
  have need: "body_received c < content_length c" "body_received c + length s < content_length c"
    using False by simp_all
  let ?c2 = "let c1 = c\<lparr>ctx_request := appendBody (s @ take m t) (ctx_request c),
                 body_received := body_received c + (length s + m)\<rparr>
      in if body_received c1 = content_length c1 then c1\<lparr>ctx_state := kGotAll\<rparr> else c1"
  have "context_step c (s @ t) = (Continue, Some (k + m), ?c2)"
    using st m t need by (simp add: context_step_def step_body_def Let_def tk k)
  moreover have "context_step c' t = (Continue, Some m, ?c2)"
    using st m t need by (simp add: context_step_def step_body_def Let_def c' m_def [symmetric] add.assoc appendBody_def)
  ultimately show ?thesis using k by blast
qed

lemma context_step_chunk_extend:
  assumes ok: "context_ok c" and st: "ctx_state c = kExpectChunkData"
    and cont: "context_step c s = (Continue, Some k, c')" and t: "t \<noteq> []"
  shows "context_step c (s @ t) = (Continue, Some k, c') \<or>
     k = length s \<and>
     ((\<exists>m c2. context_step c (s @ t) = (Continue, Some (k + m), c2) \<and> context_step c' t = (Continue, Some m, c2)) \<or>
      (\<exists>n1 n2 c1 c2. context_step c (s @ t) = (Fail, n1, c1) \<and> context_step c' t = (Fail, n2, c2) \<and>
                     context_failure c1 = context_failure c2))"
proof (cases "chunk_remaining c \<le> length s")
  case True
  have "s \<noteq> []" using context_step_consumes [OF cont] by auto
  then have "step_chunk_data c (s @ t) = step_chunk_data c s"
    using True by (simp add: step_chunk_data_def min_absorb2 Let_def)
  then show ?thesis using st cont by (simp add: context_step_def)
next
  case False
  then have k: "k = length s"
    and c': "c' = c\<lparr>ctx_request := appendBody s (ctx_request c),
                   chunk_remaining := chunk_remaining c - length s,
                   body_received := body_received c + length s\<rparr>"
    and s: "s \<noteq> []"
    and cap: "\<not> (max_body_bytes c > 0 \<and> body_received c + length s > max_body_bytes c)"
    using st cont by (auto simp: context_step_def step_chunk_data_def Let_def split: if_splits)
  define m where "m = min (length t) (chunk_remaining c - length s)"
  have tk: "min (length s + length t) (chunk_remaining c) = length s + m"
    using False by (simp add: m_def)
  have m: "0 < m" using False t by (simp add: m_def)
  have rem: "length s < chunk_remaining c" "0 < chunk_remaining c" using False by simp_all
  show ?thesis
  proof (cases "max_body_bytes c > 0 \<and> body_received c + (length s + m) > max_body_bytes c")
    case True
    then have "\<exists>c1. context_step c (s @ t) = (Fail, None, c1) \<and> context_failure c1 = Some kTooLarge"
        "\<exists>c2. context_step c' t = (Fail, None, c2) \<and> context_failure c2 = Some kTooLarge"
      using st s t m rem by (simp_all add: context_step_def step_chunk_data_def Let_def tk c' m_def [symmetric]
          context_failure_def add.assoc)
    then show ?thesis using k by metis
  next
    case False
    let ?c2 = "let c1 = c\<lparr>ctx_request := appendBody (s @ take m t) (ctx_request c),
                   chunk_remaining := chunk_remaining c - (length s + m),
                   body_received := body_received c + (length s + m)\<rparr>
        in if chunk_remaining c1 = 0 then c1\<lparr>ctx_state := kExpectChunkCrlf\<rparr> else c1"
    have "context_step c (s @ t) = (Continue, Some (k + m), ?c2)"
      using False st m by (simp add: context_step_def step_chunk_data_def Let_def tk k)
    moreover have "context_step c' t = (Continue, Some m, ?c2)"
      using False st m by (simp add: context_step_def step_chunk_data_def Let_def c' m_def [symmetric]
          add.assoc appendBody_def)
    ultimately show ?thesis using k by blast
  qed
qed

lemma context_step_extend:
  assumes ok: "context_ok c" and cont: "context_step c s = (Continue, Some k, c')" and t: "t \<noteq> []"
  shows "context_step c (s @ t) = (Continue, Some k, c') \<or>
     k = length s \<and>
     ((\<exists>m c2. context_step c (s @ t) = (Continue, Some (k + m), c2) \<and> context_step c' t = (Continue, Some m, c2)) \<or>
      (\<exists>n1 n2 c1 c2. context_step c (s @ t) = (Fail, n1, c1) \<and> context_step c' t = (Fail, n2, c2) \<and>
                     context_failure c1 = context_failure c2))"
proof (cases "ctx_state c \<in> {kExpectRequestLine, kExpectHeaders, kExpectChunkSize}")
  case True
  then obtain i where "findCrlf s = Some i"
    using cont by (auto simp: context_step_def step_request_line_def step_headers_def step_chunk_size_def
        split: option.splits)
  then show ?thesis using context_step_line_extend [OF True] cont by metis
next
  case False
  then consider "ctx_state c = kExpectBody" | "ctx_state c = kExpectChunkData" | "ctx_state c = kExpectChunkCrlf"
    using cont by (cases "ctx_state c") (auto simp: context_step_def)
  then show ?thesis
  proof cases
    case 1
    then show ?thesis using context_step_body_extend [OF ok _ cont t] by blast
  next
    case 2
    then show ?thesis by (rule context_step_chunk_extend [OF ok _ cont t])
  next
    case 3
    then show ?thesis using cont by (auto simp: context_step_def step_chunk_crlf_def split: if_splits)
  qed
qed

lemma context_step_stop: "context_ok c \<Longrightarrow> context_step c s = (Stop, n, c') \<Longrightarrow> n = None \<and> c' = c"
  by (auto simp: step_defs Let_def context_ok_def
      split: State.splits option.splits if_splits prod.splits)

lemma context_step_fail:
  "context_step c s = (Fail, n, c') \<Longrightarrow> context_failure c' \<noteq> None \<and> (\<forall>k. n = Some k \<longrightarrow> k \<le> length s)"
  by (auto simp: step_defs Let_def context_failure_def dest: findCrlf_pos
      split: State.splits option.splits if_splits prod.splits)

lemma context_fail_stable:
  assumes fl: "context_step c s = (Fail, n, c')"
  shows "\<exists>n2 c2. context_step c (s @ t) = (Fail, n2, c2) \<and> context_failure c2 = context_failure c'"
proof (cases "ctx_state c = kExpectChunkData")
  case True
  then have "min (length s) (chunk_remaining c) > 0"
      "max_body_bytes c > 0" "body_received c + min (length s) (chunk_remaining c) > max_body_bytes c"
      "context_failure c' = Some kTooLarge"
    using fl by (auto simp: context_step_def step_chunk_data_def Let_def context_failure_def split: if_splits)
  moreover have "min (length s) (chunk_remaining c) \<le> min (length (s @ t)) (chunk_remaining c)" by simp
  ultimately show ?thesis
    using True by (simp add: context_step_def step_chunk_data_def Let_def context_failure_def)
next
  case False
  then have st: "ctx_state c \<in> {kExpectRequestLine, kExpectHeaders, kExpectChunkSize}"
    and "\<exists>i. findCrlf s = Some i"
    using fl by (auto simp: step_defs Let_def split: State.splits option.splits if_splits)
  then show ?thesis using context_step_line_extend [OF st] fl by metis
qed

interpretation ctx: stream_parser context_step context_run context_ok context_failure
proof unfold_locales
  show "context_run c s = (case context_step c s of
      (Continue, n, c') \<Rightarrow> context_run c' (skip n s) | (Stop, n, c') \<Rightarrow> (c', skip n s)
    | (Fail, n, c') \<Rightarrow> (c', skip n s))" for c s
    by (rule context_run.simps)
next
  show "\<exists>k. n = Some k \<and> 0 < k \<and> k \<le> length s \<and> context_ok c'"
    if "context_ok c" "context_step c s = (Continue, n, c')" for c s n c'
    using context_step_consumes that(2) context_step_ok [OF that] by blast
next
  show "context_failure c' \<noteq> None \<and> context_ok c' \<and> (\<forall>k. n = Some k \<longrightarrow> k \<le> length s)"
    if "context_ok c" "context_step c s = (Fail, n, c')" for c s n c'
    using context_step_fail [OF that(2)] context_step_ok [OF that] by blast
next
  show "context_step c s = (Stop, None, c)" if "context_failure c \<noteq> None" for c s
    using that by (simp add: context_failure_def context_step_def split: if_splits)
qed (erule (1) context_step_stop | erule context_fail_stable | erule (2) context_step_extend)+

interpretation ctxb: buffered_parser context_step context_run context_ok context_failure
  readable buf_append retrieve buf_ok parseRequest
proof unfold_locales
  show "parseRequest c b = (case context_step c (readable b) of
      (Continue, n, c') \<Rightarrow> Option.bind (consume_opt retrieve n b) (parseRequest c')
    | (Stop, n, c') \<Rightarrow> map_option (\<lambda>b'. (context_failure c' = None, c', b')) (consume_opt retrieve n b)
    | (Fail, n, c') \<Rightarrow> map_option (\<lambda>b'. (False, c', b')) (consume_opt retrieve n b))" for c b
    by (subst parseRequest.simps)
      (auto simp: context_failure_def split: prod.splits loop_ctl.splits option.splits)
qed

section \<open>Parsing what the serialiser writes\<close>

lemma run_continue [parse_simps]:
  "context_step c s = (Continue, n, c') \<Longrightarrow> context_run c s = context_run c' (skip n s)"
  by (subst context_run.simps) simp

lemma run_got_all [parse_simps]: "ctx_state c = kGotAll \<Longrightarrow> context_run c s = (c, s)"
  by (subst context_run.simps) (simp add: context_step_def)

lemma run_header_line:
  assumes st: "ctx_state c = kExpectHeaders" and f: "field_ok k v"
    and size: "header_bytes c + length (header_line k v) \<le> kMaxHeaderBytes"
  shows "context_run c (header_line k v @ rest) =
    context_run (c\<lparr>ctx_request := addHeader k v (ctx_request c),
                   header_bytes := header_bytes c + length (header_line k v)\<rparr>) rest"
proof -
  let ?line = "k @ CHR '':'' # SP # v"
  have s: "header_line k v @ rest = ?line @ CR # LF # rest" by (simp add: header_line_def)
  have find: "findCrlf (?line @ CR # LF # rest) = Some (length ?line)"
    using f by (intro findCrlf_line) (auto simp: field_ok_def)
  have len: "length (header_line k v) = length ?line + 2" by (simp add: header_line_def)
  have st1: "context_step c (?line @ CR # LF # rest) =
      (Continue, Some (length ?line + 2),
       c\<lparr>ctx_request := addHeader k v (ctx_request c),
         header_bytes := header_bytes c + (length ?line + 2)\<rparr>)"
    using st f size find
    by (simp add: context_step_def step_headers_def Let_def line_key_header line_value_header
        length_header_line field_ok_def)
  show ?thesis unfolding s len run_continue [OF st1] skip.simps drop_line ..
qed

lemma run_header_lines:
  assumes "ctx_state c = kExpectHeaders" "\<forall>(k, v) \<in> set kvs. field_ok k v"
    "header_bytes c + length (header_lines kvs) \<le> kMaxHeaderBytes"
  shows "context_run c (header_lines kvs @ rest) =
    context_run (c\<lparr>ctx_request := fold (\<lambda>(k, v). addHeader k v) kvs (ctx_request c),
                   header_bytes := header_bytes c + length (header_lines kvs)\<rparr>) rest"
  using assms
proof (induction kvs arbitrary: c)
  case Nil
  then show ?case by simp
next
  case (Cons p kvs)
  obtain k v where p: "p = (k, v)" by force
  have "context_run c (header_line k v @ header_lines kvs @ rest) =
      context_run (c\<lparr>ctx_request := addHeader k v (ctx_request c),
                     header_bytes := header_bytes c + length (header_line k v)\<rparr>)
        (header_lines kvs @ rest)"
    using Cons.prems by (intro run_header_line) (auto simp: p)
  then show ?case
    using Cons by (simp add: p add.assoc)
qed

text \<open>A request line as the serialiser writes it.\<close>

definition target_ok :: "string \<Rightarrow> string \<Rightarrow> bool" where
  "target_ok path query =
     (SP \<notin> set path \<and> CHR ''?'' \<notin> set path \<and> CR \<notin> set path \<and> SP \<notin> set query \<and> CR \<notin> set query)"

definition request_line :: "Method \<Rightarrow> string \<Rightarrow> string \<Rightarrow> string" where
  "request_line m path query =
     methodToString m @ SP # path @ (if query \<noteq> [] then CHR ''?'' # query else []) @ '' HTTP/1.1''"

lemma parseRequestLine_written:
  assumes "m \<noteq> kInvalid" "target_ok path query"
  shows "parseRequestLine (request_line m path query) HttpRequest_new =
    (True, HttpRequest_new\<lparr>req_method := m, req_path := path, req_query := query\<rparr>)"
proof -
  define uq where "uq = (if query \<noteq> [] then CHR ''?'' # query else [])"
  define tgt where "tgt = path @ uq @ '' HTTP/1.1''"
  let ?M = "methodToString m" and ?line = "request_line m path query"
  let ?r2 = "HttpRequest_new\<lparr>req_method := m, req_path := path\<rparr>"
  have line: "?line = ?M @ SP # tgt" by (simp add: request_line_def uq_def tgt_def)
  have "SP \<notin> set ?M" using methodToString_chars by blast
  then have f1: "find_char SP ?line = length ?M" unfolding line by (rule find_char_hit)
  have m: "methodFromString (take (length ?M) ?line) = m" "drop (length ?M + 1) ?line = tgt"
    unfolding line by simp_all
  have "SP \<notin> set (path @ uq)" using assms(2) by (auto simp: target_ok_def uq_def)
  then have f2: "find_char SP tgt = length (path @ uq)"
    using find_char_hit [of SP "path @ uq" "''HTTP/1.1''"] by (simp add: tgt_def)
  have uri: "take (length (path @ uq)) tgt = path @ uq"
      "drop (length (path @ uq) + 1) tgt = ''HTTP/1.1''"
    by (simp_all add: tgt_def)
  have q: "find_char (CHR ''?'') (path @ uq) = length path"
    using assms(2) by (auto simp: target_ok_def uq_def find_char_append)
  have ne: "length ?M \<noteq> length ?line" "length (path @ uq) \<noteq> length tgt"
    by (simp_all add: line tgt_def)
  have r3: "(if length path \<noteq> length (path @ uq) then setQuery (drop (length path + 1) (path @ uq)) ?r2 else ?r2)
      = ?r2\<lparr>req_query := query\<rparr>"
    by (simp add: uq_def setQuery_def HttpRequest_new_def)
  show ?thesis
    unfolding parseRequestLine_def Let_def f1 m f2 uri q take_append_self r3
    using assms(1) ne by (simp add: HttpRequest_new_def)
qed

lemma run_request_line:
  assumes "m \<noteq> kInvalid" "target_ok path query" "ctx_state c = kExpectRequestLine"
    "ctx_request c = HttpRequest_new"
  shows "context_run c (request_line m path query @ CRLF @ rest) =
    context_run (c\<lparr>ctx_request := HttpRequest_new\<lparr>req_method := m, req_path := path, req_query := query\<rparr>,
                   header_bytes := header_bytes c + length (request_line m path query) + 2,
                   ctx_state := kExpectHeaders\<rparr>) rest"
proof -
  have "CR \<notin> set (request_line m path query)"
    using assms(2) methodToString_chars by (auto simp: request_line_def target_ok_def)
  then have "findCrlf (request_line m path query @ CR # LF # rest) = Some (length (request_line m path query))"
    by (rule findCrlf_line)
  moreover have "parseRequestLine (request_line m path query) HttpRequest_new =
      (True, HttpRequest_new\<lparr>req_method := m, req_path := path, req_query := query\<rparr>)"
    using assms(1,2) by (rule parseRequestLine_written)
  ultimately show ?thesis
    using assms(3,4)
    by (subst run_continue [where n = "Some (length (request_line m path query) + 2)"])
      (auto simp: context_step_def step_request_line_def add.assoc)
qed

lemma run_body:
  assumes "ctx_state c = kExpectBody" "body_received c = 0" "content_length c = length body" "body \<noteq> []"
  shows "context_run c (body @ rest) =
    (c\<lparr>ctx_request := appendBody body (ctx_request c), body_received := length body, ctx_state := kGotAll\<rparr>, rest)"
proof -
  let ?c' = "c\<lparr>ctx_request := appendBody body (ctx_request c), body_received := length body,
               ctx_state := kGotAll\<rparr>"
  have st: "context_step c (body @ rest) = (Continue, Some (length body), ?c')"
    using assms by (simp add: context_step_def step_body_def Let_def)
  show ?thesis
    unfolding run_continue [OF st] by (simp add: run_got_all)
qed

lemma run_blank_line:
  assumes "ctx_state c = kExpectHeaders"
    "\<not> str_contains ''chunked'' (toLower (header (ctx_request c) ''transfer-encoding''))"
    "header (ctx_request c) ''content-length'' = to_string (length body)" "length body < 2 ^ 64"
    "max_body_bytes c = 0 \<or> length body \<le> max_body_bytes c"
    "req_body (ctx_request c) = []"
  shows "\<exists>c'. context_run c (CRLF @ body @ rest) = (c', rest) \<and> gotAll c' \<and>
    ctx_request c' = appendBody body (ctx_request c)"
proof -
  let ?c1 = "c\<lparr>content_length := length body, body_received := 0,
               ctx_state := (if length body > 0 then kExpectBody else kGotAll)\<rparr>"
  have "context_step c (CR # LF # body @ rest) = (Continue, Some 2, ?c1)"
    using assms by (auto simp: context_step_def step_headers_def end_of_headers_def Let_def strtoul_to_string)
  then have run: "context_run c (CRLF @ body @ rest) = context_run ?c1 (body @ rest)"
    by (subst run_continue) auto
  show ?thesis
  proof (cases "body = []")
    case True
    then show ?thesis using run by (auto simp: run_got_all gotAll_def appendBody_def)
  next
    case False
    then show ?thesis using run run_body [of ?c1 body rest] by (auto simp: gotAll_def)
  qed
qed

end
