(* ===== verification/Http_Context_Props.thy ===== *)
theory Http_Context_Props
  imports Http_Context
begin

text \<open>
  The correctness properties of the request parser: independence of segmentation, the round trip with
  the request serialiser, chunked bodies, the body limit, and the error reasons. All of
  them speak about \<^verbatim>\<open>parseRequest\<close> on a buffer; the work is done on \<open>context_run\<close>, which
  the loop refines.
\<close>

section \<open>From the string loop to the buffer loop\<close>

abbreviation "request_parser limit \<equiv> setMaxBodyBytes limit HttpContext_new"

lemma run_fresh_empty [simp]: "context_run (request_parser limit) [] = (request_parser limit, [])"
  by (subst context_run.simps)
    (simp add: context_step_def step_request_line_def HttpContext_new_def setMaxBodyBytes_def)

lemma context_failure_None: "context_failure c = None \<longleftrightarrow> \<not> hasError c"
  by (simp add: context_failure_def hasError_def)

lemma parseRequest_run:
  assumes "context_ok c" "buf_ok b" "context_run c (readable b) = (c1, r)"
  shows "\<exists>b'. parseRequest c b = Some (\<not> hasError c1, c1, b') \<and> buf_ok b' \<and> readable b' = r"
  using ctxb.parse_refines [OF assms] by (simp add: context_failure_None)

section \<open>Segmentation\<close>

abbreviation "feed \<equiv> feed_with buf_append parseRequest"

text \<open>
  C14: how the input is cut into reads does not matter. Segments are appended to the connection's
  buffer one at a time, with a call of \<^verbatim>\<open>parseRequest\<close> after each; no assertion fails, and the result
  is that of appending everything at once and calling the parser once: the same error
  reason, or the same parse state and the same unread bytes.
\<close>

theorem parse_segmentation:
  "\<exists>c1 b1 c2 b2.
     feed segs (request_parser limit) (Buffer n) = Some (c1, b1) \<and>
     feed [concat segs] (request_parser limit) (Buffer n) = Some (c2, b2) \<and>
     outcome context_failure (c1, readable b1) = outcome context_failure (c2, readable b2)"
proof -
  have q: "context_run (request_parser limit) (readable (Buffer n)) = (request_parser limit, readable (Buffer n))"
    by simp
  note feed = ctxb.feed_outcome [OF context_ok_setMax buf_ok_Buffer q]
  show ?thesis using feed [of segs] feed [of "[concat segs]"] by fastforce
qed

section \<open>Round trip with the serialiser\<close>

text \<open>Requests whose fields can be written on the wire.\<close>

definition wire_ok :: "HttpRequest \<Rightarrow> string \<Rightarrow> bool" where
  "wire_ok r host =
     (request_ok r \<and> req_method r \<noteq> kInvalid \<and> target_ok (req_path r) (req_query r) \<and>
      list_all (\<lambda>(k, v). field_ok k v) (req_headers r) \<and> field_ok ''host'' host \<and>
      \<not> str_contains ''chunked'' (toLower (header r ''transfer-encoding'')) \<and>
      length (req_body r) < 2 ^ 64 \<and> length (request_head r host) \<le> kMaxHeaderBytes)"

text \<open>The header fields in the order they are written.\<close>

definition written_fields :: "HttpRequest \<Rightarrow> string \<Rightarrow> (string \<times> string) list" where
  "written_fields r host =
     (if host \<noteq> [] \<and> smap_get (req_headers r) ''host'' = None then [(''Host'', host)] else []) @
     filter (\<lambda>(k, v). k \<noteq> ''content-length'') (req_headers r) @
     [(''Content-Length'', to_string (length (req_body r)))]"

lemma request_head_fields:
  "request_head r host =
     request_line (req_method r) (if req_path r = [] then ''/'' else req_path r) (req_query r) @ CRLF @
     header_lines (written_fields r host) @ CRLF"
  by (auto simp: request_head_def request_line_def written_fields_def concat_header_lines header_line_def)

lemma fold_addHeader:
  "fold (\<lambda>(k, v). addHeader k v) kvs r =
     r\<lparr>req_headers := fold (\<lambda>(k, v). smap_put k v) (map (\<lambda>(k, v). (toLower k, v)) kvs) (req_headers r)\<rparr>"
  by (induction kvs arbitrary: r) (auto simp: addHeader_def)

lemma filter_map_toLower:
  "list_all (\<lambda>(k, v). toLower k = k) m \<Longrightarrow> map (\<lambda>(k, v). (toLower k, v)) (filter P m) = filter P m"
  by (induction m) auto

lemma map_of_filter_key:
  "map_of (filter (\<lambda>(k, v). k \<noteq> x) m) k = (if k = x then None else map_of m k)"
  by (induction m) auto

lemma toLower_Host: "toLower ''Host'' = ''host''"
  by code_simp

lemma toLower_Content_Length: "toLower ''Content-Length'' = ''content-length''"
  by code_simp

lemma toLower_literals:
  "toLower ''content-length'' = ''content-length''" "toLower ''transfer-encoding'' = ''transfer-encoding''"
  by code_simp+

lemma written_fields_lookup:
  assumes "request_ok r"
  shows "smap_get (fold (\<lambda>(k, v). smap_put k v) (map (\<lambda>(k, v). (toLower k, v)) (written_fields r host)) []) k =
    (if k = ''content-length'' then Some (to_string (length (req_body r)))
     else if k = ''host'' \<and> host \<noteq> [] \<and> smap_get (req_headers r) ''host'' = None then Some host
     else smap_get (req_headers r) k)"
proof -
  let ?flt = "filter (\<lambda>(k, v). k \<noteq> ''content-length'') (req_headers r)"
  have low: "list_all (\<lambda>(k, v). toLower k = k) (req_headers r)" and ok: "smap_ok (req_headers r)"
    using assms by (simp_all add: request_ok_def)
  have "distinct (map fst ?flt)"
    using ok by (simp add: smap_ok_def strict_sorted_iff distinct_map_filter)
  then have flt: "map_of (rev ?flt) k = (if k = ''content-length'' then None else smap_get (req_headers r) k)" for k
    by (simp add: smap.map_of_rev_distinct map_of_filter_key smap_get_def)
  show ?thesis
    unfolding smap.get_fold_put [OF smap_ok_Nil]
    by (auto simp: written_fields_def filter_map_toLower [OF low] toLower_Host toLower_Content_Length
        flt map_add_def split: option.splits)
qed

lemma field_ok_written:
  "wire_ok r host \<Longrightarrow> \<forall>(k, v) \<in> set (written_fields r host). field_ok k v"
  using to_string_chars [of _ "length (req_body r)"] hd_in_set [OF to_string_nonempty, of "length (req_body r)"]
  by (auto simp: written_fields_def wire_ok_def list_all_iff field_ok_def)

text \<open>The parse state after the written head, just before the blank line.\<close>

definition after_fields :: "nat \<Rightarrow> HttpRequest \<Rightarrow> string \<Rightarrow> HttpContext" where
  "after_fields limit r host =
     (let path = (if req_path r = [] then ''/'' else req_path r) in
      (request_parser limit)\<lparr>
        ctx_state := kExpectHeaders,
        ctx_request := HttpRequest_new\<lparr>req_method := req_method r, req_path := path, req_query := req_query r,
          req_headers := fold (\<lambda>(k, v). smap_put k v) (map (\<lambda>(k, v). (toLower k, v)) (written_fields r host)) []\<rparr>,
        header_bytes := length (request_line (req_method r) path (req_query r)) + 2 +
          length (header_lines (written_fields r host))\<rparr>)"

lemma run_written_head:
  assumes w: "wire_ok r host"
  shows "context_run (request_parser limit) (request_head r host @ rest) =
    context_run (after_fields limit r host) (CRLF @ rest)"
proof -
  let ?path = "if req_path r = [] then ''/'' else req_path r"
  let ?fields = "written_fields r host"
  let ?line = "request_line (req_method r) ?path (req_query r)"
  let ?req = "HttpRequest_new\<lparr>req_method := req_method r, req_path := ?path, req_query := req_query r\<rparr>"
  define c1 where "c1 = (request_parser limit)\<lparr>ctx_request := ?req, header_bytes := length ?line + 2,
      ctx_state := kExpectHeaders\<rparr>"
  have "target_ok ?path (req_query r)" "req_method r \<noteq> kInvalid"
    using w by (auto simp: wire_ok_def target_ok_def)
  then have "context_run (request_parser limit) (?line @ CRLF @ (header_lines ?fields @ CRLF @ rest)) =
      context_run c1 (header_lines ?fields @ CRLF @ rest)"
    unfolding c1_def
    by (subst run_request_line) (simp_all add: HttpContext_new_def setMaxBodyBytes_def)
  moreover have "context_run c1 (header_lines ?fields @ CRLF @ rest) = context_run (after_fields limit r host) (CRLF @ rest)"
  proof -
    have "header_bytes c1 + length (header_lines ?fields) \<le> kMaxHeaderBytes"
      using w by (simp add: c1_def request_head_fields wire_ok_def)
    then show ?thesis
      by (subst run_header_lines [OF _ field_ok_written [OF w]])
        (simp_all add: c1_def after_fields_def Let_def fold_addHeader HttpRequest_new_def)
  qed
  ultimately show ?thesis by (simp add: request_head_fields)
qed

lemma after_fields_facts:
  assumes "request_ok r"
  shows "header (ctx_request (after_fields limit r host)) ''content-length'' = to_string (length (req_body r))"
    and "header (ctx_request (after_fields limit r host)) ''transfer-encoding'' = header r ''transfer-encoding''"
    and "ctx_state (after_fields limit r host) = kExpectHeaders" "max_body_bytes (after_fields limit r host) = limit"
    and "req_body (ctx_request (after_fields limit r host)) = []"
proof -
  show "header (ctx_request (after_fields limit r host)) ''content-length'' = to_string (length (req_body r))"
    "header (ctx_request (after_fields limit r host)) ''transfer-encoding'' = header r ''transfer-encoding''"
    by (simp_all add: header_def after_fields_def Let_def toLower_literals written_fields_lookup [OF assms])
qed (simp_all add: after_fields_def Let_def setMaxBodyBytes_def HttpRequest_new_def)

lemma run_written_request:
  assumes w: "wire_ok r host" and lim: "limit = 0 \<or> length (req_body r) \<le> limit"
  shows "\<exists>c. context_run (request_parser limit) (request_head r host @ req_body r @ rest) = (c, rest) \<and>
     gotAll c \<and> ctx_request c = appendBody (req_body r) (ctx_request (after_fields limit r host))"
proof -
  have wf: "request_ok r" "length (req_body r) < 2 ^ 64"
      "\<not> str_contains ''chunked'' (toLower (header r ''transfer-encoding''))"
    using w by (auto simp: wire_ok_def)
  show ?thesis
    unfolding run_written_head [OF w]
    using wf lim by (intro run_blank_line) (simp_all add: after_fields_facts)
qed

text \<open>
  C15: round trip of requests. A request with writable fields, serialised by \<^verbatim>\<open>appendTo\<close> into an empty
  buffer and parsed by \<^verbatim>\<open>parseRequest\<close> under a body limit that admits it, comes back complete: the buffer
  is drained, and method, path (an empty one is sent as a slash), query, body and
  headers are those written, where the serialiser sets \<^verbatim>\<open>Content-Length\<close> and, if it is missing, \<^verbatim>\<open>Host\<close>.
\<close>

theorem request_roundtrip:
  assumes w: "wire_ok r host" and lim: "limit = 0 \<or> length (req_body r) \<le> limit"
  shows "\<exists>b c b'. HttpRequest_appendTo r host (Buffer n) = Some b \<and>
     parseRequest (request_parser limit) b = Some (True, c, b') \<and> gotAll c \<and> readable b' = [] \<and>
     req_method (ctx_request c) = req_method r \<and>
     req_path (ctx_request c) = (if req_path r = [] then ''/'' else req_path r) \<and>
     req_query (ctx_request c) = req_query r \<and> req_body (ctx_request c) = req_body r \<and>
     smap_get (req_headers (ctx_request c)) k =
       (if k = ''content-length'' then Some (to_string (length (req_body r)))
        else if k = ''host'' \<and> host \<noteq> [] \<and> smap_get (req_headers r) ''host'' = None then Some host
        else smap_get (req_headers r) k)"
proof -
  obtain b where b: "HttpRequest_appendTo r host (Buffer n) = Some b" "buf_ok b"
      "readable b = request_head r host @ req_body r"
    using HttpRequest_appendTo_spec [OF buf_ok_Buffer] by fastforce
  obtain c where c: "context_run (request_parser limit) (readable b) = (c, [])" "gotAll c"
      "ctx_request c = appendBody (req_body r) (ctx_request (after_fields limit r host))"
    using run_written_request [OF w lim, of "[]"] b(3) by auto
  obtain b' where b': "parseRequest (request_parser limit) b = Some (\<not> hasError c, c, b')" "readable b' = []"
    using parseRequest_run [OF context_ok_setMax b(2) c(1)] by blast
  have "\<not> hasError c" using c(2) by (simp add: gotAll_def hasError_def)
  then show ?thesis
    using b b' c written_fields_lookup [of r host k] w
    by (simp add: wire_ok_def after_fields_def Let_def HttpRequest_new_def appendBody_def)
qed

definition sample_request :: HttpRequest where
  "sample_request = addHeader ''Accept'' ''x/y''
     (HttpRequest_new\<lparr>req_method := kPost, req_path := ''/a'', req_query := ''q=1'', req_body := ''hey''\<rparr>)"

lemma sample_request_fields:
  "req_headers sample_request = [(''accept'', ''x/y'')]" "req_method sample_request = kPost"
  "req_path sample_request = ''/a''" "req_query sample_request = ''q=1''" "req_body sample_request = ''hey''"
proof -
  have "toLower ''Accept'' = ''accept''" by code_simp
  then show "req_headers sample_request = [(''accept'', ''x/y'')]"
    by (simp add: sample_request_def addHeader_def HttpRequest_new_def)
qed (simp_all add: sample_request_def addHeader_def)

lemma sample_request_wire_ok: "wire_ok sample_request ''h''"
proof -
  have "request_ok sample_request"
    unfolding sample_request_def
    by (rule request_ok_addHeader) (simp add: request_ok_def HttpRequest_new_def)
  moreover have "header sample_request ''transfer-encoding'' = []"
    by (simp add: header_def sample_request_fields smap_get_def toLower_literals)
  moreover have "length (request_head sample_request ''h'') \<le> kMaxHeaderBytes"
    by (simp add: request_head_def sample_request_fields header_line_def smap_get_def kMaxHeaderBytes_def
        to_string.simps)
  ultimately show ?thesis
    by (simp add: wire_ok_def sample_request_fields target_ok_def field_ok_def toLower_def)
qed

theorem request_roundtrip_witness:
  "\<exists>b c b'. HttpRequest_appendTo sample_request ''h'' (Buffer 64) = Some b \<and>
     parseRequest (request_parser 8) b = Some (True, c, b') \<and> gotAll c \<and> req_body (ctx_request c) = ''hey''"
proof -
  have lim: "(8::nat) = 0 \<or> length (req_body sample_request) \<le> 8" "req_body sample_request = ''hey''"
    by (simp_all add: sample_request_fields)
  show ?thesis using request_roundtrip [OF sample_request_wire_ok lim(1), of 64 "[]"] lim(2) by auto
qed

section \<open>The body limit\<close>

text \<open>
  a declared body over the limit is refused up front. When a request whose body is longer than
  a non-zero limit is parsed, the head alone makes \<^verbatim>\<open>parseRequest\<close> return false with reason
  \<^verbatim>\<open>kTooLarge\<close>, whatever part of the body has arrived, and no body byte is consumed.
\<close>

theorem oversized_request_rejected:
  assumes w: "wire_ok r host" and lim: "0 < limit" "limit < length (req_body r)"
    and b: "buf_ok b" "readable b = request_head r host @ arrived"
  shows "\<exists>c b'. parseRequest (request_parser limit) b = Some (False, c, b') \<and> hasError c \<and>
    ctx_error c = kTooLarge \<and> req_body (ctx_request c) = [] \<and> readable b' = arrived"
proof -
  let ?c = "after_fields limit r host"
  let ?c1 = "?c\<lparr>content_length := length (req_body r), body_received := 0,
               ctx_error := kTooLarge, ctx_state := kError\<rparr>"
  have wf: "request_ok r" "length (req_body r) < 2 ^ 64"
      "\<not> str_contains ''chunked'' (toLower (header r ''transfer-encoding''))"
    using w by (auto simp: wire_ok_def)
  have "context_step ?c (CR # LF # arrived) = (Fail, Some 2, ?c1)"
    using wf lim by (simp add: context_step_def step_headers_def end_of_headers_def Let_def
        after_fields_facts strtoul_to_string)
  then have "context_run ?c (CRLF @ arrived) = (?c1, arrived)"
    by (subst context_run.simps) simp
  then have run: "context_run (request_parser limit) (readable b) = (?c1, arrived)"
    using run_written_head [OF w] b(2) by simp
  show ?thesis
    using parseRequest_run [OF context_ok_setMax b(1) run] after_fields_facts(5) [OF wf(1)]
    by (auto simp: hasError_def)
qed

theorem oversized_request_rejected_witness:
  "\<exists>b c b'. HttpRequest_appendTo sample_request ''h'' (Buffer 64) = Some b \<and>
     parseRequest (request_parser 2) b = Some (False, c, b') \<and> ctx_error c = kTooLarge \<and> readable b' = ''hey''"
proof -
  obtain b where b: "HttpRequest_appendTo sample_request ''h'' (Buffer 64) = Some b" "buf_ok b"
      "readable b = request_head sample_request ''h'' @ ''hey''"
    using HttpRequest_appendTo_spec [OF buf_ok_Buffer, of sample_request "''h''" 64]
    by (auto simp: sample_request_fields)
  have lim: "(0::nat) < 2" "2 < length (req_body sample_request)" by (simp_all add: sample_request_fields)
  show ?thesis
    using oversized_request_rejected [OF sample_request_wire_ok lim b(2,3)] b(1) by blast
qed

lemma context_step_max: "context_step c s = (ctl, n, c') \<Longrightarrow> max_body_bytes c' = max_body_bytes c"
  by (auto simp: step_defs Let_def split: State.splits option.splits if_splits prod.splits)

lemma context_run_max: "max_body_bytes (fst (context_run c s)) = max_body_bytes c"
proof (induction c s rule: context_run.induct)
  case (1 c s)
  obtain ctl n c' where st: "context_step c s = (ctl, n, c')" by (cases "context_step c s")
  then show ?case
    using "1.IH" [OF st [symmetric] _ refl] context_step_max [OF st]
    by (subst context_run.simps) (cases ctl; simp)
qed

lemma feed_max:
  assumes "context_ok c" "buf_ok b" "feed segs c b = Some (c1, b1)"
  shows "max_body_bytes c1 = max_body_bytes c"
  using assms
proof (induction segs arbitrary: c b)
  case Nil
  then show ?case by simp
next
  case (Cons seg segs)
  obtain b2 where b2: "buf_append seg b = Some b2" "buf_ok b2"
    using bq.enqueue_contents [OF Cons.prems(2)] by blast
  obtain c2 r where r: "context_run c (readable b2) = (c2, r)" by fastforce
  obtain b3 where b3: "parseRequest c b2 = Some (\<not> hasError c2, c2, b3)" "buf_ok b3"
    using parseRequest_run [OF Cons.prems(1) b2(2) r] by blast
  have "context_ok c2" using ctx.run_inv [OF Cons.prems(1), of "readable b2"] r by simp
  then show ?case
    using Cons.IH [OF _ b3(2)] Cons.prems(3) b2(1) b3(1) context_run_max [of c "readable b2"] r by simp
qed

text \<open>
  C13: the body limit holds for every input. Whatever arrives, in whatever segments, framed by length
  or by chunks, the body accumulated by a parser with a non-zero limit never exceeds it, and
  the counter compared with the limit is the length of that body.
\<close>

theorem body_limit_enforced:
  "\<exists>c b. feed segs (request_parser limit) (Buffer n) = Some (c, b) \<and>
     body_received c = length (req_body (ctx_request c)) \<and>
     (limit = 0 \<or> length (req_body (ctx_request c)) \<le> limit)"
proof -
  have q: "context_run (request_parser limit) (readable (Buffer n)) = (request_parser limit, readable (Buffer n))"
    by simp
  obtain c b where cb: "feed segs (request_parser limit) (Buffer n) = Some (c, b)" "context_ok c"
    using ctxb.feed_outcome [OF context_ok_setMax buf_ok_Buffer q, of segs] by blast
  have "max_body_bytes c = limit"
    using feed_max [OF context_ok_setMax buf_ok_Buffer cb(1)] by (simp add: setMaxBodyBytes_def)
  then show ?thesis using cb by (auto simp: context_ok_def)
qed

text \<open>
  the reason \<^verbatim>\<open>kBadRequest\<close> is never reported. For every input the error reason is \<^verbatim>\<open>kNone\<close> or
  \<^verbatim>\<open>kTooLarge\<close>; malformed input leaves the reason at \<^verbatim>\<open>kNone\<close>, although the header comment says that
  \<^verbatim>\<open>kBadRequest\<close> covers it.
\<close>

theorem bad_request_reason_unused:
  "\<exists>c b. feed segs (request_parser limit) (Buffer n) = Some (c, b) \<and> ctx_error c \<in> {kNone, kTooLarge}"
proof -
  have q: "context_run (request_parser limit) (readable (Buffer n)) = (request_parser limit, readable (Buffer n))"
    by simp
  obtain c b where "feed segs (request_parser limit) (Buffer n) = Some (c, b)" "context_ok c"
    using ctxb.feed_outcome [OF context_ok_setMax buf_ok_Buffer q, of segs] by blast
  then show ?thesis by (cases "ctx_error c") (auto simp: context_ok_def)
qed

section \<open>Chunked bodies\<close>

lemma run_chunk:
  assumes st: "ctx_state c = kExpectChunkSize" and d: "d \<noteq> []" "length d < 2 ^ 64"
    and cap: "max_body_bytes c = 0 \<or> body_received c + length d \<le> max_body_bytes c"
  shows "context_run c (encode_chunk d @ rest) =
    context_run (c\<lparr>ctx_request := appendBody d (ctx_request c), body_received := body_received c + length d,
                   chunk_remaining := 0\<rparr>) rest"
proof -
  let ?hex = "to_hex (length d)"
  let ?c1 = "c\<lparr>chunk_remaining := length d, ctx_state := kExpectChunkData\<rparr>"
  let ?c2 = "?c1\<lparr>ctx_request := appendBody d (ctx_request c), chunk_remaining := 0,
      body_received := body_received c + length d, ctx_state := kExpectChunkCrlf\<rparr>"
  have "findCrlf (?hex @ CR # LF # d @ CR # LF # rest) = Some (length ?hex)"
    by (rule findCrlf_line) simp
  then have s1: "context_step c (?hex @ CR # LF # d @ CR # LF # rest) = (Continue, Some (length ?hex + 2), ?c1)"
    using st d by (simp add: context_step_def step_chunk_size_def Let_def strtoul_to_hex)
  have s2: "context_step ?c1 (d @ CR # LF # rest) = (Continue, Some (length d), ?c2)"
    using d(1) cap by (auto simp: context_step_def step_chunk_data_def Let_def)
  have s3: "context_step ?c2 (CR # LF # rest) = (Continue, Some 2, ?c2\<lparr>ctx_state := kExpectChunkSize\<rparr>)"
    by (simp add: context_step_def step_chunk_crlf_def)
  have enc: "encode_chunk d @ rest = ?hex @ CR # LF # d @ CR # LF # rest" by (simp add: encode_chunk_def)
  have "context_run c (encode_chunk d @ rest) = context_run ?c1 (d @ CR # LF # rest)"
    unfolding enc run_continue [OF s1] skip.simps drop_line ..
  also have "\<dots> = context_run ?c2 (CR # LF # rest)"
    using run_continue [OF s2] by simp
  also have "\<dots> = context_run (?c2\<lparr>ctx_state := kExpectChunkSize\<rparr>) rest"
    using run_continue [OF s3] by simp
  also have "?c2\<lparr>ctx_state := kExpectChunkSize\<rparr> =
      c\<lparr>ctx_request := appendBody d (ctx_request c), body_received := body_received c + length d,
        chunk_remaining := 0\<rparr>"
    using st by (intro HttpContext.equality) simp_all
  finally show ?thesis .
qed

lemma run_chunks:
  assumes "ctx_state c = kExpectChunkSize" "\<forall>d \<in> set ds. d \<noteq> [] \<and> length d < 2 ^ 64"
    "max_body_bytes c = 0 \<or> body_received c + length (concat ds) \<le> max_body_bytes c"
  shows "\<exists>c'. context_run c (encode_chunks ds @ last_chunk @ rest) = (c', rest) \<and> gotAll c' \<and>
    req_body (ctx_request c') = req_body (ctx_request c) @ concat ds"
  using assms
proof (induction ds arbitrary: c)
  case Nil
  have "findCrlf (CHR ''0'' # CR # LF # rest) = Some 1" by simp
  moreover have "strtoul ''0'' 16 = 0"
    by (simp add: strtoul_def strip_hex_prefix_def digit_value_def is_space_def ULONG_MAX_def)
  ultimately have "context_step c (CHR ''0'' # CR # LF # rest) =
      (Continue, Some 3, c\<lparr>chunk_remaining := 0, ctx_state := kGotAll\<rparr>)"
    using Nil by (simp add: context_step_def step_chunk_size_def Let_def)
  then show ?case
    by (simp add: encode_chunks_def last_chunk_def run_continue run_got_all gotAll_def)
next
  case (Cons d ds)
  let ?c = "c\<lparr>ctx_request := appendBody d (ctx_request c), body_received := body_received c + length d,
              chunk_remaining := 0\<rparr>"
  have "context_run c (encode_chunks (d # ds) @ last_chunk @ rest) =
      context_run ?c (encode_chunks ds @ last_chunk @ rest)"
    using run_chunk [of c d "encode_chunks ds @ last_chunk @ rest"] Cons.prems by (auto simp: encode_chunks_def)
  then show ?case using Cons.IH [of ?c] Cons.prems by auto
qed

text \<open>
  C35: chunked bodies are decoded. In the chunked state, the encoding of any non-empty chunks within the
  limit followed by the last chunk completes the request with the concatenation of the
  chunks as its body, and leaves what follows in the buffer.
\<close>

theorem chunked_body_decoded:
  assumes "context_ok c" "ctx_state c = kExpectChunkSize" "\<forall>d \<in> set ds. d \<noteq> [] \<and> length d < 2 ^ 64"
    "max_body_bytes c = 0 \<or> body_received c + length (concat ds) \<le> max_body_bytes c"
    "buf_ok b" "readable b = encode_chunks ds @ last_chunk @ rest"
  shows "\<exists>c' b'. parseRequest c b = Some (True, c', b') \<and> gotAll c' \<and> buf_ok b' \<and> readable b' = rest \<and>
    req_body (ctx_request c') = req_body (ctx_request c) @ concat ds"
proof -
  obtain c' where c': "context_run c (readable b) = (c', rest)" "gotAll c'"
      "req_body (ctx_request c') = req_body (ctx_request c) @ concat ds"
    using run_chunks [OF assms(2-4), of rest] assms(6) by auto
  then have "\<not> hasError c'" by (simp add: gotAll_def hasError_def)
  then show ?thesis
    using parseRequest_run [OF assms(1,5) c'(1)] c' by auto
qed

definition chunk_context :: HttpContext where
  "chunk_context = HttpContext_new\<lparr>ctx_state := kExpectChunkSize\<rparr>"

lemma chunk_context_ok: "context_ok chunk_context"
  by (simp add: chunk_context_def context_ok_def HttpContext_new_def) (simp add: HttpRequest_new_def)

lemma buffer_with: "\<exists>b. buf_append s (Buffer n) = Some b \<and> buf_ok b \<and> readable b = s"
  using bq.enqueue_contents [OF buf_ok_Buffer, of s n] by auto

theorem chunked_body_decoded_witness:
  "\<exists>b c' b'. buf_append (encode_chunks [''Wiki'', ''pedia''] @ last_chunk @ ''x'') (Buffer 1024) = Some b \<and>
     parseRequest chunk_context b = Some (True, c', b') \<and> req_body (ctx_request c') = ''Wikipedia'' \<and> readable b' = ''x''"
proof -
  obtain b where b: "buf_append (encode_chunks [''Wiki'', ''pedia''] @ last_chunk @ ''x'') (Buffer 1024) = Some b"
      "buf_ok b" "readable b = encode_chunks [''Wiki'', ''pedia''] @ last_chunk @ ''x''"
    using buffer_with by blast
  have "ctx_state chunk_context = kExpectChunkSize" "max_body_bytes chunk_context = 0"
      "req_body (ctx_request chunk_context) = []"
    by (simp_all add: chunk_context_def HttpContext_new_def HttpRequest_new_def)
  then show ?thesis
    using chunked_body_decoded [OF chunk_context_ok _ _ _ b(2,3)] b(1) by auto
qed

text \<open>
  C36: the empty trailer of a chunked body is not consumed. RFC 7230 ends a chunked body with the last chunk
  and an empty trailer (a further CRLF). The parser reports the request complete after the last chunk;
  after the reset for the next request it meets that CRLF as an empty request line, and the
  next call fails whatever request follows. A chunked request on a keep-alive connection
  therefore ends in an error response.
\<close>

theorem chunked_trailer_breaks_next_request:
  assumes "context_ok c" "ctx_state c = kExpectChunkSize" "\<forall>d \<in> set ds. d \<noteq> [] \<and> length d < 2 ^ 64"
    "max_body_bytes c = 0 \<or> body_received c + length (concat ds) \<le> max_body_bytes c"
    "buf_ok b" "readable b = encode_chunks ds @ last_chunk @ trailer_end @ next_request"
  shows "\<exists>c1 b1 c2 b2. parseRequest c b = Some (True, c1, b1) \<and> gotAll c1 \<and>
    parseRequest (HttpContext_reset c1) b1 = Some (False, c2, b2) \<and> hasError c2 \<and> ctx_error c2 = kNone"
proof -
  obtain c1 where c1: "context_run c (readable b) = (c1, trailer_end @ next_request)" "gotAll c1"
    using run_chunks [OF assms(2-4), of "trailer_end @ next_request"] assms(6) by auto
  then have ne: "\<not> hasError c1" by (simp add: gotAll_def hasError_def)
  obtain b1 where b1: "parseRequest c b = Some (True, c1, b1)" "buf_ok b1" "readable b1 = trailer_end @ next_request"
    using parseRequest_run [OF assms(1,5) c1(1)] ne by auto
  let ?c2 = "(HttpContext_reset c1)\<lparr>ctx_state := kError\<rparr>"
  have "parseRequestLine [] r = (False, r)" for r by (simp add: parseRequestLine_def)
  then have "context_run (HttpContext_reset c1) (readable b1) = (?c2, readable b1)"
    using b1(3) by (subst context_run.simps)
      (simp add: context_step_def step_request_line_def trailer_end_def HttpContext_reset_def)
  then obtain b2 where "parseRequest (HttpContext_reset c1) b1 = Some (\<not> hasError ?c2, ?c2, b2)"
    using parseRequest_run [OF context_ok_reset b1(2)] by blast
  moreover have "hasError ?c2" "ctx_error ?c2 = kNone" by (simp_all add: hasError_def HttpContext_reset_def)
  ultimately show ?thesis using b1(1) c1(2) by auto
qed

theorem chunked_trailer_breaks_next_request_witness:
  "\<exists>b c1 b1 c2 b2.
     buf_append (encode_chunks [''Wiki''] @ last_chunk @ trailer_end @ (''GET / HTTP/1.1'' @ CRLF @ CRLF)) (Buffer 1024) = Some b \<and>
     parseRequest chunk_context b = Some (True, c1, b1) \<and>
     parseRequest (HttpContext_reset c1) b1 = Some (False, c2, b2)"
proof -
  obtain b where b: "buf_append (encode_chunks [''Wiki''] @ last_chunk @ trailer_end @ (''GET / HTTP/1.1'' @ CRLF @ CRLF)) (Buffer 1024) = Some b"
      "buf_ok b" "readable b = encode_chunks [''Wiki''] @ last_chunk @ trailer_end @ (''GET / HTTP/1.1'' @ CRLF @ CRLF)"
    using buffer_with by blast
  have "ctx_state chunk_context = kExpectChunkSize" "max_body_bytes chunk_context = 0"
    by (simp_all add: chunk_context_def HttpContext_new_def)
  then show ?thesis
    using chunked_trailer_breaks_next_request [OF chunk_context_ok _ _ _ b(2,3)] b(1) by auto
qed

end
