(* ===== verification/Http_Response_Parser.thy ===== *)
theory Http_Response_Parser
  imports Http_Wire
begin

text \<open>
  The incremental response parser of the client, \<^verbatim>\<open>http/response_parser.h\<close> and
  \<^verbatim>\<open>http/response_parser.cc\<close>: one definition per branch of the loop in \<^verbatim>\<open>parse\<close>, the loop over a buffer,
  \<^verbatim>\<open>onEof\<close> and \<^verbatim>\<open>reset\<close>. It implements the same incremental interface as the request parser, so
  its result does not depend on the segmentation of the input either.
\<close>

section \<open>State\<close>

datatype ResponseState =
    rExpectStatusLine | rExpectHeaders | rExpectBody | rExpectChunkSize | rExpectChunkData
  | rExpectChunkCrlf | rExpectEofBody | rGotAll | rError

record ResponseParser =
  rp_state :: ResponseState
  rp_response :: HttpResponse
  lower_headers :: "(string, string) smap"
  rp_content_length :: nat
  rp_body_received :: nat
  rp_header_bytes :: nat
  rp_chunk_remaining :: nat
  has_content_length :: bool
  body_accum :: string

text \<open>\<^verbatim>\<open>HttpResponse response_\<close> is built by the default argument of its constructor.\<close>

definition ResponseParser_new :: ResponseParser where
  "ResponseParser_new =
     \<lparr>rp_state = rExpectStatusLine, rp_response = HttpResponse_new True, lower_headers = [],
      rp_content_length = 0, rp_body_received = 0, rp_header_bytes = 0, rp_chunk_remaining = 0,
      has_content_length = False, body_accum = []\<rparr>"

definition rp_kMaxHeaderBytes :: nat where
  "rp_kMaxHeaderBytes = 64 * 1024"

definition rp_gotAll :: "ResponseParser \<Rightarrow> bool" where
  "rp_gotAll p = (rp_state p = rGotAll)"

definition rp_hasError :: "ResponseParser \<Rightarrow> bool" where
  "rp_hasError p = (rp_state p = rError)"

section \<open>One round of the loop\<close>

text \<open>\<^verbatim>\<open>parseStatusLine\<close>: false on a malformed line, otherwise the response with its status set.\<close>

definition parseStatusLine :: "string \<Rightarrow> HttpResponse \<Rightarrow> HttpResponse option" where
  "parseStatusLine line resp =
     (let sp1 = find_char SP line in
      if sp1 = length line then None
      else let version = take sp1 line in
      if version \<noteq> ''HTTP/1.0'' \<and> version \<noteq> ''HTTP/1.1'' then None
      else let tail = drop (sp1 + 1) line;
               sp2 = find_char SP tail;
               code = atoi (take sp2 tail) in
      if code < 100 \<or> code > 599 then None
      else let reason = (if sp2 = length tail then [] else drop (sp2 + 1) tail) in
      Some (setStatus code reason resp))"

definition rp_step_status_line :: "ResponseParser \<Rightarrow> string \<Rightarrow> loop_ctl \<times> nat option \<times> ResponseParser" where
  "rp_step_status_line p s =
     (case findCrlf s of
        None \<Rightarrow> (Stop, None, p)
      | Some crlf \<Rightarrow>
          (case parseStatusLine (take crlf s) (rp_response p) of
             None \<Rightarrow> (Fail, None, p\<lparr>rp_state := rError\<rparr>)
           | Some resp \<Rightarrow>
               (Continue, Some (crlf + 2), p\<lparr>rp_response := resp, rp_state := rExpectHeaders\<rparr>)))"

text \<open>The blank line: decide the body framing.\<close>

definition rp_end_of_headers :: "ResponseParser \<Rightarrow> loop_ctl \<times> nat option \<times> ResponseParser" where
  "rp_end_of_headers p =
     (let state =
        (case smap_get (lower_headers p) ''transfer-encoding'' of
           Some te \<Rightarrow> str_contains ''chunked'' te | None \<Rightarrow> False) in
      (Continue, Some 2,
       p\<lparr>rp_state :=
           (if state then rExpectChunkSize
            else if has_content_length p then (if rp_content_length p > 0 then rExpectBody else rGotAll)
            else rExpectEofBody)\<rparr>))"

text \<open>One header field: stored as it is and in lower case, with the declared length noted.\<close>

definition rp_store_header :: "string \<Rightarrow> string \<Rightarrow> ResponseParser \<Rightarrow> ResponseParser" where
  "rp_store_header key value p =
     (let lkey = toLower key;
          p1 = p\<lparr>rp_response := resp_addHeader key value (rp_response p),
                 lower_headers := smap_put lkey value (lower_headers p)\<rparr> in
      if lkey = ''content-length''
      then p1\<lparr>has_content_length := True, rp_content_length := strtoul value 10\<rparr>
      else p1)"

definition rp_step_headers :: "ResponseParser \<Rightarrow> string \<Rightarrow> loop_ctl \<times> nat option \<times> ResponseParser" where
  "rp_step_headers p s =
     (case findCrlf s of
        None \<Rightarrow> (Stop, None, p)
      | Some crlf \<Rightarrow>
          if crlf = 0 then rp_end_of_headers p
          else
            (let line = take crlf s; colon = find_char (CHR '':'') line in
             if colon = length line then (Fail, None, p\<lparr>rp_state := rError\<rparr>)
             else
               (let p1 = rp_store_header (line_key line) (line_value line) p;
                    p3 = p1\<lparr>rp_header_bytes := rp_header_bytes p1 + (crlf + 2)\<rparr> in
                if rp_header_bytes p3 > rp_kMaxHeaderBytes then (Fail, None, p3\<lparr>rp_state := rError\<rparr>)
                else (Continue, Some (crlf + 2), p3))))"

text \<open>\<^verbatim>\<open>response_.setBody(std::move(body_accum_))\<close> and \<^verbatim>\<open>state_ = kGotAll\<close>; the moved-from string is empty.\<close>

definition rp_finish :: "ResponseParser \<Rightarrow> ResponseParser" where
  "rp_finish p = p\<lparr>rp_response := setBody (body_accum p) (rp_response p), body_accum := [], rp_state := rGotAll\<rparr>"

definition rp_step_body :: "ResponseParser \<Rightarrow> string \<Rightarrow> loop_ctl \<times> nat option \<times> ResponseParser" where
  "rp_step_body p s =
     (let tk = min (length s) (rp_content_length p - rp_body_received p);
          p1 = (if tk > 0
                then p\<lparr>body_accum := body_accum p @ take tk s, rp_body_received := rp_body_received p + tk\<rparr>
                else p);
          p2 = (if rp_body_received p1 = rp_content_length p1 then rp_finish p1 else p1)
      in if tk > 0 then (Continue, Some tk, p2) else (Stop, None, p2))"

definition rp_step_eof_body :: "ResponseParser \<Rightarrow> string \<Rightarrow> loop_ctl \<times> nat option \<times> ResponseParser" where
  "rp_step_eof_body p s =
     (let avail = length s in
      if avail > 0 then (Continue, Some avail, p\<lparr>body_accum := body_accum p @ s\<rparr>)
      else (Stop, None, p))"

definition rp_step_chunk_size :: "ResponseParser \<Rightarrow> string \<Rightarrow> loop_ctl \<times> nat option \<times> ResponseParser" where
  "rp_step_chunk_size p s =
     (case findCrlf s of
        None \<Rightarrow> (Stop, None, p)
      | Some crlf \<Rightarrow>
          (let n = strtoul (take crlf s) 16; p1 = p\<lparr>rp_chunk_remaining := n\<rparr> in
           (Continue, Some (crlf + 2),
            if n = 0 then rp_finish p1 else p1\<lparr>rp_state := rExpectChunkData\<rparr>)))"

definition rp_step_chunk_data :: "ResponseParser \<Rightarrow> string \<Rightarrow> loop_ctl \<times> nat option \<times> ResponseParser" where
  "rp_step_chunk_data p s =
     (let tk = min (length s) (rp_chunk_remaining p);
          p1 = (if tk > 0
                then p\<lparr>body_accum := body_accum p @ take tk s, rp_chunk_remaining := rp_chunk_remaining p - tk\<rparr>
                else p);
          p2 = (if rp_chunk_remaining p1 = 0 then p1\<lparr>rp_state := rExpectChunkCrlf\<rparr> else p1)
      in if tk > 0 then (Continue, Some tk, p2) else (Stop, None, p2))"

definition rp_step_chunk_crlf :: "ResponseParser \<Rightarrow> string \<Rightarrow> loop_ctl \<times> nat option \<times> ResponseParser" where
  "rp_step_chunk_crlf p s =
     (if length s \<ge> 2 then (Continue, Some 2, p\<lparr>rp_state := rExpectChunkSize\<rparr>)
      else (Stop, None, p))"

definition rp_step :: "ResponseParser \<Rightarrow> string \<Rightarrow> loop_ctl \<times> nat option \<times> ResponseParser" where
  "rp_step p s =
     (case rp_state p of
        rExpectStatusLine \<Rightarrow> rp_step_status_line p s
      | rExpectHeaders \<Rightarrow> rp_step_headers p s
      | rExpectBody \<Rightarrow> rp_step_body p s
      | rExpectEofBody \<Rightarrow> rp_step_eof_body p s
      | rExpectChunkSize \<Rightarrow> rp_step_chunk_size p s
      | rExpectChunkData \<Rightarrow> rp_step_chunk_data p s
      | rExpectChunkCrlf \<Rightarrow> rp_step_chunk_crlf p s
      | rGotAll \<Rightarrow> (Stop, None, p)
      | rError \<Rightarrow> (Stop, None, p))"

lemmas rp_step_defs = rp_step_def rp_step_status_line_def rp_step_headers_def rp_end_of_headers_def
  rp_store_header_def rp_step_body_def rp_step_eof_body_def rp_step_chunk_size_def rp_step_chunk_data_def rp_step_chunk_crlf_def

section \<open>The loop\<close>

lemma rp_step_consumes:
  "rp_step p s = (Continue, n, p') \<Longrightarrow> \<exists>k. n = Some k \<and> 0 < k \<and> k \<le> length s"
  by (auto simp: rp_step_defs Let_def dest: findCrlf_pos
      split: ResponseState.splits option.splits if_splits prod.splits)

text \<open>\<^verbatim>\<open>parse(buf)\<close>: its return value, the parser and the buffer.\<close>

function rp_parse :: "ResponseParser \<Rightarrow> buffer \<Rightarrow> (bool \<times> ResponseParser \<times> buffer) option" where
  "rp_parse p b =
     (case rp_step p (readable b) of
        (Continue, n, p') \<Rightarrow>
          (case consume_opt retrieve n b of None \<Rightarrow> None | Some b' \<Rightarrow> rp_parse p' b')
      | (Stop, n, p') \<Rightarrow>
          map_option (\<lambda>b'. (rp_state p' \<noteq> rError, p', b')) (consume_opt retrieve n b)
      | (Fail, n, p') \<Rightarrow> map_option (\<lambda>b'. (False, p', b')) (consume_opt retrieve n b))"
  by pat_completeness auto
termination
proof (relation "measure (\<lambda>(p, b). readableBytes b)", goal_cases)
  case 1
  then show ?case by simp
next
  case (2 p b ctl q n p' b')
  then have "rp_step p (readable b) = (Continue, n, p')" by simp
  then obtain k where "n = Some k" "0 < k" "k \<le> length (readable b)"
    using rp_step_consumes by blast
  then show ?case using 2 retrieve_shrinks [of k b b'] by simp
qed

declare rp_parse.simps [simp del]

function rp_run :: "ResponseParser \<Rightarrow> string \<Rightarrow> ResponseParser \<times> string" where
  "rp_run p s =
     (case rp_step p s of
        (Continue, n, p') \<Rightarrow> rp_run p' (skip n s)
      | (Stop, n, p') \<Rightarrow> (p', skip n s)
      | (Fail, n, p') \<Rightarrow> (p', skip n s))"
  by pat_completeness auto
termination
proof (relation "measure (\<lambda>(p, s). length s)", goal_cases)
  case 1
  then show ?case by simp
next
  case (2 p s ctl q n p')
  then have "rp_step p s = (Continue, n, p')" by simp
  then obtain k where "n = Some k" "0 < k" "k \<le> length s"
    using rp_step_consumes by blast
  then show ?case by simp
qed

declare rp_run.simps [simp del]

definition onEof :: "ResponseParser \<Rightarrow> ResponseParser" where
  "onEof p = (if rp_state p = rExpectEofBody then rp_finish p else p)"

definition rp_reset :: "ResponseParser \<Rightarrow> ResponseParser" where
  "rp_reset p =
     p\<lparr>rp_state := rExpectStatusLine, rp_response := HttpResponse_new True, lower_headers := [],
       rp_content_length := 0, rp_body_received := 0, rp_header_bytes := 0, rp_chunk_remaining := 0,
       has_content_length := False, body_accum := []\<rparr>"

section \<open>The invariant of the parse state\<close>

definition rp_failure :: "ResponseParser \<Rightarrow> unit option" where
  "rp_failure p = (if rp_state p = rError then Some () else None)"

definition rp_ok :: "ResponseParser \<Rightarrow> bool" where
  "rp_ok p =
     (smap_ok (resp_headers (rp_response p)) \<and> smap_ok (lower_headers p) \<and>
      (rp_state p = rExpectStatusLine \<or> rp_state p = rExpectHeaders \<longrightarrow>
         rp_body_received p = 0 \<and> body_accum p = []) \<and>
      (rp_state p = rExpectBody \<longrightarrow> rp_body_received p < rp_content_length p \<and>
         rp_body_received p = length (body_accum p)) \<and>
      (rp_state p = rExpectChunkData \<longrightarrow> 0 < rp_chunk_remaining p))"

lemma rp_reset_eq [simp]: "rp_reset p = ResponseParser_new"
  by (simp add: rp_reset_def ResponseParser_new_def)

lemma rp_ok_new [simp]: "rp_ok ResponseParser_new"
  by (simp add: rp_ok_def ResponseParser_new_def HttpResponse_new_def)

lemma parseStatusLine_headers: "parseStatusLine l r = Some r' \<Longrightarrow> resp_headers r' = resp_headers r"
  by (auto simp: parseStatusLine_def Let_def setStatus_def split: if_splits)

lemma rp_step_ok: "rp_ok p \<Longrightarrow> rp_step p s = (ctl, n, p') \<Longrightarrow> rp_ok p'"
proof (cases "rp_state p")
  case rExpectStatusLine
  moreover assume "rp_ok p" "rp_step p s = (ctl, n, p')"
  ultimately show ?thesis
    by (auto simp: rp_step_def rp_step_status_line_def rp_ok_def dest: parseStatusLine_headers split: option.splits)
next
  case rExpectHeaders
  moreover assume "rp_ok p" "rp_step p s = (ctl, n, p')"
  ultimately show ?thesis
    by (auto simp: rp_step_def rp_step_headers_def rp_end_of_headers_def rp_store_header_def Let_def rp_ok_def
        resp_addHeader_def smap_ok_put split: option.splits if_splits)
qed (auto simp: rp_step_defs Let_def rp_ok_def rp_finish_def setBody_def split: option.splits if_splits)

section \<open>The parser as an instance of the incremental interface\<close>

lemma rp_step_line_extend:
  assumes "rp_state p \<in> {rExpectStatusLine, rExpectHeaders, rExpectChunkSize}" "findCrlf s = Some i"
  shows "rp_step p (s @ t) = rp_step p s"
  using assms findCrlf_append [of s i t] take_findCrlf_append [of s i t]
  by (auto simp: rp_step_def rp_step_status_line_def rp_step_headers_def rp_step_chunk_size_def)

text \<open>
  A round that takes bytes into \<^verbatim>\<open>body_accum_\<close>: cut short by the end of the input, it is continued by the
  next round as if the input had arrived at once.
\<close>

lemma rp_step_body_extend:
  assumes st: "rp_state p = rExpectBody"
    and cont: "rp_step p s = (Continue, Some k, p')" and t: "t \<noteq> []"
  shows "rp_step p (s @ t) = (Continue, Some k, p') \<or>
     k = length s \<and> (\<exists>m p2. rp_step p (s @ t) = (Continue, Some (k + m), p2) \<and>
                            rp_step p' t = (Continue, Some m, p2))"
proof (cases "rp_content_length p - rp_body_received p \<le> length s")
  case True
  have "s \<noteq> []" using rp_step_consumes [OF cont] by auto
  then have "rp_step_body p (s @ t) = rp_step_body p s"
    using True by (simp add: rp_step_body_def min_absorb2 Let_def)
  then show ?thesis using st cont by (simp add: rp_step_def)
next
  case False
  then have k: "k = length s"
    and p': "p' = p\<lparr>body_accum := body_accum p @ s, rp_body_received := rp_body_received p + length s\<rparr>"
    and s: "s \<noteq> []"
    using st cont by (auto simp: rp_step_def rp_step_body_def Let_def split: if_splits)
  define m where "m = min (length t) (rp_content_length p - (rp_body_received p + length s))"
  have tk: "min (length s + length t) (rp_content_length p - rp_body_received p) = length s + m"
    using False by (simp add: m_def)
  have m: "0 < m" using False t by (simp add: m_def)
  let ?p2 = "let p1 = p\<lparr>body_accum := body_accum p @ s @ take m t,
                 rp_body_received := rp_body_received p + (length s + m)\<rparr>
      in if rp_body_received p1 = rp_content_length p1 then rp_finish p1 else p1"
  have "rp_step p (s @ t) = (Continue, Some (k + m), ?p2)"
    using st m by (simp add: rp_step_def rp_step_body_def Let_def tk k)
  moreover have "rp_step p' t = (Continue, Some m, ?p2)"
    using st m by (simp add: rp_step_def rp_step_body_def Let_def p' m_def [symmetric] add.assoc)
  ultimately show ?thesis using k by blast
qed

lemma rp_step_chunk_extend:
  assumes st: "rp_state p = rExpectChunkData"
    and cont: "rp_step p s = (Continue, Some k, p')" and t: "t \<noteq> []"
  shows "rp_step p (s @ t) = (Continue, Some k, p') \<or>
     k = length s \<and> (\<exists>m p2. rp_step p (s @ t) = (Continue, Some (k + m), p2) \<and>
                            rp_step p' t = (Continue, Some m, p2))"
proof (cases "rp_chunk_remaining p \<le> length s")
  case True
  have "s \<noteq> []" using rp_step_consumes [OF cont] by auto
  then have "rp_step_chunk_data p (s @ t) = rp_step_chunk_data p s"
    using True by (simp add: rp_step_chunk_data_def min_absorb2 Let_def)
  then show ?thesis using st cont by (simp add: rp_step_def)
next
  case False
  then have k: "k = length s"
    and p': "p' = p\<lparr>body_accum := body_accum p @ s, rp_chunk_remaining := rp_chunk_remaining p - length s\<rparr>"
    and s: "s \<noteq> []"
    using st cont by (auto simp: rp_step_def rp_step_chunk_data_def Let_def split: if_splits)
  define m where "m = min (length t) (rp_chunk_remaining p - length s)"
  have tk: "min (length s + length t) (rp_chunk_remaining p) = length s + m"
    using False by (simp add: m_def)
  have m: "0 < m" using False t by (simp add: m_def)
  let ?p2 = "let p1 = p\<lparr>body_accum := body_accum p @ s @ take m t,
                 rp_chunk_remaining := rp_chunk_remaining p - (length s + m)\<rparr>
      in if rp_chunk_remaining p1 = 0 then p1\<lparr>rp_state := rExpectChunkCrlf\<rparr> else p1"
  have "rp_step p (s @ t) = (Continue, Some (k + m), ?p2)"
    using st m by (simp add: rp_step_def rp_step_chunk_data_def Let_def tk k)
  moreover have "rp_step p' t = (Continue, Some m, ?p2)"
    using st m by (simp add: rp_step_def rp_step_chunk_data_def Let_def p' m_def [symmetric])
  ultimately show ?thesis using k by blast
qed

lemma rp_step_eof_extend:
  assumes st: "rp_state p = rExpectEofBody"
    and cont: "rp_step p s = (Continue, Some k, p')" and t: "t \<noteq> []"
  shows "k = length s \<and> (\<exists>m p2. rp_step p (s @ t) = (Continue, Some (k + m), p2) \<and>
                                rp_step p' t = (Continue, Some m, p2))"
  using assms by (auto simp: rp_step_def rp_step_eof_body_def Let_def split: if_splits)

lemma rp_step_extend:
  assumes cont: "rp_step p s = (Continue, Some k, p')" and t: "t \<noteq> []"
  shows "rp_step p (s @ t) = (Continue, Some k, p') \<or>
     k = length s \<and> (\<exists>m p2. rp_step p (s @ t) = (Continue, Some (k + m), p2) \<and>
                            rp_step p' t = (Continue, Some m, p2))"
proof (cases "rp_state p \<in> {rExpectStatusLine, rExpectHeaders, rExpectChunkSize}")
  case True
  then obtain i where "findCrlf s = Some i"
    using cont by (auto simp: rp_step_def rp_step_status_line_def rp_step_headers_def rp_step_chunk_size_def
        split: option.splits)
  then show ?thesis using rp_step_line_extend [OF True] cont by metis
next
  case False
  then consider "rp_state p = rExpectBody" | "rp_state p = rExpectChunkData" | "rp_state p = rExpectEofBody"
    | "rp_state p = rExpectChunkCrlf"
    using cont by (cases "rp_state p") (auto simp: rp_step_def)
  then show ?thesis
  proof cases
    case 1
    then show ?thesis by (rule rp_step_body_extend [OF _ cont t])
  next
    case 2
    then show ?thesis by (rule rp_step_chunk_extend [OF _ cont t])
  next
    case 3
    then show ?thesis using rp_step_eof_extend [OF _ cont t] by blast
  next
    case 4
    then show ?thesis using cont by (auto simp: rp_step_def rp_step_chunk_crlf_def split: if_splits)
  qed
qed

lemma rp_step_stop: "rp_ok p \<Longrightarrow> rp_step p s = (Stop, n, p') \<Longrightarrow> n = None \<and> p' = p"
  by (auto simp: rp_step_defs Let_def rp_ok_def split: ResponseState.splits option.splits if_splits)

lemma rp_step_fail:
  "rp_step p s = (Fail, n, p') \<Longrightarrow>
   n = None \<and> rp_failure p' = Some () \<and> rp_step p (s @ t) = (Fail, n, p')"
proof -
  assume fl: "rp_step p s = (Fail, n, p')"
  then have st: "rp_state p \<in> {rExpectStatusLine, rExpectHeaders, rExpectChunkSize}"
    and "\<exists>i. findCrlf s = Some i"
    by (auto simp: rp_step_defs Let_def split: ResponseState.splits option.splits if_splits)
  then have "rp_step p (s @ t) = rp_step p s" using rp_step_line_extend [OF st] by metis
  moreover have "n = None \<and> rp_failure p' = Some ()"
    using fl by (auto simp: rp_step_defs Let_def rp_failure_def
        split: ResponseState.splits option.splits if_splits)
  ultimately show ?thesis using fl by simp
qed

interpretation rsp: stream_parser rp_step rp_run rp_ok rp_failure
proof unfold_locales
  show "rp_run c s = (case rp_step c s of
      (Continue, n, c') \<Rightarrow> rp_run c' (skip n s) | (Stop, n, c') \<Rightarrow> (c', skip n s)
    | (Fail, n, c') \<Rightarrow> (c', skip n s))" for c s
    by (rule rp_run.simps)
next
  show "\<exists>k. n = Some k \<and> 0 < k \<and> k \<le> length s \<and> rp_ok c'"
    if "rp_ok c" "rp_step c s = (Continue, n, c')" for c s n c'
    using rp_step_consumes that(2) rp_step_ok [OF that] by blast
next
  show "rp_failure c' \<noteq> None \<and> rp_ok c' \<and> (\<forall>k. n = Some k \<longrightarrow> k \<le> length s)"
    if "rp_ok c" "rp_step c s = (Fail, n, c')" for c s n c'
    using rp_step_fail [OF that(2)] rp_step_ok [OF that] by auto
next
  show "rp_step c s = (Stop, None, c)" if "rp_failure c \<noteq> None" for c s
    using that by (simp add: rp_failure_def rp_step_def split: if_splits)
next
  show "\<exists>n2 c2. rp_step c (s @ t) = (Fail, n2, c2) \<and> rp_failure c2 = rp_failure c'"
    if "rp_ok c" "rp_step c s = (Fail, n, c')" for c s n c' t
    using rp_step_fail [OF that(2), of t] by blast
next
  show "rp_step c (s @ t) = (Continue, Some k, c') \<or>
     k = length s \<and>
     ((\<exists>m c2. rp_step c (s @ t) = (Continue, Some (k + m), c2) \<and> rp_step c' t = (Continue, Some m, c2)) \<or>
      (\<exists>n1 n2 c1 c2. rp_step c (s @ t) = (Fail, n1, c1) \<and> rp_step c' t = (Fail, n2, c2) \<and>
         rp_failure c1 = rp_failure c2))"
    if "rp_ok c" "rp_step c s = (Continue, Some k, c')" "t \<noteq> []" for c s k c' t
    using rp_step_extend [OF that(2,3)] by blast
qed (erule (1) rp_step_stop)

interpretation rspb: buffered_parser rp_step rp_run rp_ok rp_failure
  readable buf_append retrieve buf_ok rp_parse
proof unfold_locales
  show "rp_parse c b = (case rp_step c (readable b) of
      (Continue, n, c') \<Rightarrow> Option.bind (consume_opt retrieve n b) (rp_parse c')
    | (Stop, n, c') \<Rightarrow> map_option (\<lambda>b'. (rp_failure c' = None, c', b')) (consume_opt retrieve n b)
    | (Fail, n, c') \<Rightarrow> map_option (\<lambda>b'. (False, c', b')) (consume_opt retrieve n b))" for c b
    by (subst rp_parse.simps)
      (auto simp: rp_failure_def split: prod.splits loop_ctl.splits option.splits)
qed

section \<open>Parsing what the serialiser writes\<close>

lemma rp_run_continue: "rp_step p s = (Continue, n, p') \<Longrightarrow> rp_run p s = rp_run p' (skip n s)"
  by (subst rp_run.simps) simp

lemma rp_run_got_all: "rp_state p = rGotAll \<Longrightarrow> rp_run p s = (p, s)"
  by (subst rp_run.simps) (simp add: rp_step_def)

lemma rp_store_header_frame [simp]:
  "rp_state (rp_store_header k v p) = rp_state p" "rp_header_bytes (rp_store_header k v p) = rp_header_bytes p"
  "body_accum (rp_store_header k v p) = body_accum p"
  "rp_body_received (rp_store_header k v p) = rp_body_received p"
  "rp_response (rp_store_header k v p) = resp_addHeader k v (rp_response p)"
  "lower_headers (rp_store_header k v p) = smap_put (toLower k) v (lower_headers p)"
  by (simp_all add: rp_store_header_def Let_def)

definition rp_store_fields :: "(string \<times> string) list \<Rightarrow> ResponseParser \<Rightarrow> ResponseParser" where
  "rp_store_fields kvs p =
     fold (\<lambda>(k, v) q. (rp_store_header k v q)\<lparr>rp_header_bytes := rp_header_bytes q + length (header_line k v)\<rparr>) kvs p"

lemma rp_store_fields_simps [simp]:
  "rp_store_fields [] p = p"
  "rp_store_fields ((k, v) # kvs) p = rp_store_fields kvs
     ((rp_store_header k v p)\<lparr>rp_header_bytes := rp_header_bytes p + length (header_line k v)\<rparr>)"
  by (simp_all add: rp_store_fields_def)

lemma rp_store_fields_frame [simp]:
  "rp_state (rp_store_fields kvs p) = rp_state p" "body_accum (rp_store_fields kvs p) = body_accum p"
  "rp_body_received (rp_store_fields kvs p) = rp_body_received p"
  "rp_response (rp_store_fields kvs p) =
     (rp_response p)\<lparr>resp_headers := fold (\<lambda>(k, v). smap_put k v) kvs (resp_headers (rp_response p))\<rparr>"
  "lower_headers (rp_store_fields kvs p) =
     fold (\<lambda>(k, v). smap_put k v) (map (\<lambda>(k, v). (toLower k, v)) kvs) (lower_headers p)"
  by (induction kvs arbitrary: p) (auto simp: resp_addHeader_def)

lemma rp_store_fields_length:
  "\<forall>(k, v) \<in> set kvs. toLower k \<noteq> ''content-length'' \<Longrightarrow>
   has_content_length (rp_store_fields kvs p) = has_content_length p \<and>
   rp_content_length (rp_store_fields kvs p) = rp_content_length p"
  by (induction kvs arbitrary: p) (auto simp: rp_store_header_def Let_def)

lemma rp_run_header_line:
  assumes st: "rp_state p = rExpectHeaders" and f: "field_ok k v"
    and size: "rp_header_bytes p + length (header_line k v) \<le> rp_kMaxHeaderBytes"
  shows "rp_run p (header_line k v @ rest) =
    rp_run ((rp_store_header k v p)\<lparr>rp_header_bytes := rp_header_bytes p + length (header_line k v)\<rparr>) rest"
proof -
  let ?line = "k @ CHR '':'' # SP # v"
  have s: "header_line k v @ rest = ?line @ CR # LF # rest" by (simp add: header_line_def)
  have find: "findCrlf (?line @ CR # LF # rest) = Some (length ?line)"
    using f by (intro findCrlf_line) (auto simp: field_ok_def)
  have len: "length (header_line k v) = length ?line + 2" by (simp add: header_line_def)
  have st1: "rp_step p (?line @ CR # LF # rest) =
      (Continue, Some (length ?line + 2),
       (rp_store_header k v p)\<lparr>rp_header_bytes := rp_header_bytes p + (length ?line + 2)\<rparr>)"
    using st f size find
    by (simp add: rp_step_def rp_step_headers_def Let_def line_key_header line_value_header
        length_header_line field_ok_def)
  show ?thesis unfolding s len rp_run_continue [OF st1] skip.simps drop_line ..
qed

lemma rp_run_header_lines:
  assumes "rp_state p = rExpectHeaders" "\<forall>(k, v) \<in> set kvs. field_ok k v"
    "rp_header_bytes p + length (header_lines kvs) \<le> rp_kMaxHeaderBytes"
  shows "rp_run p (header_lines kvs @ rest) = rp_run (rp_store_fields kvs p) rest"
  using assms
proof (induction kvs arbitrary: p)
  case Nil
  then show ?case by simp
next
  case (Cons f kvs)
  obtain k v where f: "f = (k, v)" by force
  have "rp_run p (header_line k v @ header_lines kvs @ rest) =
      rp_run ((rp_store_header k v p)\<lparr>rp_header_bytes := rp_header_bytes p + length (header_line k v)\<rparr>)
        (header_lines kvs @ rest)"
    using Cons.prems by (intro rp_run_header_line) (auto simp: f)
  then show ?case using Cons by (simp add: f add.assoc)
qed

definition status_line :: "int \<Rightarrow> string \<Rightarrow> string" where
  "status_line code reason = ''HTTP/1.1 '' @ to_string_int code @ SP # reason"

lemma parseStatusLine_written:
  assumes "100 \<le> code" "code \<le> 599"
  shows "parseStatusLine (status_line code reason) resp = Some (setStatus code reason resp)"
proof -
  let ?code = "to_string (nat code)"
  have sl: "status_line code reason = ''HTTP/1.1'' @ SP # (?code @ SP # reason)"
    using assms by (simp add: status_line_def to_string_int_def)
  have f1: "find_char SP (status_line code reason) = 8"
    unfolding sl by (subst find_char_hit) auto
  have "SP \<notin> set ?code" using to_string_chars by fastforce
  then have f2: "find_char SP (?code @ SP # reason) = length ?code" by (rule find_char_hit)
  have d: "take 8 (status_line code reason) = ''HTTP/1.1''"
      "drop (8 + 1) (status_line code reason) = ?code @ SP # reason"
    unfolding sl by simp_all
  have "atoi ?code = int (nat code)"
    using assms by (intro atoi_to_string) simp
  then have a: "atoi (take (length ?code) (?code @ SP # reason)) = code" using assms by simp
  have ne: "length (status_line code reason) \<noteq> 8" unfolding sl by simp
  show ?thesis
    unfolding parseStatusLine_def Let_def f1 d f2 a using assms ne by simp
qed

text \<open>Responses whose fields can be written on the wire.\<close>

definition resp_wire_ok :: "HttpResponse \<Rightarrow> bool" where
  "resp_wire_ok r =
     (100 \<le> status_code r \<and> status_code r \<le> 599 \<and> status_reason r \<noteq> [] \<and> CR \<notin> set (status_reason r) \<and>
      smap_ok (resp_headers r) \<and>
      list_all (\<lambda>(k, v). field_ok k v \<and> toLower k \<noteq> ''transfer-encoding'' \<and>
                         (toLower k = ''content-length'' \<longrightarrow> k = ''Content-Length'')) (resp_headers r) \<and>
      length (resp_body r) < 2 ^ 64 \<and> length (response_head r) \<le> rp_kMaxHeaderBytes)"

definition resp_fields :: "HttpResponse \<Rightarrow> (string \<times> string) list" where
  "resp_fields r =
     (''Content-Length'', to_string (length (resp_body r))) #
     (''Connection'', if keep_alive r then ''keep-alive'' else ''close'') #
     filter (\<lambda>(k, v). \<not> (k = ''Content-Length'' \<or> k = ''Connection'')) (resp_headers r)"

lemma response_head_fields:
  "response_head r = status_line (status_code r) (status_reason r) @ CRLF @ header_lines (resp_fields r) @ CRLF"
  by (simp add: response_head_def status_line_def resp_fields_def header_line_def concat_header_lines)

lemma field_ok_resp: "resp_wire_ok r \<Longrightarrow> \<forall>(k, v) \<in> set (resp_fields r). field_ok k v"
  using to_string_chars [of _ "length (resp_body r)"] hd_in_set [OF to_string_nonempty, of "length (resp_body r)"]
  by (auto simp: resp_fields_def resp_wire_ok_def list_all_iff field_ok_def)

lemma toLower_resp_names:
  "toLower ''Content-Length'' = ''content-length''" "toLower ''Connection'' = ''connection''"
  by code_simp+

lemma resp_fields_lookup:
  assumes "smap_ok (resp_headers r)"
  shows "smap_get (fold (\<lambda>(k, v). smap_put k v) (resp_fields r) []) k =
    (if k = ''Content-Length'' then Some (to_string (length (resp_body r)))
     else if k = ''Connection'' then Some (if keep_alive r then ''keep-alive'' else ''close'')
     else smap_get (resp_headers r) k)"
proof -
  let ?P = "\<lambda>(k, v). \<not> (k = ''Content-Length'' \<or> k = ''Connection'')"
  have d: "distinct (map fst (filter ?P (resp_headers r)))"
    using assms by (simp add: smap_ok_def strict_sorted_iff distinct_map_filter)
  have "map_of (filter ?P m) k =
      (if k = ''Content-Length'' \<or> k = ''Connection'' then None else map_of m k)" for m :: "(string \<times> string) list"
    by (induction m) auto
  then have flt: "map_of (rev (filter ?P (resp_headers r))) k =
      (if k = ''Content-Length'' \<or> k = ''Connection'' then None else smap_get (resp_headers r) k)"
    using smap.map_of_rev_distinct [OF d] by (simp add: smap_get_def)
  show ?thesis
    unfolding smap.get_fold_put [OF smap_ok_Nil]
    using flt by (auto simp: resp_fields_def map_add_def split: option.splits)
qed

lemma no_transfer_encoding:
  assumes "resp_wire_ok r"
  shows "smap_get (fold (\<lambda>(k, v). smap_put k v) (map (\<lambda>(k, v). (toLower k, v)) (resp_fields r)) [])
    ''transfer-encoding'' = None"
proof -
  have "''transfer-encoding'' \<notin> fst ` set (map (\<lambda>(k, v). (toLower k, v)) (resp_fields r))"
    using assms by (auto simp: resp_fields_def resp_wire_ok_def list_all_iff toLower_resp_names)
  then show ?thesis
    unfolding smap.get_fold_put [OF smap_ok_Nil]
    by (auto simp: map_add_def map_of_eq_None_iff split: option.splits)
qed

lemma rp_parse_run:
  assumes "rp_ok p" "buf_ok b" "rp_run p (readable b) = (p1, r)"
  shows "\<exists>b'. rp_parse p b = Some (\<not> rp_hasError p1, p1, b') \<and> buf_ok b' \<and> readable b' = r"
  using rspb.parse_refines [OF assms] by (auto simp: rp_failure_def rp_hasError_def split: if_splits)

lemma rp_run_length_body:
  assumes "rp_state p = rExpectBody" "rp_body_received p = 0" "body_accum p = []"
    "rp_content_length p = length body" "body \<noteq> []"
  shows "\<exists>p'. rp_run p (body @ rest) = (p', rest) \<and> rp_gotAll p' \<and>
    rp_response p' = setBody body (rp_response p)"
proof -
  let ?p1 = "rp_finish (p\<lparr>body_accum := body, rp_body_received := length body\<rparr>)"
  have "rp_step p (body @ rest) = (Continue, Some (length body), ?p1)"
    using assms by (simp add: rp_step_def rp_step_body_def Let_def)
  then show ?thesis
    by (simp add: rp_run_continue) (simp add: rp_run_got_all rp_finish_def rp_gotAll_def)
qed

lemma rp_run_written_body:
  assumes "rp_state p = rExpectHeaders" "smap_get (lower_headers p) ''transfer-encoding'' = None"
    "has_content_length p" "rp_content_length p = length body" "rp_body_received p = 0" "body_accum p = []"
    "resp_body (rp_response p) = []"
  shows "\<exists>p'. rp_run p (CRLF @ body @ rest) = (p', rest) \<and> rp_gotAll p' \<and>
    rp_response p' = setBody body (rp_response p)"
proof -
  let ?p1 = "p\<lparr>rp_state := (if length body > 0 then rExpectBody else rGotAll)\<rparr>"
  have "rp_step p (CR # LF # body @ rest) = (Continue, Some 2, ?p1)"
    using assms by (simp add: rp_step_def rp_step_headers_def rp_end_of_headers_def)
  then have run: "rp_run p (CRLF @ body @ rest) = rp_run ?p1 (body @ rest)"
    by (simp add: rp_run_continue)
  show ?thesis
  proof (cases "body = []")
    case True
    then show ?thesis using run assms(7) by (auto simp: rp_run_got_all rp_gotAll_def setBody_def)
  next
    case False
    then show ?thesis using run rp_run_length_body [of ?p1 body rest] assms by auto
  qed
qed

lemma rp_run_status_line:
  assumes "100 \<le> code" "code \<le> 599" "CR \<notin> set reason"
  shows "rp_run ResponseParser_new (status_line code reason @ CRLF @ rest) =
    rp_run (ResponseParser_new\<lparr>rp_response := setStatus code reason (HttpResponse_new True),
              rp_state := rExpectHeaders\<rparr>) rest"
proof -
  let ?line = "status_line code reason"
  have "CR \<notin> set ?line"
    using assms to_string_chars [of CR "nat code"] by (auto simp: status_line_def to_string_int_def)
  then have "findCrlf (?line @ CR # LF # rest) = Some (length ?line)" by (rule findCrlf_line)
  then have "rp_step ResponseParser_new (?line @ CR # LF # rest) =
      (Continue, Some (length ?line + 2),
       ResponseParser_new\<lparr>rp_response := setStatus code reason (HttpResponse_new True), rp_state := rExpectHeaders\<rparr>)"
    using parseStatusLine_written [OF assms(1,2)]
    by (simp add: rp_step_def rp_step_status_line_def ResponseParser_new_def)
  then show ?thesis using drop_line [of ?line rest] by (simp add: rp_run_continue)
qed

lemma rp_run_written_response:
  assumes w: "resp_wire_ok r"
  shows "\<exists>p. rp_run ResponseParser_new (response_head r @ resp_body r @ rest) = (p, rest) \<and> rp_gotAll p \<and>
    rp_response p = (setStatus (status_code r) (status_reason r) (HttpResponse_new True))
      \<lparr>resp_headers := fold (\<lambda>(k, v). smap_put k v) (resp_fields r) [], resp_body := resp_body r\<rparr>"
proof -
  let ?resp = "setStatus (status_code r) (status_reason r) (HttpResponse_new True)"
  define p0 where "p0 = ResponseParser_new\<lparr>rp_response := ?resp, rp_state := rExpectHeaders\<rparr>"
  define p1 where "p1 = rp_store_fields (resp_fields r) p0"
  have p0: "rp_state p0 = rExpectHeaders" "rp_header_bytes p0 = 0" "lower_headers p0 = []"
      "rp_response p0 = ?resp" "body_accum p0 = []" "rp_body_received p0 = 0"
    by (simp_all add: p0_def ResponseParser_new_def)
  have "length (header_lines (resp_fields r)) \<le> rp_kMaxHeaderBytes"
    using w by (simp add: resp_wire_ok_def response_head_fields)
  then have "rp_run p0 (header_lines (resp_fields r) @ CRLF @ resp_body r @ rest) =
      rp_run p1 (CRLF @ resp_body r @ rest)"
    unfolding p1_def using p0 field_ok_resp [OF w] by (subst rp_run_header_lines) simp_all
  then have run: "rp_run ResponseParser_new (response_head r @ resp_body r @ rest) = rp_run p1 (CRLF @ resp_body r @ rest)"
    using w rp_run_status_line [of "status_code r" "status_reason r"]
    by (simp add: response_head_fields resp_wire_ok_def p0_def [symmetric])
  have tail: "\<forall>(k, v) \<in> set (tl (resp_fields r)). toLower k \<noteq> ''content-length''"
    using w by (auto simp: resp_fields_def resp_wire_ok_def list_all_iff toLower_resp_names)
  define q where "q = (rp_store_header ''Content-Length'' (to_string (length (resp_body r))) p0)
      \<lparr>rp_header_bytes := rp_header_bytes p0 +
         length (header_line ''Content-Length'' (to_string (length (resp_body r))))\<rparr>"
  have "p1 = rp_store_fields (tl (resp_fields r)) q" by (simp add: p1_def q_def resp_fields_def)
  moreover have "has_content_length q" "rp_content_length q = length (resp_body r)"
    using w by (simp_all add: q_def rp_store_header_def Let_def toLower_resp_names strtoul_to_string resp_wire_ok_def)
  ultimately have len: "has_content_length p1" "rp_content_length p1 = length (resp_body r)"
    using rp_store_fields_length [OF tail] by simp_all
  have p1: "rp_state p1 = rExpectHeaders" "smap_get (lower_headers p1) ''transfer-encoding'' = None"
      "body_accum p1 = []" "rp_body_received p1 = 0" "resp_body (rp_response p1) = []"
      "rp_response p1 = ?resp\<lparr>resp_headers := fold (\<lambda>(k, v). smap_put k v) (resp_fields r) []\<rparr>"
    using no_transfer_encoding [OF w] p0
    by (simp_all add: p1_def setStatus_def HttpResponse_new_def)
  show ?thesis
    using rp_run_written_body [OF p1(1,2) len p1(4,3,5)] p1(6) unfolding run by (auto simp: setBody_def)
qed

section \<open>Properties\<close>

abbreviation rp_feed :: "string list \<Rightarrow> ResponseParser \<Rightarrow> buffer \<Rightarrow> (ResponseParser \<times> buffer) option" where
  "rp_feed \<equiv> feed_with buf_append rp_parse"

text \<open>
  C16: a response written by the server is parsed back by the client: the status, the reason, the body and
  every header, with the two headers the serialiser manages replaced by its own, and the buffer is
  left with what follows the response.
\<close>

theorem response_roundtrip:
  assumes w: "resp_wire_ok r" and b: "HttpResponse_appendTo r (Buffer n) = Some b" "buf_append rest b = Some b1"
  shows "\<exists>p b'. rp_parse ResponseParser_new b1 = Some (True, p, b') \<and> rp_gotAll p \<and> readable b' = rest \<and>
    status_code (rp_response p) = status_code r \<and> status_reason (rp_response p) = status_reason r \<and>
    resp_body (rp_response p) = resp_body r \<and>
    resp_header (rp_response p) k =
      (if k = ''Content-Length'' then to_string (length (resp_body r))
       else if k = ''Connection'' then (if keep_alive r then ''keep-alive'' else ''close'')
       else resp_header r k)"
proof -
  have ok: "buf_ok b" "readable b = response_head r @ resp_body r"
    using HttpResponse_appendTo_spec [OF buf_ok_Buffer, of r n] b(1) by auto
  have b1: "buf_ok b1" "readable b1 = response_head r @ resp_body r @ rest"
    using bq.enqueue_contents [OF ok(1), of rest] b(2) ok(2) by auto
  obtain p where p: "rp_run ResponseParser_new (readable b1) = (p, rest)" "rp_gotAll p"
      "rp_response p = (setStatus (status_code r) (status_reason r) (HttpResponse_new True))
        \<lparr>resp_headers := fold (\<lambda>(k, v). smap_put k v) (resp_fields r) [], resp_body := resp_body r\<rparr>"
    using rp_run_written_response [OF w, of rest] b1(2) by auto
  have "\<not> rp_hasError p" using p(2) by (simp add: rp_gotAll_def rp_hasError_def)
  then obtain b' where "rp_parse ResponseParser_new b1 = Some (True, p, b')" "readable b' = rest"
    using rp_parse_run [OF rp_ok_new b1(1) p(1)] by auto
  moreover have "resp_header (rp_response p) k =
      (if k = ''Content-Length'' then to_string (length (resp_body r))
       else if k = ''Connection'' then (if keep_alive r then ''keep-alive'' else ''close'')
       else resp_header r k)"
    using resp_fields_lookup [of r k] w by (simp add: resp_header_def p(3) resp_wire_ok_def)
  ultimately show ?thesis
    using p w by (auto simp: setStatus_def resp_wire_ok_def)
qed

definition sample_response :: HttpResponse where
  "sample_response = setBody ''hey'' (resp_addHeader ''X-Id'' ''7'' (setStatus 404 [] (HttpResponse_new False)))"

lemma sample_response_fields:
  "status_code sample_response = 404" "status_reason sample_response = ''Not Found''"
  "resp_headers sample_response = [(''X-Id'', ''7'')]" "resp_body sample_response = ''hey''"
  "keep_alive sample_response = False"
  by (simp_all add: sample_response_def setBody_def resp_addHeader_def setStatus_def HttpResponse_new_def
      defaultReason_def)

lemma sample_response_wire_ok: "resp_wire_ok sample_response"
proof -
  have t: "toLower ''X-Id'' = ''x-id''" by code_simp
  have "length (to_string 404) = 3" "length (to_string (Suc (Suc (Suc 0)))) = 1"
    by (simp_all add: to_string.simps)
  then show ?thesis
    by (simp add: resp_wire_ok_def sample_response_fields field_ok_def t smap_ok_def
        response_head_def to_string_int_def header_line_def rp_kMaxHeaderBytes_def)
qed

theorem response_roundtrip_witness:
  "\<exists>b b1 p b'. HttpResponse_appendTo sample_response (Buffer 64) = Some b \<and> buf_append ''HTTP'' b = Some b1 \<and>
     rp_parse ResponseParser_new b1 = Some (True, p, b') \<and> status_code (rp_response p) = 404 \<and>
     resp_body (rp_response p) = ''hey'' \<and> resp_header (rp_response p) ''X-Id'' = ''7'' \<and> readable b' = ''HTTP''"
proof -
  obtain b where b: "HttpResponse_appendTo sample_response (Buffer 64) = Some b" "buf_ok b"
    using HttpResponse_appendTo_spec [OF buf_ok_Buffer] by blast
  obtain b1 where b1: "buf_append ''HTTP'' b = Some b1"
    using bq.enqueue_contents [OF b(2)] by blast
  show ?thesis
    using response_roundtrip [OF sample_response_wire_ok b(1) b1, of "''X-Id''"] b(1) b1
    by (auto simp: sample_response_fields resp_header_def smap_get_def)
qed

lemma onEof_outcome:
  assumes "outcome rp_failure (p1, r1) = outcome rp_failure (p2, r2)"
  shows "outcome rp_failure (onEof p1, r1) = outcome rp_failure (onEof p2, r2)"
  using assms
  by (auto simp: outcome_def rp_failure_def onEof_def rp_finish_def split: if_splits option.splits)

text \<open>
  C17: parsing a response does not depend on how the input is cut into segments, with or without the end of the
  stream: after \<^verbatim>\<open>onEof\<close> both runs have failed or both hold the same response, the same parse state
  and the same unread bytes. No assertion of the buffer fails.
\<close>

theorem response_segmentation:
  "\<exists>p1 b1 p2 b2.
     rp_feed segs ResponseParser_new (Buffer n) = Some (p1, b1) \<and>
     rp_feed [concat segs] ResponseParser_new (Buffer n) = Some (p2, b2) \<and>
     outcome rp_failure (p1, readable b1) = outcome rp_failure (p2, readable b2) \<and>
     outcome rp_failure (onEof p1, readable b1) = outcome rp_failure (onEof p2, readable b2)"
proof -
  have q: "rp_run ResponseParser_new (readable (Buffer n)) = (ResponseParser_new, readable (Buffer n))"
    by (subst rp_run.simps) (simp add: rp_step_def ResponseParser_new_def rp_step_status_line_def)
  note feed = rspb.feed_outcome [OF rp_ok_new buf_ok_Buffer q]
  obtain p1 b1 where 1: "rp_feed segs ResponseParser_new (Buffer n) = Some (p1, b1)"
      "outcome rp_failure (p1, readable b1) = outcome rp_failure (rp_run ResponseParser_new (readable (Buffer n) @ concat segs))"
    using feed [of segs] by blast
  obtain p2 b2 where 2: "rp_feed [concat segs] ResponseParser_new (Buffer n) = Some (p2, b2)"
      "outcome rp_failure (p2, readable b2) = outcome rp_failure (rp_run ResponseParser_new (readable (Buffer n) @ concat segs))"
    using feed [of "[concat segs]"] by auto
  have "outcome rp_failure (p1, readable b1) = outcome rp_failure (p2, readable b2)" using 1 2 by simp
  then show ?thesis using 1 2 onEof_outcome by blast
qed

text \<open>
  a body delimited by the end of the stream. Once the head is read without a framing header, every
  segmentation of the rest leaves the response incomplete, and \<^verbatim>\<open>onEof\<close> completes it with exactly the
  bytes received since.
\<close>

theorem eof_body_collected:
  assumes "rp_ok p" "rp_state p = rExpectEofBody" "buf_ok b" "readable b = []"
  shows "\<exists>p1 b1. rp_feed segs p b = Some (p1, b1) \<and> \<not> rp_gotAll p1 \<and> readable b1 = [] \<and>
    rp_gotAll (onEof p1) \<and> resp_body (rp_response (onEof p1)) = body_accum p @ concat segs"
proof -
  have run: "rp_run p s = (p\<lparr>body_accum := body_accum p @ s\<rparr>, [])" if "rp_state p = rExpectEofBody" for p s
    using that by (cases "s = []"; subst rp_run.simps; simp add: rp_step_def rp_step_eof_body_def)
      (subst rp_run.simps, simp add: rp_step_def rp_step_eof_body_def)
  have q: "rp_run p (readable b) = (p, readable b)" using run [OF assms(2), of "[]"] assms(4) by simp
  obtain p1 b1 where pb: "rp_feed segs p b = Some (p1, b1)"
      "outcome rp_failure (p1, readable b1) = outcome rp_failure (rp_run p (concat segs))"
    using rspb.feed_outcome [OF assms(1,3) q, of segs] assms(4) by auto
  then have "p1 = p\<lparr>body_accum := body_accum p @ concat segs\<rparr>" "readable b1 = []"
    using run [OF assms(2)] assms(2) by (auto simp: outcome_def rp_failure_def split: option.splits if_splits)
  then show ?thesis
    using pb(1) assms(2) by (simp add: onEof_def rp_finish_def rp_gotAll_def setBody_def)
qed

theorem eof_body_collected_witness:
  "\<exists>p1 b1. rp_feed [''ab'', ''c''] (ResponseParser_new\<lparr>rp_state := rExpectEofBody\<rparr>) (Buffer 16) = Some (p1, b1) \<and>
     resp_body (rp_response (onEof p1)) = ''abc''"
proof -
  have "rp_ok (ResponseParser_new\<lparr>rp_state := rExpectEofBody\<rparr>)"
    by (simp add: rp_ok_def ResponseParser_new_def HttpResponse_new_def)
  then show ?thesis
    using eof_body_collected [of "ResponseParser_new\<lparr>rp_state := rExpectEofBody\<rparr>" "Buffer 16" "[''ab'', ''c'']"]
    by (auto simp: ResponseParser_new_def)
qed

end
