(* ===== verification/Http_Router.thy ===== *)
theory Http_Router
  imports Http_Message
begin

text \<open>
  The REST router, \<^verbatim>\<open>http/router.h\<close> and \<^verbatim>\<open>http/router.cc\<close>: the index loop that splits a path, the
  registration of patterns, the match of one route with its captured parameters, and the
  dispatch loop. The theory shows that splitting is splitting at slashes without empty segments,
  that dispatch picks the first route of the right method and distinguishes 404 from 405, and
  that encoded path values come back decoded, an encoded slash included.
\<close>

type_synonym path_params = "(string, string) smap"
type_synonym handler = "HttpRequest \<Rightarrow> path_params \<Rightarrow> HttpResponse \<Rightarrow> HttpResponse"

record Route =
  route_method :: Method
  segments :: "string list"
  is_param :: "bool list"
  route_handler :: handler

section \<open>Operations\<close>

lemma str_find_after:
  "i < length path \<Longrightarrow> path ! i \<noteq> c \<Longrightarrow>
   i < (case str_find c path i of None \<Rightarrow> length path | Some j \<Rightarrow> j)"
  by (auto simp: str_find_def Let_def Cons_nth_drop_Suc [symmetric] split: option.splits if_splits)

text \<open>The loop of \<^verbatim>\<open>splitPath\<close> from index \<open>i\<close>.\<close>

function splitPath_from :: "string \<Rightarrow> nat \<Rightarrow> string list" where
  "splitPath_from path i =
     (if i < length path
      then if path ! i = CHR ''/'' then splitPath_from path (i + 1)
           else (let j = (case str_find (CHR ''/'') path i of None \<Rightarrow> length path | Some j \<Rightarrow> j)
                 in substr path i (j - i) # splitPath_from path j)
      else [])"
  by pat_completeness auto

termination
  by (relation "measure (\<lambda>(path, i). length path - i)") (auto intro!: diff_less_mono2 str_find_after)

declare splitPath_from.simps [simp del]

definition splitPath :: "string \<Rightarrow> string list" where
  "splitPath path = splitPath_from path 0"

text \<open>The loop body of \<^verbatim>\<open>addRoute\<close>: a segment \<^verbatim>\<open>{name}\<close> is a parameter and loses its braces.\<close>

definition param_segment :: "string \<Rightarrow> bool" where
  "param_segment seg = (length seg \<ge> 2 \<and> hd seg = CHR ''{'' \<and> last seg = CHR ''}'')"

definition strip_segment :: "string \<Rightarrow> string" where
  "strip_segment seg = (if param_segment seg then substr seg 1 (length seg - 2) else seg)"

definition addRoute :: "Method \<Rightarrow> string \<Rightarrow> handler \<Rightarrow> Route list \<Rightarrow> Route list" where
  "addRoute method pattern handler routes =
     (let segs = splitPath pattern in
      routes @ [\<lparr>route_method = method, segments = map strip_segment segs,
                 is_param = map param_segment segs, route_handler = handler\<rparr>])"

definition router_get :: "string \<Rightarrow> handler \<Rightarrow> Route list \<Rightarrow> Route list" where
  "router_get pattern h routes = addRoute kGet pattern h routes"

definition router_post :: "string \<Rightarrow> handler \<Rightarrow> Route list \<Rightarrow> Route list" where
  "router_post pattern h routes = addRoute kPost pattern h routes"

definition router_put :: "string \<Rightarrow> handler \<Rightarrow> Route list \<Rightarrow> Route list" where
  "router_put pattern h routes = addRoute kPut pattern h routes"

definition router_del :: "string \<Rightarrow> handler \<Rightarrow> Route list \<Rightarrow> Route list" where
  "router_del pattern h routes = addRoute kDelete pattern h routes"

text \<open>The loop of \<^verbatim>\<open>matchRoute\<close>; the three vectors have the same length when it starts.\<close>

fun match_segments :: "string list \<Rightarrow> bool list \<Rightarrow> string list \<Rightarrow> path_params \<Rightarrow> path_params option" where
  "match_segments (seg # segs) (p # ps) (x # xs) captured =
     (if p then match_segments segs ps xs (smap_put seg (urlDecode False x) captured)
      else if seg \<noteq> x then None
      else match_segments segs ps xs captured)"
| "match_segments _ _ _ captured = Some captured"

text \<open>\<^verbatim>\<open>matchRoute\<close>: \<open>None\<close> is false, \<open>Some\<close> is true with the parameters written.\<close>

definition matchRoute :: "Route \<Rightarrow> string list \<Rightarrow> path_params option" where
  "matchRoute r path_segs =
     (if length (segments r) \<noteq> length path_segs then None
      else match_segments (segments r) (is_param r) path_segs [])"

text \<open>The loop over the routes: the result of the handler that ran, or whether some path matched.\<close>

fun route_loop :: "Route list \<Rightarrow> string list \<Rightarrow> bool \<Rightarrow> HttpRequest \<Rightarrow> HttpResponse \<Rightarrow> HttpResponse + bool" where
  "route_loop [] path_segs path_matched req resp = Inr path_matched"
| "route_loop (r # rs) path_segs path_matched req resp =
     (case matchRoute r path_segs of
        Some params \<Rightarrow>
          if route_method r = req_method req then Inl (route_handler r req params resp)
          else route_loop rs path_segs True req resp
      | None \<Rightarrow> route_loop rs path_segs path_matched req resp)"

definition route :: "Route list \<Rightarrow> HttpRequest \<Rightarrow> HttpResponse \<Rightarrow> bool \<times> HttpResponse" where
  "route routes req resp =
     (case route_loop routes (splitPath (req_path req)) False req resp of
        Inl resp' \<Rightarrow> (True, resp')
      | Inr path_matched \<Rightarrow>
          if path_matched
          then (False, setBody ''Method Not Allowed'' (setContentType ''text/plain'' (setStatus 405 [] resp)))
          else (False, setBody ''Not Found'' (setContentType ''text/plain'' (setStatus 404 [] resp))))"

section \<open>Splitting a path\<close>

lemma splitPath_from_slash:
  "i < length path \<Longrightarrow> path ! i = CHR ''/'' \<Longrightarrow> splitPath_from path i = splitPath_from path (i + 1)"
  by (subst splitPath_from.simps) simp

lemma splitPath_from_split:
  "splitPath_from path i = filter (\<lambda>s. s \<noteq> []) (split_on (CHR ''/'') (drop i path))"
proof (induction "length path - i" arbitrary: i rule: less_induct)
  case less
  let ?d = "drop i path"
  let ?n = "find_char (CHR ''/'') ?d"
  show ?case
  proof (cases "i < length path")
    case False
    then show ?thesis by (subst splitPath_from.simps) (simp add: split_on_miss)
  next
    case i: True
    then have d: "?d = path ! i # drop (Suc i) path" by (simp add: Cons_nth_drop_Suc)
    show ?thesis
    proof (cases "path ! i = CHR ''/''")
      case True
      then have "split_on (CHR ''/'') ?d = [] # split_on (CHR ''/'') (drop (Suc i) path)"
        unfolding d by (subst split_on.simps) simp
      then show ?thesis
        using less.hyps [of "Suc i"] i True by (simp add: splitPath_from_slash)
    next
      case False
      define j where "j = i + ?n"
      have n: "0 < ?n" using False d by simp
      have jc: "(case str_find (CHR ''/'') path i of None \<Rightarrow> length path | Some j \<Rightarrow> j) = j"
        using i find_char_le [of "CHR ''/''" ?d] by (auto simp: str_find_def Let_def j_def)
      have j: "j \<le> length path" using i find_char_le [of "CHR ''/''" ?d] by (simp add: j_def)
      have step: "splitPath_from path i = take ?n ?d # splitPath_from path j"
        using i False by (subst splitPath_from.simps) (simp add: jc Let_def substr_def j_def)
      have IH: "splitPath_from path j = filter (\<lambda>s. s \<noteq> []) (split_on (CHR ''/'') (drop j path))"
        using less.hyps [of j] i n by (simp add: j_def)
      show ?thesis
      proof (cases "?n < length ?d")
        case True
        then have jl: "j < length path" unfolding j_def length_drop by linarith
        have "CHR ''/'' \<in> set ?d" using True unfolding find_char_less .
        then have slash: "drop j path = CHR ''/'' # drop (Suc ?n) ?d"
          using nth_find_char [of "CHR ''/''" ?d] Cons_nth_drop_Suc [OF jl] i
          by (simp add: j_def add.commute)
        have "split_on (CHR ''/'') (drop j path) = [] # split_on (CHR ''/'') (drop (Suc ?n) ?d)"
          unfolding slash by (subst split_on.simps) simp
        moreover have "split_on (CHR ''/'') ?d = take ?n ?d # split_on (CHR ''/'') (drop (Suc ?n) ?d)"
          using True by (subst split_on.simps) (simp add: Let_def)
        ultimately show ?thesis using step IH n i by simp
      next
        case miss: False
        then have "j = length path" "?n = length ?d"
          using i find_char_le [of "CHR ''/''" ?d] by (simp_all add: j_def)
        moreover have "split_on (CHR ''/'') ?d = [?d]"
          using miss by (subst split_on.simps) (simp add: Let_def)
        ultimately show ?thesis using step IH i by (simp add: split_on_miss)
      qed
    qed
  qed
qed

lemma splitPath_split: "splitPath path = filter (\<lambda>s. s \<noteq> []) (split_on (CHR ''/'') path)"
  by (simp add: splitPath_def splitPath_from_split)

definition join_path :: "string list \<Rightarrow> string" where
  "join_path segs = concat (map (\<lambda>s. CHR ''/'' # s) segs)"

lemma splitPath_join:
  "\<forall>s \<in> set segs. s \<noteq> [] \<and> CHR ''/'' \<notin> set s \<Longrightarrow> splitPath (join_path segs) = segs"
proof (cases segs)
  case Nil
  then show ?thesis by (simp add: splitPath_split join_path_def split_on_miss)
next
  case (Cons s0 rest)
  assume ok: "\<forall>s \<in> set segs. s \<noteq> [] \<and> CHR ''/'' \<notin> set s"
  have "CHR ''/'' \<notin> set s \<Longrightarrow> \<forall>s \<in> set rest. CHR ''/'' \<notin> set s \<Longrightarrow>
      split_on (CHR ''/'') (s @ join_path rest) = s # rest" for s
  proof (induction rest arbitrary: s)
    case Nil
    then show ?case by (simp add: join_path_def split_on_miss)
  next
    case (Cons x xs)
    then show ?case
      using split_on_hit [of "CHR ''/''" s "x @ join_path xs"] by (simp add: join_path_def)
  qed
  then have "split_on (CHR ''/'') (s0 @ join_path rest) = s0 # rest" using ok Cons by simp
  moreover have "join_path segs = [] @ CHR ''/'' # (s0 @ join_path rest)"
    using Cons by (simp add: join_path_def)
  ultimately have "split_on (CHR ''/'') (join_path segs) = [] # segs"
    using split_on_hit [of "CHR ''/''" "[]" "s0 @ join_path rest"] Cons by simp
  then show ?thesis using ok by (simp add: splitPath_split)
qed

section \<open>Matching\<close>

text \<open>A pattern as the documentation reads it: literal segments and named ones.\<close>

fun pattern_match :: "string list \<Rightarrow> string list \<Rightarrow> bool" where
  "pattern_match [] [] = True"
| "pattern_match (p # ps) (x # xs) = ((param_segment p \<or> p = x) \<and> pattern_match ps xs)"
| "pattern_match _ _ = False"

definition captures :: "string list \<Rightarrow> string list \<Rightarrow> (string \<times> string) list" where
  "captures ps xs = map (\<lambda>(p, x). (strip_segment p, urlDecode False x))
     (filter (\<lambda>(p, x). param_segment p) (zip ps xs))"

lemma match_segments_pattern:
  "length ps = length xs \<Longrightarrow>
   match_segments (map strip_segment ps) (map param_segment ps) xs captured =
     (if pattern_match ps xs then Some (fold (\<lambda>(k, v). smap_put k v) (captures ps xs) captured) else None)"
  by (induction ps xs arbitrary: captured rule: pattern_match.induct)
    (auto simp: captures_def strip_segment_def)

lemma pattern_match_length: "pattern_match ps xs \<Longrightarrow> length ps = length xs"
  by (induction ps xs rule: pattern_match.induct) auto

definition made_route :: "Method \<times> string \<times> handler \<Rightarrow> Route" where
  "made_route = (\<lambda>(m, pattern, h).
     \<lparr>route_method = m, segments = map strip_segment (splitPath pattern),
      is_param = map param_segment (splitPath pattern), route_handler = h\<rparr>)"

lemma matchRoute_made:
  "matchRoute (made_route (m, pattern, h)) xs =
     (if pattern_match (splitPath pattern) xs
      then Some (fold (\<lambda>(k, v). smap_put k v) (captures (splitPath pattern) xs) []) else None)"
  using pattern_match_length [of "splitPath pattern" xs]
  by (auto simp: matchRoute_def made_route_def match_segments_pattern)

definition add_all :: "(Method \<times> string \<times> handler) list \<Rightarrow> Route list" where
  "add_all regs = fold (\<lambda>(m, pattern, h). addRoute m pattern h) regs []"

lemma add_all_routes: "add_all regs = map made_route regs"
proof -
  have "fold (\<lambda>(m, pattern, h). addRoute m pattern h) regs rs = rs @ map made_route regs" for rs
    by (induction regs arbitrary: rs) (auto simp: addRoute_def made_route_def Let_def)
  then show ?thesis by (simp add: add_all_def)
qed

text \<open>
  Dispatch as documented: the first registration whose path and method fit runs its handler; otherwise 405
  when some path fits, else 404.
\<close>

definition dispatch :: "(Method \<times> string \<times> handler) list \<Rightarrow> HttpRequest \<Rightarrow> HttpResponse \<Rightarrow> bool \<times> HttpResponse" where
  "dispatch regs req resp =
     (let xs = splitPath (req_path req) in
      case find (\<lambda>(m, pattern, h). pattern_match (splitPath pattern) xs \<and> m = req_method req) regs of
        Some (m, pattern, h) \<Rightarrow>
          (True, h req (fold (\<lambda>(k, v). smap_put k v) (captures (splitPath pattern) xs) []) resp)
      | None \<Rightarrow>
          (False,
           if list_ex (\<lambda>(m, pattern, h). pattern_match (splitPath pattern) xs) regs
           then setBody ''Method Not Allowed'' (setContentType ''text/plain'' (setStatus 405 [] resp))
           else setBody ''Not Found'' (setContentType ''text/plain'' (setStatus 404 [] resp))))"

lemma route_method_made [simp]:
  "route_method (made_route (m, pattern, h)) = m" "route_handler (made_route (m, pattern, h)) = h"
  by (simp_all add: made_route_def)

lemma route_loop_made:
  "route_loop (map made_route regs) xs pm req resp =
     (case find (\<lambda>(m, pattern, h). pattern_match (splitPath pattern) xs \<and> m = req_method req) regs of
        Some (m, pattern, h) \<Rightarrow> Inl (h req (fold (\<lambda>(k, v). smap_put k v) (captures (splitPath pattern) xs) []) resp)
      | None \<Rightarrow> Inr (pm \<or> list_ex (\<lambda>(m, pattern, h). pattern_match (splitPath pattern) xs) regs))"
proof (induction regs arbitrary: pm)
  case Nil
  then show ?case by simp
next
  case (Cons reg regs)
  obtain m pattern h where "reg = (m, pattern, h)" by (cases reg)
  then show ?case
    using Cons by (cases "pattern_match (splitPath pattern) xs") (simp_all add: matchRoute_made split: option.split)
qed

text \<open>
  C28: dispatch. After any sequence of registrations, \<^verbatim>\<open>route\<close> runs the handler of the first registration whose
  pattern fits the path segment by segment and whose method is the request's, with the decoded
  captures; without one it answers 405 when some pattern fits the path and 404 otherwise, and
  reports that no handler ran.
\<close>

theorem route_is_dispatch: "route (add_all regs) req resp = dispatch regs req resp"
  unfolding route_def add_all_routes route_loop_made dispatch_def Let_def
  by (simp split: option.split)

section \<open>Path parameters\<close>

definition braced :: "string \<Rightarrow> string" where
  "braced name = CHR ''{'' # name @ [CHR ''}'']"

lemma braced_facts [simp]:
  "param_segment (braced n)" "strip_segment (braced n) = n" "braced n \<noteq> []"
  "CHR ''/'' \<in> set (braced n) \<longleftrightarrow> CHR ''/'' \<in> set n"
  by (auto simp: braced_def param_segment_def strip_segment_def substr_def)

lemma pattern_match_braced: "length ns = length xs \<Longrightarrow> pattern_match (map braced ns) xs"
  by (induction ns xs rule: list_induct2) auto

lemma captures_braced:
  "length ns = length vs \<Longrightarrow> captures (map braced ns) (map urlEncode vs) = zip ns vs"
  by (induction ns vs rule: list_induct2) (auto simp: captures_def)

lemma urlEncode_eq_Nil [simp]: "urlEncode v = [] \<longleftrightarrow> v = []"
  by (cases v) (simp_all add: encode_char_def Let_def)

text \<open>
  Path parameters come back as they were encoded. For a pattern of named segments with distinct names
  and a path whose segments are the percent encodings of non-empty values, the route matches
  and every parameter is bound to its value, also when a value holds a slash: an encoded slash
  never adds a path level.
\<close>

theorem path_params_roundtrip:
  assumes "length ns = length vs" "distinct ns" "\<forall>n \<in> set ns. CHR ''/'' \<notin> set n" "\<forall>v \<in> set vs. v \<noteq> []"
    and "i < length ns"
  shows "\<exists>params. matchRoute (hd (addRoute m (join_path (map braced ns)) h [])) (splitPath (join_path (map urlEncode vs)))
      = Some params \<and> smap_get params (ns ! i) = Some (vs ! i)"
proof -
  have p: "splitPath (join_path (map braced ns)) = map braced ns"
    using assms(3) by (intro splitPath_join) auto
  have x: "splitPath (join_path (map urlEncode vs)) = map urlEncode vs"
    using assms(4) by (intro splitPath_join) (auto simp: urlEncode_no_delimiter)
  have r: "hd (addRoute m (join_path (map braced ns)) h []) = made_route (m, join_path (map braced ns), h)"
    by (simp add: addRoute_def made_route_def Let_def)
  let ?params = "fold (\<lambda>(k, v). smap_put k v) (zip ns vs) []"
  have "matchRoute (made_route (m, join_path (map braced ns), h)) (map urlEncode vs) = Some ?params"
    using assms(1) by (simp add: matchRoute_made p pattern_match_braced captures_braced)
  moreover have "smap_get ?params (ns ! i) = Some (vs ! i)"
  proof -
    have "map_of (rev (zip ns vs)) (ns ! i) = map_of (zip ns vs) (ns ! i)"
      using assms(1,2) by (simp add: smap.map_of_rev_distinct)
    also have "\<dots> = Some (vs ! i)" using assms(1,2,5) by (simp add: map_of_zip_nth)
    finally show ?thesis unfolding smap.get_fold_put [OF smap_ok_Nil] by simp
  qed
  ultimately show ?thesis using r x by simp
qed

theorem path_params_roundtrip_witness:
  "\<exists>params. matchRoute (hd (addRoute kGet (join_path (map braced [''dir'', ''file''])) (\<lambda>_ _ r. r) []))
      (splitPath (join_path (map urlEncode [''a'', ''x/y z'']))) = Some params \<and>
    smap_get params ''file'' = Some ''x/y z''"
  using path_params_roundtrip [of "[''dir'', ''file'']" "[''a'', ''x/y z'']" 1 kGet "\<lambda>_ _ r. r"] by simp

end
