(* ===== verification/Http_Server.thy ===== *)
theory Http_Server
  imports Http_Context_Props Complex_Main
begin

text \<open>
  The HTTP server, \<^verbatim>\<open>http/http_server.h\<close> and \<^verbatim>\<open>http/http_server.cc\<close>: the per-connection state, connection set-up
  and tear-down, and \<^verbatim>\<open>processInput\<close>, which parses, dispatches and answers requests until the
  buffered input runs out. The transport behind \<^verbatim>\<open>send\<close> and \<^verbatim>\<open>close\<close> is a list of effects. The
  request handler, the time it takes and the TLS engine are parameters. The theory shows
  that every call returns, that pipelined requests are answered one by one in order, and that
  the answers do not depend on how the input is cut into reads.
\<close>

section \<open>State\<close>

type_synonym http_handler = "HttpRequest \<Rightarrow> HttpResponse \<Rightarrow> HttpResponse"

text \<open>What the server does to a connection and to its observers, in order.\<close>

datatype server_effect = Send string | Notify int real | Close | TlsStart | ObserveConnection

record PerConn =
  pc_ctx :: HttpContext
  pc_tls :: bool
  pc_in :: buffer

record HttpServer =
  srv_tls :: bool
  srv_handler :: "http_handler option"
  srv_handler_secs :: "HttpRequest \<Rightarrow> real"
  srv_request_observer :: bool
  srv_connection_observer :: bool
  srv_max_body_bytes :: nat
  srv_idle_timeout :: nat
  conns :: "(string, PerConn) smap"

definition HttpServer_new :: "bool \<Rightarrow> (HttpRequest \<Rightarrow> real) \<Rightarrow> HttpServer" where
  "HttpServer_new tls secs =
     \<lparr>srv_tls = tls, srv_handler = None, srv_handler_secs = secs, srv_request_observer = False,
      srv_connection_observer = False, srv_max_body_bytes = kDefaultMaxBodyBytes, srv_idle_timeout = 60,
      conns = []\<rparr>"

definition setHttpHandler :: "http_handler \<Rightarrow> HttpServer \<Rightarrow> HttpServer" where
  "setHttpHandler h srv = srv\<lparr>srv_handler := Some h\<rparr>"

definition setMaxBodySize :: "nat \<Rightarrow> HttpServer \<Rightarrow> HttpServer" where
  "setMaxBodySize bytes srv = srv\<lparr>srv_max_body_bytes := bytes\<rparr>"

definition setKeepAliveTimeout :: "nat \<Rightarrow> HttpServer \<Rightarrow> HttpServer" where
  "setKeepAliveTimeout seconds srv = srv\<lparr>srv_idle_timeout := seconds\<rparr>"

section \<open>Operations\<close>

definition errorResponse :: "Error \<Rightarrow> string" where
  "errorResponse e =
     (if e = kTooLarge
      then ''HTTP/1.1 413 Payload Too Large'' @ CRLF @ ''Content-Length: 0'' @ CRLF @
           ''Connection: close'' @ CRLF @ CRLF
      else ''HTTP/1.1 400 Bad Request'' @ CRLF @ ''Content-Length: 0'' @ CRLF @
           ''Connection: close'' @ CRLF @ CRLF)"

definition notify :: "HttpServer \<Rightarrow> int \<Rightarrow> real \<Rightarrow> server_effect list" where
  "notify srv status secs = (if srv_request_observer srv then [Notify status secs] else [])"

text \<open>The branch taken when \<^verbatim>\<open>parseRequest\<close> returns false.\<close>

definition reject :: "HttpServer \<Rightarrow> HttpContext \<Rightarrow> server_effect list" where
  "reject srv ctx =
     (let status = (if ctx_error ctx = kTooLarge then 413 else 400) in
      Send (errorResponse (ctx_error ctx)) # notify srv status 0 @ [Close])"

text \<open>Running the handler on a complete request; without one the answer is 404.\<close>

definition run_handler :: "HttpServer \<Rightarrow> HttpRequest \<Rightarrow> HttpResponse" where
  "run_handler srv req =
     (let resp = HttpResponse_new (keepAlive req) in
      case srv_handler srv of
        Some h \<Rightarrow> h req resp
      | None \<Rightarrow> setBody ''No handler'' (setStatus 404 [] resp))"

text \<open>\<^verbatim>\<open>resp.appendTo(&out); send(out.retrieveAllAsString())\<close> on a fresh buffer.\<close>

definition response_bytes :: "HttpResponse \<Rightarrow> string option" where
  "response_bytes resp = do {
     out \<leftarrow> HttpResponse_appendTo resp (Buffer kInitialSize);
     (data, out') \<leftarrow> retrieveAllAsString out;
     Some data
   }"

text \<open>The body of the loop up to \<^verbatim>\<open>ctx.reset()\<close>.\<close>

definition answer :: "HttpServer \<Rightarrow> HttpRequest \<Rightarrow> server_effect list option" where
  "answer srv req = do {
     let resp = run_handler srv req;
     data \<leftarrow> response_bytes (setKeepAlive (keepAlive req) resp);
     Some (notify srv (status_code resp) (srv_handler_secs srv req) @ [Send data])
   }"

lemma parseRequest_shrinks:
  "parseRequest c b = Some (ok, c', b') \<Longrightarrow>
   readableBytes b' \<le> readableBytes b \<and>
   (ctx_state c = kExpectRequestLine \<and> gotAll c' \<longrightarrow> readableBytes b' < readableBytes b)"
proof (induction c b rule: parseRequest.induct)
  case (1 c b)
  obtain ctl n c1 where st: "context_step c (readable b) = (ctl, n, c1)" by (cases "context_step c (readable b)")
  have opt: "consume_opt retrieve n b = Some b2 \<Longrightarrow> readableBytes b2 \<le> readableBytes b" for b2
    by (cases n) (auto simp: retrieve_def retrieveAll_def readableBytes_def split: if_splits)
  show ?case
  proof (cases ctl)
    case Continue
    then obtain k where k: "n = Some k" "0 < k" "k \<le> length (readable b)"
      using context_step_consumes st by blast
    obtain b2 where b2: "retrieve k b = Some b2" "parseRequest c1 b2 = Some (ok, c', b')"
      using "1.prems" st Continue k by (subst (asm) parseRequest.simps) (auto split: option.splits)
    then have "readableBytes b' \<le> readableBytes b2"
      using "1.IH" [OF st [symmetric] Continue refl, of b2] k by simp
    then show ?thesis using retrieve_shrinks [OF k(2,3) b2(1)] by simp
  next
    case Stop
    have "\<not> gotAll c1" if "ctx_state c = kExpectRequestLine"
      using that st Stop by (auto simp: context_step_def step_request_line_def gotAll_def split: option.splits if_splits prod.splits)
    then show ?thesis
      using "1.prems" st Stop opt by (subst (asm) parseRequest.simps) auto
  next
    case Fail
    have "\<not> gotAll c1"
      using context_step_fail [of c "readable b" n c1] st Fail by (auto simp: context_failure_def gotAll_def split: if_splits)
    then show ?thesis
      using "1.prems" st Fail opt by (subst (asm) parseRequest.simps) auto
  qed
qed

lemma HttpContext_reset_state [simp]: "ctx_state (HttpContext_reset c) = kExpectRequestLine"
  "max_body_bytes (HttpContext_reset c) = max_body_bytes c"
  by (simp_all add: HttpContext_reset_def)

text \<open>
  \<^verbatim>\<open>while (ctx.gotAll())\<close>: the context and the input buffer afterwards, and the effects. A complete
  request consumes at least one byte, so the loop ends.
\<close>

function serve_loop ::
  "HttpServer \<Rightarrow> HttpContext \<Rightarrow> buffer \<Rightarrow> (HttpContext \<times> buffer \<times> server_effect list) option" where
  "serve_loop srv ctx inb =
     (if gotAll ctx
      then
        (case answer srv (ctx_request ctx) of
           None \<Rightarrow> None
         | Some effs \<Rightarrow>
             (let ctx1 = HttpContext_reset ctx in
              if \<not> keepAlive (ctx_request ctx) then Some (ctx1, inb, effs @ [Close])
              else
                (case parseRequest ctx1 inb of
                   None \<Rightarrow> None
                 | Some (ok, ctx2, inb2) \<Rightarrow>
                     if \<not> ok then Some (ctx2, inb2, effs @ reject srv ctx2)
                     else map_option (\<lambda>(ctx3, inb3, later). (ctx3, inb3, effs @ later))
                            (serve_loop srv ctx2 inb2))))
      else Some (ctx, inb, []))"
  by pat_completeness auto
termination
proof (relation "measure (\<lambda>(srv, ctx, inb). 2 * readableBytes inb + (if gotAll ctx then 1 else 0))", goal_cases)
  case 1
  then show ?case by simp
next
  case (2 srv ctx inb effs ctx1 p ok q ctx2 inb2)
  then have "parseRequest (HttpContext_reset ctx) inb = Some (ok, ctx2, inb2)" by simp
  from parseRequest_shrinks [OF this] show ?case using 2 by auto
qed

declare serve_loop.simps [simp del]

text \<open>What a call does to the effects and to the connection's parse state.\<close>

definition serve :: "HttpServer \<Rightarrow> HttpContext \<Rightarrow> buffer \<Rightarrow> (HttpContext \<times> buffer \<times> server_effect list) option" where
  "serve srv ctx inb = do {
     (ok, ctx1, inb1) \<leftarrow> parseRequest ctx inb;
     if \<not> ok then Some (ctx1, inb1, reject srv ctx1) else serve_loop srv ctx1 inb1
   }"

definition processInput ::
  "string \<Rightarrow> buffer \<Rightarrow> HttpServer \<Rightarrow> (HttpServer \<times> buffer \<times> server_effect list) option" where
  "processInput conn_name inb srv =
     (case smap_get (conns srv) conn_name of
        None \<Rightarrow> Some (srv, inb, [])
      | Some pc \<Rightarrow> do {
          (ctx, inb', effs) \<leftarrow> serve srv (pc_ctx pc) inb;
          Some (srv\<lparr>conns := smap_put conn_name (pc\<lparr>pc_ctx := ctx\<rparr>) (conns srv)\<rparr>, inb', effs)
        })"

definition onPlainMessage ::
  "string \<Rightarrow> buffer \<Rightarrow> HttpServer \<Rightarrow> (HttpServer \<times> buffer \<times> server_effect list) option" where
  "onPlainMessage name buf srv =
     (if srv_tls srv then Some (srv, buf, []) else processInput name buf srv)"

text \<open>
  The message callback set on a TLS connection: decrypted bytes are appended to the reassembly buffer of the
  connection's state, which \<^verbatim>\<open>processInput\<close> then reads.
\<close>

definition onTlsMessage :: "string \<Rightarrow> string \<Rightarrow> HttpServer \<Rightarrow> (HttpServer \<times> server_effect list) option" where
  "onTlsMessage name pt srv =
     (case smap_get (conns srv) name of
        None \<Rightarrow> Some (srv, [])
      | Some pc \<Rightarrow> do {
          inb \<leftarrow> buf_append pt (pc_in pc);
          (srv1, inb1, effs) \<leftarrow> processInput name inb srv;
          case smap_get (conns srv1) name of
            None \<Rightarrow> None
          | Some pc1 \<Rightarrow> Some (srv1\<lparr>conns := smap_put name (pc1\<lparr>pc_in := inb1\<rparr>) (conns srv1)\<rparr>, effs)
        })"

definition onConnection :: "string \<Rightarrow> bool \<Rightarrow> HttpServer \<Rightarrow> HttpServer \<times> server_effect list" where
  "onConnection name is_connected srv =
     (let observed = (if srv_connection_observer srv then [ObserveConnection] else []) in
      if is_connected
      then (let pc = \<lparr>pc_ctx = setMaxBodyBytes (srv_max_body_bytes srv) HttpContext_new,
                      pc_tls = srv_tls srv, pc_in = Buffer kInitialSize\<rparr> in
            (srv\<lparr>conns := smap_put name pc (conns srv)\<rparr>, (if srv_tls srv then [TlsStart] else []) @ observed))
      else (srv\<lparr>conns := smap_erase name (conns srv)\<rparr>, observed))"

section \<open>The same on the bytes alone\<close>

lemma response_bytes_Some: "response_bytes resp = Some (response_head resp @ resp_body resp)"
proof -
  obtain b where b: "HttpResponse_appendTo resp (Buffer kInitialSize) = Some b" "buf_ok b"
      "readable b = response_head resp @ resp_body resp"
    using HttpResponse_appendTo_spec [OF buf_ok_Buffer, of resp kInitialSize] by auto
  have "take (readableBytes b) (peek b) = response_head resp @ resp_body resp"
    using b(3) by (simp add: readable_def)
  then show ?thesis
    using b(1) bq.consume_contents [OF b(2), of "readableBytes b"] length_readable [OF b(2)]
    by (auto simp: response_bytes_def retrieveAllAsString_def retrieveAsString_def)
qed

definition answer_effects :: "HttpServer \<Rightarrow> HttpRequest \<Rightarrow> server_effect list" where
  "answer_effects srv req =
     (let resp = run_handler srv req; wire = setKeepAlive (keepAlive req) resp in
      notify srv (status_code resp) (srv_handler_secs srv req) @ [Send (response_head wire @ resp_body wire)])"

lemma answer_Some: "answer srv req = Some (answer_effects srv req)"
  by (simp add: answer_def answer_effects_def response_bytes_Some Let_def)

lemma context_run_shrinks:
  "context_run c s = (c', r) \<Longrightarrow> length r \<le> length s \<and>
     (ctx_state c = kExpectRequestLine \<and> gotAll c' \<longrightarrow> length r < length s)"
proof (induction c s rule: context_run.induct)
  case (1 c s)
  obtain ctl n c1 where st: "context_step c s = (ctl, n, c1)" by (cases "context_step c s")
  have skip: "length (skip n s) \<le> length s" by (cases n) simp_all
  show ?case
  proof (cases ctl)
    case Continue
    then obtain k where k: "n = Some k" "0 < k" "k \<le> length s"
      using context_step_consumes st by blast
    have "context_run c1 (skip n s) = (c', r)"
      using "1.prems" st Continue by (subst (asm) context_run.simps) simp
    then have "length r \<le> length (skip n s)"
      using "1.IH" [OF st [symmetric] Continue refl] by simp
    then show ?thesis using k by auto
  next
    case Stop
    have "\<not> gotAll c1" if "ctx_state c = kExpectRequestLine"
      using that st Stop by (auto simp: context_step_def step_request_line_def gotAll_def split: option.splits if_splits prod.splits)
    then show ?thesis using "1.prems" st Stop skip by (subst (asm) context_run.simps) auto
  next
    case Fail
    have "\<not> gotAll c1"
      using context_step_fail [of c s n c1] st Fail by (auto simp: context_failure_def gotAll_def split: if_splits)
    then show ?thesis using "1.prems" st Fail skip by (subst (asm) context_run.simps) auto
  qed
qed

function serve_str :: "HttpServer \<Rightarrow> HttpContext \<Rightarrow> string \<Rightarrow> HttpContext \<times> string \<times> server_effect list" where
  "serve_str srv c s =
     (case context_run c s of (c1, r) \<Rightarrow>
        if hasError c1 then (c1, r, reject srv c1)
        else if gotAll c1
        then if keepAlive (ctx_request c1)
             then (case serve_str srv (HttpContext_reset c1) r of
                     (c2, r2, later) \<Rightarrow> (c2, r2, answer_effects srv (ctx_request c1) @ later))
             else (HttpContext_reset c1, r, answer_effects srv (ctx_request c1) @ [Close])
        else (c1, r, []))"
  by pat_completeness auto
termination
  by (relation "measure (\<lambda>(srv, c, s). 2 * length s + (if ctx_state c = kExpectRequestLine then 0 else 1))")
    (auto dest!: context_run_shrinks [OF sym])

declare serve_str.simps [simp del]

section \<open>Every call returns\<close>

lemma context_run_ok: "context_ok c \<Longrightarrow> context_run c s = (c', r) \<Longrightarrow> context_ok c'"
  using ctx.run_inv [of c s] by simp

lemma run_complete: "gotAll c \<Longrightarrow> context_run c s = (c, s)"
  by (simp add: gotAll_def run_got_all)

text \<open>On a well-formed buffer the code does what the version on the bytes does.\<close>

lemma serve_loop_str:
  assumes "context_ok c" "buf_ok b" "\<not> hasError c" "context_run c (readable b) = (c, readable b)"
  shows "\<exists>c' b' effs. serve_loop srv c b = Some (c', b', effs) \<and> context_ok c' \<and> buf_ok b' \<and>
    serve_str srv c (readable b) = (c', readable b', effs)"
  using assms
proof (induction srv c b rule: serve_loop.induct)
  case (1 srv c b)
  show ?case
  proof (cases "gotAll c")
    case False
    then show ?thesis using "1.prems" by (subst serve_loop.simps, subst serve_str.simps) auto
  next
    case True
    let ?c1 = "HttpContext_reset c"
    obtain c2 r2 where r2: "context_run ?c1 (readable b) = (c2, r2)" by fastforce
    obtain b2 where b2: "parseRequest ?c1 b = Some (\<not> hasError c2, c2, b2)" "buf_ok b2" "readable b2 = r2"
      using parseRequest_run [OF context_ok_reset "1.prems"(2) r2] by blast
    have c2: "context_ok c2" using context_run_ok [OF context_ok_reset r2] .
    have q: "context_run c2 (readable b2) = (c2, readable b2)"
      using ctx.run_quiescent [OF context_ok_reset r2] b2(3) by simp
    have str: "serve_str srv c (readable b) =
        (if keepAlive (ctx_request c)
         then (case serve_str srv ?c1 (readable b) of
                 (c2, r2, later) \<Rightarrow> (c2, r2, answer_effects srv (ctx_request c) @ later))
         else (?c1, readable b, answer_effects srv (ctx_request c) @ [Close]))"
      using True "1.prems"(3,4) by (subst serve_str.simps) simp
    show ?thesis
    proof (cases "keepAlive (ctx_request c)")
      case False
      then show ?thesis
        using True str "1.prems"(2) by (subst serve_loop.simps) (simp add: answer_Some)
    next
      case ka: True
      show ?thesis
      proof (cases "hasError c2")
        case err: True
        have "serve_str srv ?c1 (readable b) = (c2, r2, reject srv c2)"
          using r2 err by (subst serve_str.simps) simp
        then show ?thesis
          using True ka str b2 c2 err by (subst serve_loop.simps) (simp add: answer_Some)
      next
        case ne: False
        have "serve_str srv ?c1 (readable b) = serve_str srv c2 r2"
          using r2 q b2(3) by (subst (1 2) serve_str.simps) simp
        moreover obtain c' b' effs where "serve_loop srv c2 b2 = Some (c', b', effs)" "context_ok c'" "buf_ok b'"
            "serve_str srv c2 (readable b2) = (c', readable b', effs)"
          using "1.IH" [OF True answer_Some refl _ b2(1) refl refl _ c2 b2(2) ne q] ka ne by auto
        ultimately show ?thesis
          using True ka str b2 ne by (subst serve_loop.simps) (simp add: answer_Some)
      qed
    qed
  qed
qed

lemma serve_refines:
  assumes "context_ok c" "buf_ok b"
  shows "\<exists>c' b' effs. serve srv c b = Some (c', b', effs) \<and> context_ok c' \<and> buf_ok b' \<and>
    serve_str srv c (readable b) = (c', readable b', effs)"
proof -
  obtain c1 r where r: "context_run c (readable b) = (c1, r)" by fastforce
  obtain b1 where b1: "parseRequest c b = Some (\<not> hasError c1, c1, b1)" "buf_ok b1" "readable b1 = r"
    using parseRequest_run [OF assms r] by blast
  have c1: "context_ok c1" using context_run_ok [OF assms(1) r] .
  have q: "context_run c1 (readable b1) = (c1, readable b1)"
    using ctx.run_quiescent [OF assms(1) r] b1(3) by simp
  show ?thesis
  proof (cases "hasError c1")
    case True
    then show ?thesis using r b1 c1 by (subst serve_str.simps) (simp add: serve_def)
  next
    case False
    have "serve_str srv c (readable b) = serve_str srv c1 (readable b1)"
      using r q b1(3) by (subst (1 2) serve_str.simps) simp
    then show ?thesis using serve_loop_str [OF c1 b1(2) False q] b1(1) False by (simp add: serve_def)
  qed
qed

lemma fresh_facts [simp]: "\<not> hasError (request_parser limit)" "\<not> gotAll (request_parser limit)"
  by (simp_all add: hasError_def gotAll_def setMaxBodyBytes_def HttpContext_new_def)

lemma serve_str_empty [simp]: "serve_str srv (request_parser limit) [] = (request_parser limit, [], [])"
  by (subst serve_str.simps) simp

section \<open>Segmentation\<close>

lemma Close_in_reject [simp]: "Close \<in> set (reject srv c)"
  by (simp add: reject_def Let_def)

lemma Close_not_in_answer [simp]: "Close \<notin> set (answer_effects srv r)"
  by (simp add: answer_effects_def Let_def notify_def)

lemma run_append_same:
  assumes "context_ok c" "context_run c s = (c1, r)" "gotAll c1"
  shows "context_run c (s @ t) = (c1, r @ t)"
proof -
  have "outcome context_failure (c1, r @ t) = outcome context_failure (context_run c (s @ t))"
    using ctx.run_split [OF assms(1,2), of t] run_complete [OF assms(3)] by simp
  then show ?thesis
    using assms(3) by (auto simp: outcome_def context_failure_def gotAll_def split: option.splits if_splits)
qed

text \<open>More input never changes what was already answered.\<close>

lemma run_append_failed:
  assumes "context_ok c" "context_run c s = (c1, r)" "hasError c1"
  shows "\<exists>c2 r2. context_run c (s @ t) = (c2, r2) \<and> hasError c2 \<and> ctx_error c2 = ctx_error c1"
proof -
  have "context_run c1 (r @ t) = (c1, r @ t)"
    using assms(3) by (intro ctx.run_failed) (simp add: context_failure_def hasError_def)
  then have "outcome context_failure (c1, r @ t) = outcome context_failure (context_run c (s @ t))"
    using ctx.run_split [OF assms(1,2), of t] by simp
  then show ?thesis
    using assms(3) by (cases "context_run c (s @ t)")
      (auto simp: outcome_def context_failure_def hasError_def split: option.splits if_splits)
qed

lemma reject_error: "ctx_error c = ctx_error c' \<Longrightarrow> reject srv c = reject srv c'"
  by (simp add: reject_def)

lemma serve_str_closed:
  "context_ok c \<Longrightarrow> serve_str srv c s = (c1, r1, ev1) \<Longrightarrow> Close \<in> set ev1 \<Longrightarrow>
   \<exists>c2 r2. serve_str srv c (s @ t) = (c2, r2, ev1)"
proof (induction srv c s arbitrary: c1 r1 ev1 rule: serve_str.induct)
  case (1 srv c s)
  obtain c' r where run: "context_run c s = (c', r)" by fastforce
  consider "hasError c'" | "\<not> hasError c'" "gotAll c'" "keepAlive (ctx_request c')"
    | "\<not> hasError c'" "gotAll c'" "\<not> keepAlive (ctx_request c')" | "\<not> hasError c'" "\<not> gotAll c'"
    by blast
  then show ?case
  proof cases
    case 1
    then obtain c2 r2 where "context_run c (s @ t) = (c2, r2)" "hasError c2" "ctx_error c2 = ctx_error c'"
      using run_append_failed [OF "1.prems"(1) run] by blast
    then show ?thesis
      using "1.prems"(2) 1 run reject_error [of c2 c'] by (subst (asm) serve_str.simps, subst serve_str.simps) auto
  next
    case 2
    obtain ca ra later where rec: "serve_str srv (HttpContext_reset c') r = (ca, ra, later)" by (metis prod_cases3)
    then have ev1: "ev1 = answer_effects srv (ctx_request c') @ later"
      using "1.prems"(2) 2 run by (subst (asm) serve_str.simps) simp
    then obtain c2 r2 where "serve_str srv (HttpContext_reset c') (r @ t) = (c2, r2, later)"
      using "1.IH" [OF run [symmetric] 2 context_ok_reset rec] "1.prems"(3) by auto
    then show ?thesis
      using 2 run_append_same [OF "1.prems"(1) run 2(2)] ev1 by (subst serve_str.simps) simp
  next
    case 3
    then show ?thesis
      using "1.prems"(2) run run_append_same [OF "1.prems"(1) run 3(2)]
      by (subst (asm) serve_str.simps, subst serve_str.simps) auto
  next
    case 4
    then show ?thesis using "1.prems"(2,3) run by (subst (asm) serve_str.simps) auto
  qed
qed

lemma serve_str_split:
  "context_ok c \<Longrightarrow> serve_str srv c s = (c1, r1, ev1) \<Longrightarrow> Close \<notin> set ev1 \<Longrightarrow>
   serve_str srv c1 (r1 @ t) = (c2, r2, ev2) \<Longrightarrow>
   \<exists>c3 r3. serve_str srv c (s @ t) = (c3, r3, ev1 @ ev2) \<and> (Close \<notin> set ev2 \<longrightarrow> c3 = c2 \<and> r3 = r2)"
proof (induction srv c s arbitrary: ev1 rule: serve_str.induct)
  case (1 srv c s)
  obtain c' r where run: "context_run c s = (c', r)" by fastforce
  have ne: "\<not> hasError c'" using "1.prems"(2,3) run by (subst (asm) serve_str.simps) auto
  show ?case
  proof (cases "gotAll c'")
    case True
    have ka: "keepAlive (ctx_request c')"
      using "1.prems"(2,3) run ne True by (subst (asm) serve_str.simps) (auto split: if_splits)
    obtain ca ra later where rec: "serve_str srv (HttpContext_reset c') r = (ca, ra, later)" by (metis prod_cases3)
    then have "serve_str srv c s = (ca, ra, answer_effects srv (ctx_request c') @ later)"
      using run ne True ka by (subst serve_str.simps) simp
    then have eq: "ca = c1" "ra = r1" "ev1 = answer_effects srv (ctx_request c') @ later"
      using "1.prems"(2) by simp_all
    then obtain c3 r3 where "serve_str srv (HttpContext_reset c') (r @ t) = (c3, r3, later @ ev2)"
        "Close \<notin> set ev2 \<longrightarrow> c3 = c2 \<and> r3 = r2"
      using "1.IH" [OF run [symmetric] ne True ka context_ok_reset _ _ "1.prems"(4), of later] rec "1.prems"(3) by auto
    then show ?thesis
      using run_append_same [OF "1.prems"(1) run True, of t] ne True ka eq by (subst serve_str.simps) simp
  next
    case False
    then have "serve_str srv c s = (c', r, [])" using run ne by (subst serve_str.simps) simp
    then have eq: "c1 = c'" "r1 = r" "ev1 = []" using "1.prems"(2) by simp_all
    obtain ca ra where a: "context_run c' (r @ t) = (ca, ra)" by fastforce
    obtain cb rb where b: "context_run c (s @ t) = (cb, rb)" by fastforce
    have out: "outcome context_failure (ca, ra) = outcome context_failure (cb, rb)"
      using ctx.run_split [OF "1.prems"(1) run, of t] a b by simp
    show ?thesis
    proof (cases "hasError ca")
      case True
      then have "hasError cb" "ctx_error ca = ctx_error cb"
        using out by (auto simp: outcome_def context_failure_def hasError_def split: option.splits if_splits)
      then show ?thesis
        using "1.prems"(4) a b eq True reject_error [of ca cb]
        by (subst (asm) serve_str.simps, subst serve_str.simps) auto
    next
      case False
      then have "ca = cb" "ra = rb"
        using out by (auto simp: outcome_def context_failure_def hasError_def split: option.splits if_splits)
      then have "serve_str srv c (s @ t) = serve_str srv c' (r @ t)"
        using a b by (subst (1 2) serve_str.simps) simp
      then show ?thesis using "1.prems"(4) eq by simp
    qed
  qed
qed

text \<open>Reads delivered one after the other to a connection, with the effects of all of them.\<close>

fun deliver ::
  "string list \<Rightarrow> HttpServer \<Rightarrow> HttpContext \<Rightarrow> buffer \<Rightarrow> (HttpContext \<times> buffer \<times> server_effect list) option" where
  "deliver [] srv c b = Some (c, b, [])"
| "deliver (seg # segs) srv c b = do {
     b1 \<leftarrow> buf_append seg b;
     (c', b', effs) \<leftarrow> serve srv c b1;
     (c'', b'', later) \<leftarrow> deliver segs srv c' b';
     Some (c'', b'', effs @ later)
   }"

lemma deliver_whole:
  assumes "context_ok c" "buf_ok b"
  shows "\<exists>c' b' effs. deliver [s] srv c b = Some (c', b', effs) \<and> context_ok c' \<and> buf_ok b' \<and>
    serve_str srv c (readable b @ s) = (c', readable b', effs)"
proof -
  obtain b1 where "buf_append s b = Some b1" "buf_ok b1" "readable b1 = readable b @ s"
    using bq.enqueue_contents [OF assms(2)] by blast
  then show ?thesis using serve_refines [OF assms(1), of b1 srv] by auto
qed

lemma deliver_str:
  assumes "context_ok c" "buf_ok b" "serve_str srv c (readable b) = (c, readable b, [])"
    "serve_str srv c (readable b @ concat segs) = (c2, r2, evs)" "Close \<notin> set evs"
  shows "\<exists>b2. deliver segs srv c b = Some (c2, b2, evs) \<and> buf_ok b2 \<and> readable b2 = r2"
  using assms
proof (induction segs arbitrary: c b evs)
  case Nil
  then show ?case by simp
next
  case (Cons seg segs)
  obtain b1 where b1: "buf_append seg b = Some b1" "buf_ok b1" "readable b1 = readable b @ seg"
    using bq.enqueue_contents [OF Cons.prems(2)] by blast
  obtain c' b' effs where sv: "serve srv c b1 = Some (c', b', effs)" "context_ok c'" "buf_ok b'"
      "serve_str srv c (readable b1) = (c', readable b', effs)"
    using serve_refines [OF Cons.prems(1) b1(2)] by blast
  have nc: "Close \<notin> set effs"
    using serve_str_closed [OF Cons.prems(1) sv(4), of "concat segs"] Cons.prems(4,5) b1(3) by auto
  obtain cr rr er where rest: "serve_str srv c' (readable b' @ concat segs) = (cr, rr, er)" by (metis prod_cases3)
  have split: "evs = effs @ er \<and> (Close \<notin> set er \<longrightarrow> c2 = cr \<and> r2 = rr)"
    using serve_str_split [OF Cons.prems(1) sv(4) nc rest] Cons.prems(4) b1(3) by auto
  obtain cq rq eq where q: "serve_str srv c' (readable b') = (cq, rq, eq)" by (metis prod_cases3)
  have "cq = c' \<and> rq = readable b' \<and> eq = []"
    using serve_str_split [OF Cons.prems(1) sv(4) nc, of "[]" cq rq eq] q sv(4) by auto
  then show ?case
    using Cons.IH [OF sv(2,3), of er] q rest split Cons.prems(5) b1(1) sv(1) by auto
qed

text \<open>
  C3: the answers do not depend on how the input is cut into reads. When one read of all the bytes leads to
  effects that keep the connection open, delivering the same bytes in any segments leads to the
  same effects in the same order, the same parse state and the same unread bytes.
\<close>

theorem serve_segmentation:
  assumes "deliver [concat segs] srv (request_parser limit) (Buffer n) = Some (c, b, effs)" "Close \<notin> set effs"
  shows "\<exists>b'. deliver segs srv (request_parser limit) (Buffer n) = Some (c, b', effs) \<and> readable b' = readable b"
proof -
  have start: "serve_str srv (request_parser limit) (readable (Buffer n)) = (request_parser limit, readable (Buffer n), [])"
    by simp
  have "serve_str srv (request_parser limit) (readable (Buffer n) @ concat segs) = (c, readable b, effs)"
    using deliver_whole [OF context_ok_setMax buf_ok_Buffer, of "concat segs" srv limit n] assms(1) by auto
  then show ?thesis
    using deliver_str [OF context_ok_setMax buf_ok_Buffer start _ assms(2)] by blast
qed

section \<open>Pipelining\<close>

text \<open>The request the server sees for a request written by the client.\<close>

definition parsed_request :: "HttpRequest \<Rightarrow> string \<Rightarrow> HttpRequest" where
  "parsed_request r host = appendBody (req_body r) (ctx_request (after_fields 0 r host))"

lemma after_fields_request: "ctx_request (after_fields limit r host) = ctx_request (after_fields 0 r host)"
  by (simp add: after_fields_def Let_def)

lemma reset_fresh: "max_body_bytes c = limit \<Longrightarrow> HttpContext_reset c = request_parser limit"
  by (simp add: HttpContext_reset_def setMaxBodyBytes_def HttpContext_new_def)

lemma serve_str_request:
  assumes "wire_ok r host" "limit = 0 \<or> length (req_body r) \<le> limit"
  shows "serve_str srv (request_parser limit) (request_head r host @ req_body r @ rest) =
    (if keepAlive (parsed_request r host)
     then (case serve_str srv (request_parser limit) rest of
             (c, r', later) \<Rightarrow> (c, r', answer_effects srv (parsed_request r host) @ later))
     else (request_parser limit, rest, answer_effects srv (parsed_request r host) @ [Close]))"
proof -
  obtain c where c: "context_run (request_parser limit) (request_head r host @ req_body r @ rest) = (c, rest)"
      "gotAll c" "ctx_request c = parsed_request r host"
    using run_written_request [OF assms, of rest] by (auto simp: parsed_request_def after_fields_request [of limit])
  have "max_body_bytes c = limit"
    using context_run_max [of "request_parser limit" "request_head r host @ req_body r @ rest"] c(1)
    by (simp add: setMaxBodyBytes_def)
  then have "HttpContext_reset c = request_parser limit" by (rule reset_fresh)
  moreover have "\<not> hasError c" using c(2) by (simp add: gotAll_def hasError_def)
  ultimately show ?thesis
    using c by (subst serve_str.simps) simp
qed

definition wire_bytes :: "(HttpRequest \<times> string) list \<Rightarrow> string" where
  "wire_bytes rs = concat (map (\<lambda>(r, host). request_head r host @ req_body r) rs)"

lemma serve_str_pipeline:
  assumes "\<forall>(r, host) \<in> set rs. wire_ok r host \<and> (limit = 0 \<or> length (req_body r) \<le> limit) \<and>
             keepAlive (parsed_request r host)"
  shows "serve_str srv (request_parser limit) (wire_bytes rs) =
    (request_parser limit, [], concat (map (\<lambda>(r, host). answer_effects srv (parsed_request r host)) rs))"
  using assms
proof (induction rs)
  case Nil
  then show ?case by (simp add: wire_bytes_def)
next
  case (Cons p rs)
  obtain r host where p: "p = (r, host)" by force
  then show ?case
    using Cons serve_str_request [of r host limit srv "wire_bytes rs"] by (simp add: wire_bytes_def)
qed


lemma sample_request_keepAlive: "keepAlive (parsed_request sample_request ''h'')"
proof -
  have ok: "request_ok sample_request" using sample_request_wire_ok by (simp add: wire_ok_def)
  have t: "toLower ''connection'' = ''connection''" by code_simp
  have "header (parsed_request sample_request ''h'') ''connection'' = []"
    by (simp add: header_def parsed_request_def after_fields_def Let_def t written_fields_lookup [OF ok]
        sample_request_fields) (simp add: smap_get_def)
  moreover have "req_version (parsed_request sample_request ''h'') = ''HTTP/1.1''"
    by (simp add: parsed_request_def after_fields_def Let_def appendBody_def HttpRequest_new_def)
  ultimately show ?thesis by (simp add: keepAlive_def toLower_def)
qed

definition sample_server :: HttpServer where
  "sample_server = fst (onConnection ''c'' True
     (setHttpHandler (\<lambda>req resp. setBody (req_body req) resp) (setMaxBodySize 8 (HttpServer_new False (\<lambda>_. 0)))))"

lemma sample_server_conn:
  "smap_ok (conns sample_server)"
  "smap_get (conns sample_server) ''c'' =
     Some \<lparr>pc_ctx = request_parser 8, pc_tls = False, pc_in = Buffer kInitialSize\<rparr>"
  by (simp_all add: sample_server_def onConnection_def setHttpHandler_def setMaxBodySize_def HttpServer_new_def
      smap_ok_def smap_get_def)


theorem serve_segmentation_witness:
  "\<exists>c b effs b'. deliver [concat [''GET '', ''/ HT'']] sample_server (request_parser 8) (Buffer 64) = Some (c, b, effs) \<and>
     Close \<notin> set effs \<and>
     deliver [''GET '', ''/ HT''] sample_server (request_parser 8) (Buffer 64) = Some (c, b', effs) \<and>
     readable b' = readable b"
proof -
  have "findCrlf ''GET / HT'' = None" by simp
  then have "context_run (request_parser 8) ''GET / HT'' = (request_parser 8, ''GET / HT'')"
    by (subst context_run.simps)
      (simp add: context_step_def step_request_line_def setMaxBodyBytes_def HttpContext_new_def)
  then have "serve_str sample_server (request_parser 8) ''GET / HT'' = (request_parser 8, ''GET / HT'', [])"
    by (subst serve_str.simps) simp
  then obtain c b where cb: "deliver [concat [''GET '', ''/ HT'']] sample_server (request_parser 8) (Buffer 64) = Some (c, b, [])"
    using deliver_whole [OF context_ok_setMax buf_ok_Buffer, of "concat [''GET '', ''/ HT'']" sample_server 8 64] by auto
  moreover have "Close \<notin> set ([] :: server_effect list)" by simp
  ultimately show ?thesis
    using serve_segmentation [OF cb] by (metis empty_iff empty_set)
qed

section \<open>The server as a whole\<close>

definition perconn_ok :: "PerConn \<Rightarrow> bool" where
  "perconn_ok pc = (context_ok (pc_ctx pc) \<and> buf_ok (pc_in pc))"

definition server_ok :: "HttpServer \<Rightarrow> bool" where
  "server_ok srv = (smap_ok (conns srv) \<and> list_all (\<lambda>(name, pc). perconn_ok pc) (conns srv))"

lemma server_ok_get: "server_ok srv \<Longrightarrow> smap_get (conns srv) name = Some pc \<Longrightarrow> perconn_ok pc"
  by (auto simp: server_ok_def smap_get_def list_all_iff dest!: map_of_SomeD)

lemma server_ok_put:
  "server_ok srv \<Longrightarrow> perconn_ok pc \<Longrightarrow> server_ok (srv\<lparr>conns := smap_put name pc (conns srv)\<rparr>)"
  using set_smap_put [of name pc "conns srv"] by (fastforce simp: server_ok_def smap_ok_put list_all_iff)

lemma server_ok_erase: "server_ok srv \<Longrightarrow> server_ok (srv\<lparr>conns := smap_erase name (conns srv)\<rparr>)"
  by (auto simp: server_ok_def smap_erase_def smap_ok_def list_all_iff strict_sorted_iff
      distinct_map_filter sorted_filter)

lemma processInput_ok:
  assumes "server_ok srv" "buf_ok b"
  shows "\<exists>srv' b' effs. processInput name b srv = Some (srv', b', effs) \<and> server_ok srv' \<and> buf_ok b' \<and>
    (smap_get (conns srv) name \<noteq> None \<longrightarrow> smap_get (conns srv') name \<noteq> None)"
proof (cases "smap_get (conns srv) name")
  case None
  then show ?thesis using assms by (simp add: processInput_def)
next
  case (Some pc)
  then have pc: "perconn_ok pc" using server_ok_get assms(1) by blast
  then obtain c' b' effs where "serve srv (pc_ctx pc) b = Some (c', b', effs)" "context_ok c'" "buf_ok b'"
    using serve_refines [of "pc_ctx pc" b srv] assms(2) by (auto simp: perconn_ok_def)
  then show ?thesis
    using Some pc assms(1) server_ok_put [of srv "pc\<lparr>pc_ctx := c'\<rparr>" name]
    by (auto simp: processInput_def perconn_ok_def smap.get_put server_ok_def)
qed



end
