(* ===== verification/Flow_Token_Bucket.thy ===== *)
theory Flow_Token_Bucket
  imports Complex_Main
begin

text \<open>
  The token bucket rate limiter, \<^verbatim>\<open>flowcontrol/token_bucket.h\<close> and \<^verbatim>\<open>flowcontrol/token_bucket.cc\<close>. A \<^verbatim>\<open>double\<close>
  is the real number it denotes and every floating-point operation is the exact one followed by
  the rounding function \<open>rnd\<close> of the arithmetic, a parameter; infinities and NaN are not
  modelled. Clock readings are nanosecond counts and come in any order. The theory shows
  that the level stays between zero and the burst size, and bounds what any sequence of calls can
  admit over an interval, rounding errors included.
\<close>

section \<open>Floating-point rounding\<close>

text \<open>
  What the code relies on: rounding is monotone, keeps zero, and has a relative error of at most
  \<open>u\<close> up to an absolute error of \<open>eta\<close> (the underflow unit).
\<close>

definition fp_rounding :: "(real \<Rightarrow> real) \<Rightarrow> real \<Rightarrow> real \<Rightarrow> bool" where
  "fp_rounding rnd u eta =
     (0 \<le> u \<and> 0 \<le> eta \<and> rnd 0 = 0 \<and> (\<forall>x y. x \<le> y \<longrightarrow> rnd x \<le> rnd y) \<and>
      (\<forall>x. \<bar>rnd x - x\<bar> \<le> u * \<bar>x\<bar> + eta))"

lemma fp_mono: "fp_rounding rnd u eta \<Longrightarrow> x \<le> y \<Longrightarrow> rnd x \<le> rnd y"
  by (simp add: fp_rounding_def)

lemma fp_nonneg: "fp_rounding rnd u eta \<Longrightarrow> 0 \<le> x \<Longrightarrow> 0 \<le> rnd x"
  by (metis fp_rounding_def)

lemma fp_upper: "fp_rounding rnd u eta \<Longrightarrow> 0 \<le> x \<Longrightarrow> rnd x \<le> (1 + u) * x + eta"
proof -
  assume "fp_rounding rnd u eta" "0 \<le> x"
  then have "\<bar>rnd x - x\<bar> \<le> u * x + eta" unfolding fp_rounding_def by (metis abs_of_nonneg)
  then show ?thesis by (simp add: algebra_simps abs_le_iff)
qed

section \<open>The bucket\<close>

record TokenBucket =
  qps :: real
  burst :: real
  tokens :: real
  last_refill :: int

definition TokenBucket_new :: "real \<Rightarrow> real \<Rightarrow> int \<Rightarrow> TokenBucket" where
  "TokenBucket_new q b now =
     (let cap = (if b \<ge> 1 then b else 1) in
      \<lparr>qps = (if q > 0 then q else 0), burst = cap, tokens = cap, last_refill = now\<rparr>)"

text \<open>\<^verbatim>\<open>std::chrono::duration<double>(d).count()\<close> for a count of nanoseconds.\<close>

definition seconds :: "(real \<Rightarrow> real) \<Rightarrow> int \<Rightarrow> real" where
  "seconds rnd ns = rnd (rnd (of_int ns) / 1000000000)"

definition refillLocked :: "(real \<Rightarrow> real) \<Rightarrow> int \<Rightarrow> TokenBucket \<Rightarrow> TokenBucket" where
  "refillLocked rnd now tb =
     (if now \<le> last_refill tb then tb
      else
        (let elapsed_s = seconds rnd (now - last_refill tb) in
         tb\<lparr>last_refill := now, tokens := min (burst tb) (rnd (tokens tb + rnd (elapsed_s * qps tb)))\<rparr>))"

definition tryAcquireN :: "(real \<Rightarrow> real) \<Rightarrow> real \<Rightarrow> int \<Rightarrow> TokenBucket \<Rightarrow> bool \<times> TokenBucket" where
  "tryAcquireN rnd n now tb =
     (if n \<le> 0 then (True, tb)
      else
        (let tb1 = refillLocked rnd now tb in
         if tokens tb1 \<ge> n then (True, tb1\<lparr>tokens := rnd (tokens tb1 - n)\<rparr>)
         else (False, tb1)))"

definition tb_tryAcquire :: "(real \<Rightarrow> real) \<Rightarrow> int \<Rightarrow> TokenBucket \<Rightarrow> bool \<times> TokenBucket" where
  "tb_tryAcquire rnd now tb = tryAcquireN rnd 1 now tb"

definition availableTokens :: "(real \<Rightarrow> real) \<Rightarrow> int \<Rightarrow> TokenBucket \<Rightarrow> real \<times> TokenBucket" where
  "availableTokens rnd now tb = (let tb1 = refillLocked rnd now tb in (tokens tb1, tb1))"

section \<open>Sequences of calls\<close>

text \<open>Calls as the mutex orders them, with the clock reading each one takes.\<close>

datatype tb_call = TbAcquire int | TbAcquireN real int | TbAvailable int

text \<open>The bucket after a call and the tokens the call admitted.\<close>

fun tb_exec :: "(real \<Rightarrow> real) \<Rightarrow> tb_call \<Rightarrow> TokenBucket \<Rightarrow> real \<times> TokenBucket" where
  "tb_exec rnd (TbAcquire now) tb =
     (case tb_tryAcquire rnd now tb of (ok, tb') \<Rightarrow> (if ok then 1 else 0, tb'))"
| "tb_exec rnd (TbAcquireN n now) tb =
     (case tryAcquireN rnd n now tb of (ok, tb') \<Rightarrow> (if ok \<and> n > 0 then n else 0, tb'))"
| "tb_exec rnd (TbAvailable now) tb = (0, snd (availableTokens rnd now tb))"

fun tb_run :: "(real \<Rightarrow> real) \<Rightarrow> tb_call list \<Rightarrow> TokenBucket \<Rightarrow> real \<times> TokenBucket" where
  "tb_run rnd [] tb = (0, tb)"
| "tb_run rnd (c # cs) tb =
     (case tb_exec rnd c tb of (n, tb1) \<Rightarrow> (case tb_run rnd cs tb1 of (m, tb2) \<Rightarrow> (n + m, tb2)))"

definition tb_ok :: "TokenBucket \<Rightarrow> bool" where
  "tb_ok tb = (0 \<le> qps tb \<and> 1 \<le> burst tb \<and> 0 \<le> tokens tb \<and> tokens tb \<le> burst tb)"

lemma tb_ok_new [simp]: "tb_ok (TokenBucket_new q b now)"
  by (simp add: tb_ok_def TokenBucket_new_def Let_def)

lemma refill_fixed [simp]: "qps (refillLocked rnd now tb) = qps tb" "burst (refillLocked rnd now tb) = burst tb"
  by (simp_all add: refillLocked_def Let_def)

lemma refill_ok:
  assumes "fp_rounding rnd u eta" "tb_ok tb"
  shows "tb_ok (refillLocked rnd now tb)"
proof (cases "now \<le> last_refill tb")
  case True
  then show ?thesis using assms by (simp add: refillLocked_def)
next
  case False
  then have "0 \<le> seconds rnd (now - last_refill tb)"
    unfolding seconds_def by (intro fp_nonneg [OF assms(1)] divide_nonneg_nonneg) auto
  then have "0 \<le> rnd (tokens tb + rnd (seconds rnd (now - last_refill tb) * qps tb))"
    using assms by (intro fp_nonneg [OF assms(1)] add_nonneg_nonneg mult_nonneg_nonneg) (auto simp: tb_ok_def)
  then show ?thesis using assms(2) False by (simp add: refillLocked_def Let_def tb_ok_def)
qed

text \<open>
  Rounding can push a level over the burst size only if the burst size were not representable; the subtraction
  of a positive amount from a level stays below it.
\<close>

lemma acquire_ok:
  assumes r: "fp_rounding rnd u eta" and ok: "tb_ok tb" and b: "rnd (burst tb) = burst tb"
  shows "tb_ok (snd (tryAcquireN rnd n now tb))"
proof (cases "n \<le> 0")
  case True
  then show ?thesis using ok by (simp add: tryAcquireN_def)
next
  case False
  let ?tb = "refillLocked rnd now tb"
  have ok1: "tb_ok ?tb" using refill_ok [OF r ok] .
  have "tb_ok (?tb\<lparr>tokens := rnd (tokens ?tb - n)\<rparr>)" if "n \<le> tokens ?tb"
  proof -
    have "0 \<le> rnd (tokens ?tb - n)" using that by (intro fp_nonneg [OF r]) simp
    moreover have "rnd (tokens ?tb - n) \<le> rnd (burst ?tb)"
      using False ok1 by (intro fp_mono [OF r]) (auto simp: tb_ok_def)
    ultimately show ?thesis using ok1 b by (simp add: tb_ok_def)
  qed
  then show ?thesis using False ok1 by (simp add: tryAcquireN_def Let_def)
qed

lemma tb_exec_ok:
  assumes "fp_rounding rnd u eta" "tb_ok tb" "rnd (burst tb) = burst tb"
  shows "tb_ok (snd (tb_exec rnd c tb)) \<and> burst (snd (tb_exec rnd c tb)) = burst tb \<and>
    qps (snd (tb_exec rnd c tb)) = qps tb"
proof -
  have fixed: "burst (snd (tryAcquireN rnd n now tb)) = burst tb \<and> qps (snd (tryAcquireN rnd n now tb)) = qps tb" for n now
    by (simp add: tryAcquireN_def Let_def)
  show ?thesis
    using acquire_ok [OF assms] refill_ok [OF assms(1,2)] fixed
    by (cases c) (simp_all add: tb_tryAcquire_def availableTokens_def Let_def case_prod_beta)
qed

lemma tb_run_ok:
  assumes "fp_rounding rnd u eta" "tb_ok tb" "rnd (burst tb) = burst tb"
  shows "tb_ok (snd (tb_run rnd cs tb)) \<and> burst (snd (tb_run rnd cs tb)) = burst tb"
  using assms(2,3)
proof (induction cs arbitrary: tb)
  case Nil
  then show ?case by simp
next
  case (Cons c cs)
  then show ?case using tb_exec_ok [OF assms(1) Cons.prems, of c] Cons.IH [of "snd (tb_exec rnd c tb)"]
    by (simp add: case_prod_beta)
qed

text \<open>
  the level of a bucket stays within its bounds. From a new bucket whose burst size is a representable
  number, every sequence of calls with any clock readings, also ones that run backwards, leaves
  the level between zero and the burst size.
\<close>

theorem tokens_bounded:
  assumes "fp_rounding rnd u eta" "rnd (burst (TokenBucket_new q b t0)) = burst (TokenBucket_new q b t0)"
  shows "0 \<le> tokens (snd (tb_run rnd cs (TokenBucket_new q b t0))) \<and>
    tokens (snd (tb_run rnd cs (TokenBucket_new q b t0))) \<le> max b 1"
  using tb_run_ok [OF assms(1) tb_ok_new assms(2), of cs]
  by (auto simp: tb_ok_def TokenBucket_new_def Let_def max_def split: if_splits)

text \<open>Rounding to multiples of a power of two, as fixed-point arithmetic does.\<close>

definition fixed_rnd :: "real \<Rightarrow> real" where
  "fixed_rnd x = of_int \<lfloor>x * 1024\<rfloor> / 1024"

lemma fixed_rnd_rounding: "fp_rounding fixed_rnd 0 (1 / 1024)"
proof -
  have "\<bar>fixed_rnd x - x\<bar> \<le> 1 / 1024" for x
  proof -
    have "\<bar>of_int \<lfloor>x * 1024\<rfloor> - x * 1024\<bar> \<le> 1" by linarith
    then show ?thesis by (simp add: fixed_rnd_def abs_le_iff field_simps)
  qed
  moreover have "fixed_rnd x \<le> fixed_rnd y" if "x \<le> y" for x y
    using that by (simp add: fixed_rnd_def divide_right_mono floor_mono)
  ultimately show ?thesis by (auto simp: fp_rounding_def fixed_rnd_def)
qed

theorem tokens_bounded_witness:
  "0 \<le> tokens (snd (tb_run fixed_rnd [TbAcquire 5, TbAcquireN 3 1000000000, TbAvailable 2] (TokenBucket_new 2 4 0))) \<and>
   tokens (snd (tb_run fixed_rnd [TbAcquire 5, TbAcquireN 3 1000000000, TbAvailable 2] (TokenBucket_new 2 4 0))) \<le> max 4 1"
  by (rule tokens_bounded [OF fixed_rnd_rounding]) (simp add: TokenBucket_new_def fixed_rnd_def)

section \<open>The rate bound\<close>

text \<open>
  What one call can add beyond the ideal refill: the rounding of the level, of the difference and of the
  refill amount.
\<close>

definition gain :: "real \<Rightarrow> real \<Rightarrow> real \<Rightarrow> real" where
  "gain u q secs = (1 + u) ^ 4 * (q * secs)"

definition slack :: "real \<Rightarrow> real \<Rightarrow> real \<Rightarrow> real \<Rightarrow> real" where
  "slack u eta q b = 2 * u * b + 3 * eta + u * eta + (1 + u) ^ 2 * q * (eta + (1 + u) * eta)"

lemma seconds_upper:
  assumes r: "fp_rounding rnd u eta" and ns: "0 \<le> ns"
  shows "seconds rnd ns \<le> (1 + u) ^ 2 * (of_int ns / 1000000000) + (1 + u) * eta + eta"
proof -
  have u: "0 \<le> u" "0 \<le> eta" using r by (auto simp: fp_rounding_def)
  have 1: "rnd (of_int ns) \<le> (1 + u) * of_int ns + eta" using ns by (intro fp_upper [OF r]) simp
  have 0: "0 \<le> rnd (of_int ns)" using ns by (intro fp_nonneg [OF r]) simp
  have "seconds rnd ns \<le> (1 + u) * (rnd (of_int ns) / 1000000000) + eta"
    unfolding seconds_def using 0 by (intro fp_upper [OF r]) simp
  also have "(1 + u) * (rnd (of_int ns) / 1000000000) \<le> (1 + u) * (((1 + u) * of_int ns + eta) / 1000000000)"
    using 1 u by (intro mult_left_mono divide_right_mono) auto
  also have "\<dots> = (1 + u) ^ 2 * (of_int ns / 1000000000) + (1 + u) * (eta / 1000000000)"
    by (simp add: power2_eq_square field_simps)
  also have "(1 + u) * (eta / 1000000000) \<le> (1 + u) * eta"
    using u by (intro mult_left_mono) auto
  finally show ?thesis by simp
qed

lemma refill_gain:
  assumes r: "fp_rounding rnd u eta" and ok: "tb_ok tb"
  shows "tokens (refillLocked rnd now tb) \<le>
    tokens tb + gain u (qps tb) (of_int (last_refill (refillLocked rnd now tb) - last_refill tb) / 1000000000) +
    (u * burst tb + 2 * eta + u * eta + (1 + u) ^ 2 * qps tb * (eta + (1 + u) * eta))"
proof -
  have u: "0 \<le> u" "0 \<le> eta" and q: "0 \<le> qps tb" and tk: "0 \<le> tokens tb" "tokens tb \<le> burst tb"
    using r ok by (auto simp: fp_rounding_def tb_ok_def)
  let ?s = "of_int (now - last_refill tb) / 1000000000 :: real"
  let ?s' = "of_int (last_refill (refillLocked rnd now tb) - last_refill tb) / 1000000000 :: real"
  let ?e = "seconds rnd (now - last_refill tb)"
  show ?thesis
  proof (cases "now \<le> last_refill tb")
    case True
    then show ?thesis using u q tk by (simp add: refillLocked_def gain_def)
  next
    case False
    have e: "0 \<le> ?e" unfolding seconds_def using False by (intro fp_nonneg [OF r] divide_nonneg_nonneg) auto
    have p: "rnd (?e * qps tb) \<le> (1 + u) * (?e * qps tb) + eta" using e q by (intro fp_upper [OF r]) simp
    have p0: "0 \<le> rnd (?e * qps tb)" using e q by (intro fp_nonneg [OF r]) simp
    have "tokens (refillLocked rnd now tb) \<le> rnd (tokens tb + rnd (?e * qps tb))"
      using False by (simp add: refillLocked_def Let_def)
    also have "\<dots> \<le> (1 + u) * (tokens tb + rnd (?e * qps tb)) + eta"
      using tk p0 by (intro fp_upper [OF r]) simp
    also have "\<dots> \<le> (1 + u) * (tokens tb + ((1 + u) * (?e * qps tb) + eta)) + eta"
      using p u by (intro add_right_mono mult_left_mono) auto
    also have "\<dots> = tokens tb + u * tokens tb + (1 + u) ^ 2 * qps tb * ?e + (2 * eta + u * eta)"
      by (simp add: power2_eq_square algebra_simps)
    also have "u * tokens tb \<le> u * burst tb" using tk u by (intro mult_left_mono) auto
    also have "(1 + u) ^ 2 * qps tb * ?e \<le> (1 + u) ^ 2 * qps tb * ((1 + u) ^ 2 * ?s + (1 + u) * eta + eta)"
      using seconds_upper [OF r, of "now - last_refill tb"] False u q by (intro mult_left_mono) auto
    also have "\<dots> = gain u (qps tb) ?s' + (1 + u) ^ 2 * qps tb * (eta + (1 + u) * eta)"
      using False by (simp add: gain_def power_numeral_reduce algebra_simps refillLocked_def Let_def)
    finally show ?thesis by simp
  qed
qed

definition nanos :: "int \<Rightarrow> real" where
  "nanos ns = of_int ns / 1000000000"

lemma gain_add: "gain u q (nanos (b - a)) + gain u q (nanos (c - b)) = gain u q (nanos (c - a))"
  by (simp add: gain_def nanos_def field_simps)

lemma gain_mono: "0 \<le> u \<Longrightarrow> 0 \<le> q \<Longrightarrow> ns \<le> ns' \<Longrightarrow> gain u q (nanos ns) \<le> gain u q (nanos ns')"
  unfolding gain_def nanos_def by (intro mult_left_mono divide_right_mono) auto

lemma acquire_gain:
  assumes r: "fp_rounding rnd u eta" and ok: "tb_ok tb" and res: "tryAcquireN rnd n now tb = (ok', tb')"
  shows "(if ok' \<and> n > 0 then n else 0) + tokens tb' \<le>
    tokens tb + gain u (qps tb) (nanos (last_refill tb' - last_refill tb)) + slack u eta (qps tb) (burst tb)"
proof (cases "n \<le> 0")
  case True
  have "0 \<le> slack u eta (qps tb) (burst tb)"
    using r ok unfolding slack_def fp_rounding_def tb_ok_def
    by (intro add_nonneg_nonneg mult_nonneg_nonneg) auto
  then show ?thesis using True res by (simp add: tryAcquireN_def gain_def nanos_def)
next
  case False
  let ?tb = "refillLocked rnd now tb"
  have u: "0 \<le> u" "0 \<le> eta" using r by (auto simp: fp_rounding_def)
  have ok1: "tb_ok ?tb" using refill_ok [OF r ok] .
  have b: "0 \<le> u * burst tb" using u ok by (simp add: tb_ok_def)
  have g: "tokens ?tb \<le> tokens tb + gain u (qps tb) (nanos (last_refill ?tb - last_refill tb)) +
      (slack u eta (qps tb) (burst tb) - u * burst tb - eta)"
    using refill_gain [OF r ok, of now] by (simp add: slack_def nanos_def)
  show ?thesis
  proof (cases "tokens ?tb \<ge> n")
    case True
    then have tb': "ok'" "tb' = ?tb\<lparr>tokens := rnd (tokens ?tb - n)\<rparr>"
      using res False by (simp_all add: tryAcquireN_def Let_def)
    have "rnd (tokens ?tb - n) \<le> (1 + u) * (tokens ?tb - n) + eta" using True by (intro fp_upper [OF r]) simp
    also have "\<dots> = (tokens ?tb - n) + u * (tokens ?tb - n) + eta" by (simp add: algebra_simps)
    also have "u * (tokens ?tb - n) \<le> u * burst tb"
      using u ok1 False by (intro mult_left_mono) (auto simp: tb_ok_def)
    finally show ?thesis using tb' g False by simp
  next
    case False
    then have "\<not> ok'" "tb' = ?tb" using res \<open>\<not> n \<le> 0\<close> by (simp_all add: tryAcquireN_def Let_def)
    then show ?thesis using g b u by simp
  qed
qed

lemma tb_exec_gain:
  assumes r: "fp_rounding rnd u eta" and ok: "tb_ok tb" and res: "tb_exec rnd c tb = (n, tb')"
  shows "n + tokens tb' \<le>
    tokens tb + gain u (qps tb) (nanos (last_refill tb' - last_refill tb)) + slack u eta (qps tb) (burst tb)"
proof (cases c)
  case (TbAcquire now)
  obtain ok' tb1 where "tryAcquireN rnd 1 now tb = (ok', tb1)" by fastforce
  then show ?thesis using acquire_gain [OF r ok] TbAcquire res by (fastforce simp: tb_tryAcquire_def)
next
  case (TbAcquireN m now)
  obtain ok' tb1 where "tryAcquireN rnd m now tb = (ok', tb1)" by fastforce
  then show ?thesis using acquire_gain [OF r ok] TbAcquireN res by fastforce
next
  case (TbAvailable now)
  have "0 \<le> u * burst tb" "0 \<le> eta" using r ok by (auto simp: fp_rounding_def tb_ok_def)
  then show ?thesis
    using refill_gain [OF r ok, of now] TbAvailable res
    by (simp add: availableTokens_def Let_def slack_def nanos_def)
qed

lemma tb_run_gain:
  assumes r: "fp_rounding rnd u eta" and "tb_ok tb" "rnd (burst tb) = burst tb" "tb_run rnd cs tb = (n, tb')"
  shows "n + tokens tb' \<le> tokens tb + gain u (qps tb) (nanos (last_refill tb' - last_refill tb)) +
    of_nat (length cs) * slack u eta (qps tb) (burst tb)"
  using assms(2-)
proof (induction cs arbitrary: tb n)
  case Nil
  then show ?case by (simp add: gain_def nanos_def)
next
  case (Cons c cs)
  obtain m tb1 where m: "tb_exec rnd c tb = (m, tb1)" by fastforce
  obtain k where k: "tb_run rnd cs tb1 = (k, tb')" "n = m + k"
    using Cons.prems(3) m by (auto split: prod.splits)
  have tb1: "tb_ok tb1" "burst tb1 = burst tb" "qps tb1 = qps tb"
    using tb_exec_ok [OF r Cons.prems(1,2), of c] m by simp_all
  show ?case
    using tb_exec_gain [OF r Cons.prems(1) m] Cons.IH [OF tb1(1) _ k(1)] tb1 k(2) Cons.prems(2)
      gain_add [of u "qps tb" "last_refill tb1" "last_refill tb" "last_refill tb'"]
    by (simp add: distrib_right)
qed

fun tb_clock :: "tb_call \<Rightarrow> int" where
  "tb_clock (TbAcquire now) = now"
| "tb_clock (TbAcquireN n now) = now"
| "tb_clock (TbAvailable now) = now"

lemma tb_run_clock:
  "\<forall>c \<in> set cs. tb_clock c \<le> t1 \<Longrightarrow> last_refill tb \<le> t1 \<Longrightarrow> last_refill (snd (tb_run rnd cs tb)) \<le> t1"
proof (induction cs arbitrary: tb)
  case Nil
  then show ?case by simp
next
  case (Cons c cs)
  have "last_refill (snd (tb_exec rnd c tb)) \<le> t1"
    using Cons.prems by (cases c)
      (auto simp: tb_tryAcquire_def tryAcquireN_def availableTokens_def refillLocked_def Let_def)
  then show ?case using Cons by (simp add: case_prod_beta)
qed

text \<open>
  C30: the rate bound. Over any sequence of calls whose clock readings do not exceed \<open>t1\<close>, a bucket created at
  \<open>t0\<close> admits at most its burst size plus its rate times the elapsed time, up to the
  floating-point error: a factor \<open>(1 + u) ^ 4\<close> on the refill and a fixed slack per call, both
  of which vanish in exact arithmetic.
\<close>

theorem admission_rate_bounded:
  assumes r: "fp_rounding rnd u eta" and q: "0 \<le> q" and b: "1 \<le> b" "rnd b = b" and t: "t0 \<le> t1"
    and clock: "\<forall>c \<in> set cs. tb_clock c \<le> t1"
  shows "fst (tb_run rnd cs (TokenBucket_new q b t0)) \<le>
    b + (1 + u) ^ 4 * (q * (of_int (t1 - t0) / 1000000000)) + of_nat (length cs) * slack u eta q b"
proof -
  let ?tb = "TokenBucket_new q b t0"
  have tb: "qps ?tb = q" "burst ?tb = b" "tokens ?tb = b" "last_refill ?tb = t0"
    using q b by (simp_all add: TokenBucket_new_def Let_def)
  obtain n tb' where run: "tb_run rnd cs ?tb = (n, tb')" by fastforce
  have last: "last_refill tb' \<le> t1" using tb_run_clock [OF clock, of ?tb rnd] t tb run by simp
  have u: "0 \<le> u" using r by (simp add: fp_rounding_def)
  have "n + tokens tb' \<le> b + gain u q (nanos (last_refill tb' - t0)) + of_nat (length cs) * slack u eta q b"
    using tb_run_gain [OF r tb_ok_new _ run] tb b(2) by simp
  moreover have "gain u q (nanos (last_refill tb' - t0)) \<le> gain u q (nanos (t1 - t0))"
    using last u q by (intro gain_mono) auto
  moreover have "0 \<le> tokens tb'"
    using tb_run_ok [OF r tb_ok_new, of q b t0 cs] run tb b(2) by (simp add: tb_ok_def)
  ultimately show ?thesis using run by (simp add: gain_def nanos_def)
qed

theorem admission_rate_bounded_witness:
  "fst (tb_run (\<lambda>x. x) [TbAcquire 0, TbAcquire 0, TbAcquire 1000000000] (TokenBucket_new 1 1 0)) \<le> 2"
proof -
  have "fp_rounding (\<lambda>x. x) 0 0" by (simp add: fp_rounding_def)
  then show ?thesis
    using admission_rate_bounded [of "\<lambda>x. x" 0 0 1 1 0 1000000000 "[TbAcquire 0, TbAcquire 0, TbAcquire 1000000000]"]
    by (simp add: slack_def)
qed

end
