(* ===== verification/Flow_Backoff.thy ===== *)
theory Flow_Backoff
  imports Complex_Main "HOL-Library.Word" "HOL-Library.Monad_Syntax"
begin

text \<open>
  Per-key exponential backoff, \<^verbatim>\<open>flowcontrol/backoff.h\<close> and \<^verbatim>\<open>flowcontrol/backoff.cc\<close>. Durations are counts of
  milliseconds in a signed 64-bit integer: doubling one that leaves its range is undefined and
  gives \<open>None\<close>. The jitter generator is the 64-bit xorshift of the source; the arithmetic on
  \<^verbatim>\<open>double\<close> is the exact one followed by a rounding function \<open>rnd\<close>, a parameter. Clock
  readings are nanosecond counts. The theory gives the closed form of the delay after a
  number of failures, the bounds of the jittered delay, and that the generator never
  reaches its absorbing state.
\<close>

unbundle bit_operations_syntax

section \<open>State\<close>

record Entry =
  duration :: int
  last_update :: int

record Backoff =
  initial :: int
  max_delay :: int
  jitter :: real
  entries :: "string \<Rightarrow> Entry option"
  rng_state :: "64 word"

definition seedFromClock :: "int \<Rightarrow> 64 word" where
  "seedFromClock now = (let s = word_of_int now in if s \<noteq> 0 then s else 0x9e3779b97f4a7c15)"

definition Backoff_new :: "int \<Rightarrow> int \<Rightarrow> real \<Rightarrow> int \<Rightarrow> Backoff" where
  "Backoff_new initial0 max0 jitter0 now =
     \<lparr>initial = (if initial0 > 0 then initial0 else 1),
      max_delay = (if max0 \<ge> initial0 then max0 else initial0),
      jitter = (if jitter0 < 0 then 0 else jitter0),
      entries = (\<lambda>_. None), rng_state = seedFromClock now\<rparr>"

section \<open>Operations\<close>

definition xorshift64 :: "64 word \<Rightarrow> 64 word" where
  "xorshift64 x0 =
     (let x1 = x0 XOR push_bit 13 x0;
          x2 = x1 XOR drop_bit 7 x1
      in x2 XOR push_bit 17 x2)"

text \<open>A random number in [0, 1): the top 53 bits over a power of two.\<close>

definition unit_random :: "(real \<Rightarrow> real) \<Rightarrow> 64 word \<Rightarrow> real" where
  "unit_random rnd x = rnd (rnd (of_nat (unat (drop_bit 11 x))) / rnd (2 ^ 53))"

definition applyJitter :: "(real \<Rightarrow> real) \<Rightarrow> int \<Rightarrow> Backoff \<Rightarrow> int \<times> Backoff" where
  "applyJitter rnd d bo =
     (if jitter bo \<le> 0 then (d, bo)
      else
        (let rng = xorshift64 (rng_state bo);
             r = unit_random rnd rng;
             factor = rnd (1 + rnd (jitter bo * r))
         in (\<lfloor>rnd (rnd (of_int d) * factor)\<rfloor>, bo\<lparr>rng_state := rng\<rparr>)))"

text \<open>\<^verbatim>\<open>std::min(duration * 2, max_)\<close>.\<close>

definition doubled :: "Backoff \<Rightarrow> int \<Rightarrow> int option" where
  "doubled bo d = (if - (2 ^ 63) \<le> d * 2 \<and> d * 2 < 2 ^ 63 then Some (min (d * 2) (max_delay bo)) else None)"

definition bo_next :: "string \<Rightarrow> int \<Rightarrow> Backoff \<Rightarrow> Backoff option" where
  "bo_next key now bo =
     (case entries bo key of
        None \<Rightarrow> Some (bo\<lparr>entries := (entries bo)(key \<mapsto> \<lparr>duration = initial bo, last_update = now\<rparr>)\<rparr>)
      | Some e \<Rightarrow> do {
          d \<leftarrow> doubled bo (duration e);
          Some (bo\<lparr>entries := (entries bo)(key \<mapsto> \<lparr>duration = d, last_update = now\<rparr>)\<rparr>)
        })"

definition baseDelay :: "string \<Rightarrow> Backoff \<Rightarrow> int" where
  "baseDelay key bo = (case entries bo key of None \<Rightarrow> initial bo | Some e \<Rightarrow> duration e)"

definition bo_get :: "(real \<Rightarrow> real) \<Rightarrow> string \<Rightarrow> Backoff \<Rightarrow> int \<times> Backoff" where
  "bo_get rnd key bo = applyJitter rnd (baseDelay key bo) bo"

definition nextDelay :: "(real \<Rightarrow> real) \<Rightarrow> string \<Rightarrow> int \<Rightarrow> Backoff \<Rightarrow> (int \<times> Backoff) option" where
  "nextDelay rnd key now bo =
     (case entries bo key of
        None \<Rightarrow>
          Some (applyJitter rnd (initial bo)
            (bo\<lparr>entries := (entries bo)(key \<mapsto> \<lparr>duration = initial bo, last_update = now\<rparr>)\<rparr>))
      | Some e \<Rightarrow> do {
          d \<leftarrow> doubled bo (duration e);
          Some (applyJitter rnd d (bo\<lparr>entries := (entries bo)(key \<mapsto> \<lparr>duration = d, last_update = now\<rparr>)\<rparr>))
        })"

definition bo_reset :: "string \<Rightarrow> Backoff \<Rightarrow> Backoff" where
  "bo_reset key bo = bo\<lparr>entries := (entries bo)(key := None)\<rparr>"

text \<open>\<^verbatim>\<open>gc(max_age)\<close> erases while it walks the map; the order does not matter.\<close>

definition gc :: "int \<Rightarrow> int \<Rightarrow> Backoff \<Rightarrow> Backoff" where
  "gc max_age now bo =
     bo\<lparr>entries := (\<lambda>key. case entries bo key of
                            None \<Rightarrow> None
                          | Some e \<Rightarrow> if now - last_update e > max_age * 1000000 then None else Some e)\<rparr>"

section \<open>The generator\<close>

lemma xor_eq_0: "(x :: 'a::len word) XOR y = 0 \<Longrightarrow> x = y"
  by (simp add: bit_eq_iff bit_xor_iff)

lemma shift_left_fixpoint:
  fixes x :: "'a::len word"
  assumes "0 < k" "x XOR push_bit k x = 0"
  shows "x = 0"
proof -
  have eq: "x = push_bit k x" using xor_eq_0 [OF assms(2)] .
  have "\<not> bit x n" for n
  proof (induction n rule: less_induct)
    case (less n)
    have "bit x n = bit (push_bit k x) n" using eq by simp
    then show ?case using less [of "n - k"] assms(1) by (auto simp: bit_push_bit_iff)
  qed
  then show ?thesis by (simp add: bit_eq_iff)
qed

lemma shift_right_fixpoint:
  fixes x :: "'a::len word"
  assumes "0 < k" "x XOR drop_bit k x = 0"
  shows "x = 0"
proof -
  have eq: "x = drop_bit k x" using xor_eq_0 [OF assms(2)] .
  have "\<not> bit x n" for n
  proof (induction "LENGTH('a) - n" arbitrary: n rule: less_induct)
    case less
    show ?case
    proof (cases "n < LENGTH('a)")
      case True
      have "bit x n = bit (drop_bit k x) n" using eq by simp
      then show ?thesis using less [of "k + n"] True assms(1) by (simp add: bit_drop_bit_eq)
    next
      case False
      then show ?thesis using bit_imp_le_length by blast
    qed
  qed
  then show ?thesis by (simp add: bit_eq_iff)
qed

lemma xorshift64_nonzero: "x \<noteq> 0 \<Longrightarrow> xorshift64 x \<noteq> 0"
  unfolding xorshift64_def Let_def
  using shift_left_fixpoint [of 13 x] shift_right_fixpoint [of 7] shift_left_fixpoint [of 17] by fastforce

lemma seedFromClock_nonzero: "seedFromClock now \<noteq> 0"
  by (simp add: seedFromClock_def Let_def)

section \<open>Sequences of calls\<close>

datatype bo_call = BoNext string int | BoNextDelay string int | BoGet string | BoReset string | BoGc int int

fun bo_exec :: "(real \<Rightarrow> real) \<Rightarrow> bo_call \<Rightarrow> Backoff \<Rightarrow> Backoff option" where
  "bo_exec rnd (BoNext key now) bo = bo_next key now bo"
| "bo_exec rnd (BoNextDelay key now) bo = map_option snd (nextDelay rnd key now bo)"
| "bo_exec rnd (BoGet key) bo = Some (snd (bo_get rnd key bo))"
| "bo_exec rnd (BoReset key) bo = Some (bo_reset key bo)"
| "bo_exec rnd (BoGc max_age now) bo = Some (gc max_age now bo)"

fun bo_run :: "(real \<Rightarrow> real) \<Rightarrow> bo_call list \<Rightarrow> Backoff \<Rightarrow> Backoff option" where
  "bo_run rnd [] bo = Some bo"
| "bo_run rnd (c # cs) bo = do { bo' \<leftarrow> bo_exec rnd c bo; bo_run rnd cs bo' }"

text \<open>
  The specification: for every key the number of failures recorded since it was last cleared and the time of
  the last one.
\<close>

type_synonym failures = "string \<Rightarrow> (nat \<times> int) option"

definition record_failure :: "string \<Rightarrow> int \<Rightarrow> failures \<Rightarrow> failures" where
  "record_failure key now f = f(key \<mapsto> (case f key of None \<Rightarrow> (1, now) | Some (n, t) \<Rightarrow> (n + 1, now)))"

fun spec_exec :: "bo_call \<Rightarrow> failures \<Rightarrow> failures" where
  "spec_exec (BoNext key now) f = record_failure key now f"
| "spec_exec (BoNextDelay key now) f = record_failure key now f"
| "spec_exec (BoGet key) f = f"
| "spec_exec (BoReset key) f = f(key := None)"
| "spec_exec (BoGc max_age now) f =
     (\<lambda>key. case f key of None \<Rightarrow> None
            | Some (n, t) \<Rightarrow> if now - t > max_age * 1000000 then None else Some (n, t))"

definition spec_delay :: "int \<Rightarrow> int \<Rightarrow> nat \<Rightarrow> int" where
  "spec_delay init cap n = min (init * 2 ^ (n - 1)) cap"

text \<open>The entries that a failure record stands for.\<close>

definition entries_of :: "int \<Rightarrow> int \<Rightarrow> failures \<Rightarrow> string \<Rightarrow> Entry option" where
  "entries_of init cap f key =
     map_option (\<lambda>(n, t). \<lparr>duration = spec_delay init cap n, last_update = t\<rparr>) (f key)"

definition counted :: "failures \<Rightarrow> bool" where
  "counted f = (\<forall>key n t. f key = Some (n, t) \<longrightarrow> 0 < n)"

lemma counted_exec: "counted f \<Longrightarrow> counted (spec_exec c f)"
  by (cases c) (auto simp: counted_def record_failure_def split: option.splits if_splits)

lemma doubled_spec:
  assumes "0 < init" "init \<le> cap" "cap < 2 ^ 62" "max_delay bo = cap" "0 < n"
  shows "doubled bo (spec_delay init cap n) = Some (spec_delay init cap (n + 1))"
proof -
  obtain m where n: "n = Suc m" using assms(5) by (cases n) auto
  have pos: "0 < init * 2 ^ m" using assms(1) by simp
  have "min (min (init * 2 ^ m) cap * 2) cap = min (init * 2 ^ Suc m) cap"
    using assms(1,2) pos by (auto simp: min_def)
  moreover have "0 < spec_delay init cap n" "spec_delay init cap n < 2 ^ 62"
    using assms pos by (auto simp: spec_delay_def n)
  ultimately show ?thesis using assms(4) by (simp add: doubled_def spec_delay_def n)
qed

definition config :: "int \<Rightarrow> int \<Rightarrow> Backoff \<Rightarrow> bool" where
  "config init cap bo = (initial bo = init \<and> max_delay bo = cap)"

lemma applyJitter_frame [simp]:
  "entries (snd (applyJitter rnd d bo)) = entries bo" "initial (snd (applyJitter rnd d bo)) = initial bo"
  "max_delay (snd (applyJitter rnd d bo)) = max_delay bo" "jitter (snd (applyJitter rnd d bo)) = jitter bo"
  by (simp_all add: applyJitter_def Let_def)

lemma entries_of_record:
  "(entries_of init cap f)(key \<mapsto> \<lparr>duration = spec_delay init cap (case f key of None \<Rightarrow> 1 | Some (n, t) \<Rightarrow> n + 1),
     last_update = now\<rparr>) = entries_of init cap (record_failure key now f)"
  by (rule ext) (auto simp: entries_of_def record_failure_def split: option.splits)

lemma failure_step:
  assumes "0 < init" "init \<le> cap" "cap < 2 ^ 62" "counted f" "config init cap bo" "entries bo = entries_of init cap f"
  shows "\<exists>bo'. bo_next key now bo = Some bo' \<and> config init cap bo' \<and>
      entries bo' = entries_of init cap (record_failure key now f)"
    and "\<exists>d bo'. nextDelay rnd key now bo = Some (d, bo') \<and> config init cap bo' \<and>
      entries bo' = entries_of init cap (record_failure key now f)"
proof -
  let ?d = "spec_delay init cap (case f key of None \<Rightarrow> 1 | Some (n, t) \<Rightarrow> n + 1)"
  let ?bo = "bo\<lparr>entries := (entries bo)(key \<mapsto> \<lparr>duration = ?d, last_update = now\<rparr>)\<rparr>"
  have bo: "config init cap ?bo" "entries ?bo = entries_of init cap (record_failure key now f)"
    using assms(5) entries_of_record [of init cap f key now] by (simp_all add: config_def assms(6))
  have next_eq: "bo_next key now bo = Some ?bo \<and> nextDelay rnd key now bo = Some (applyJitter rnd ?d ?bo)"
  proof (cases "f key")
    case None
    then have "entries bo key = None" "?d = initial bo"
      using assms by (simp_all add: entries_of_def spec_delay_def config_def)
    then show ?thesis using None by (simp add: bo_next_def nextDelay_def)
  next
    case (Some p)
    then obtain n t where p: "f key = Some (n, t)" by (cases p) auto
    then have "0 < n" using assms(4) by (auto simp: counted_def)
    then have "doubled bo (spec_delay init cap n) = Some (spec_delay init cap (n + 1))"
      using doubled_spec [OF assms(1-3)] assms(5) by (simp add: config_def)
    then show ?thesis using p assms(6) by (simp add: bo_next_def nextDelay_def entries_of_def)
  qed
  show "\<exists>bo'. bo_next key now bo = Some bo' \<and> config init cap bo' \<and>
      entries bo' = entries_of init cap (record_failure key now f)"
    using next_eq bo by blast
  show "\<exists>d bo'. nextDelay rnd key now bo = Some (d, bo') \<and> config init cap bo' \<and>
      entries bo' = entries_of init cap (record_failure key now f)"
    using next_eq bo by (metis applyJitter_frame(1-3) config_def prod.collapse)
qed

lemma bo_exec_spec:
  assumes "0 < init" "init \<le> cap" "cap < 2 ^ 62" "counted f" "config init cap bo" "entries bo = entries_of init cap f"
  shows "\<exists>bo'. bo_exec rnd c bo = Some bo' \<and> config init cap bo' \<and> entries bo' = entries_of init cap (spec_exec c f)"
proof (cases c)
  case (BoNextDelay key now)
  then show ?thesis using failure_step(2) [OF assms, of rnd key now] by auto
next
  case (BoReset key)
  have "(entries_of init cap f)(key := None) = entries_of init cap (f(key := None))"
    by (rule ext) (simp add: entries_of_def)
  then show ?thesis using BoReset assms by (simp add: bo_reset_def config_def)
next
  case (BoGc age now)
  have "entries (gc age now bo) = entries_of init cap (spec_exec (BoGc age now) f)"
    by (rule ext) (auto simp: gc_def assms(6) entries_of_def split: option.splits)
  then show ?thesis using BoGc assms(5) by (simp add: gc_def config_def)
qed (use failure_step(1) [OF assms] assms(5,6) in \<open>auto simp: bo_get_def config_def\<close>)

lemma bo_run_spec:
  assumes "0 < init" "init \<le> cap" "cap < 2 ^ 62" "counted f" "config init cap bo" "entries bo = entries_of init cap f"
  shows "\<exists>bo'. bo_run rnd cs bo = Some bo' \<and> config init cap bo' \<and> entries bo' = entries_of init cap (fold spec_exec cs f)"
  using assms(4-)
proof (induction cs arbitrary: f bo)
  case Nil
  then show ?case by simp
next
  case (Cons c cs)
  obtain bo1 where "bo_exec rnd c bo = Some bo1" "config init cap bo1" "entries bo1 = entries_of init cap (spec_exec c f)"
    using bo_exec_spec [OF assms(1-3) Cons.prems] by blast
  then show ?case using Cons.IH [OF counted_exec [OF Cons.prems(1)]] by auto
qed



section \<open>Jitter\<close>

text \<open>What the code relies on: rounding is monotone and exact on the integers of 53 bits.\<close>

definition fp_integers :: "(real \<Rightarrow> real) \<Rightarrow> bool" where
  "fp_integers rnd = ((\<forall>x y. x \<le> y \<longrightarrow> rnd x \<le> rnd y) \<and> (\<forall>i. \<bar>i\<bar> \<le> 2 ^ 53 \<longrightarrow> rnd (of_int i) = of_int i))"

lemma fp_int_exact: "fp_integers rnd \<Longrightarrow> \<bar>i\<bar> \<le> 2 ^ 53 \<Longrightarrow> rnd (of_int i) = of_int i"
  unfolding fp_integers_def by blast

lemma fp_int_mono: "fp_integers rnd \<Longrightarrow> x \<le> y \<Longrightarrow> rnd x \<le> rnd y"
  by (simp add: fp_integers_def)

lemma fp_int_const: "fp_integers rnd \<Longrightarrow> rnd 0 = 0" "fp_integers rnd \<Longrightarrow> rnd 1 = 1" "fp_integers rnd \<Longrightarrow> rnd (2 ^ 53) = 2 ^ 53"
  using fp_int_exact [of rnd 0] fp_int_exact [of rnd 1] fp_int_exact [of rnd "2 ^ 53"] by simp_all

lemma unit_random_range:
  assumes "fp_integers rnd"
  shows "0 \<le> unit_random rnd x \<and> unit_random rnd x \<le> 1"
proof -
  define n where "n = unat (drop_bit 11 x)"
  have "n < 2 ^ 53"
    using drop_bit_eq_div [of 11 "unat x"] unsigned_less [of x, where ?'a = nat]
    by (simp add: n_def unat_drop_bit_eq)
  then have n: "rnd (of_nat n) = of_nat n" "(of_nat n :: real) \<le> 2 ^ 53"
    using fp_int_exact [OF assms, of "int n"] by simp_all
  have "rnd 0 \<le> rnd (of_nat n / 2 ^ 53)" "rnd (of_nat n / 2 ^ 53) \<le> rnd 1"
    using n by (intro fp_int_mono [OF assms]; simp)+
  then show ?thesis
    unfolding unit_random_def n_def [symmetric] using n fp_int_const [OF assms] by simp
qed

lemma applyJitter_range:
  assumes r: "fp_integers rnd" and d: "0 \<le> d" "d \<le> 2 ^ 53" and j: "0 \<le> jitter bo"
  shows "d \<le> fst (applyJitter rnd d bo) \<and> of_int (fst (applyJitter rnd d bo)) \<le> rnd (of_int d * rnd (1 + rnd (jitter bo)))"
proof -
  have rd: "rnd (of_int d) = of_int d" using fp_int_exact [OF r] d by simp
  let ?u = "unit_random rnd (xorshift64 (rng_state bo))"
  have u: "0 \<le> ?u" "?u \<le> 1" using unit_random_range [OF r] by auto
  have "rnd 0 \<le> rnd (jitter bo * ?u)" "rnd (jitter bo * ?u) \<le> rnd (jitter bo)"
    using u j by (intro fp_int_mono [OF r]; simp add: mult_left_le)+
  then have f: "rnd 1 \<le> rnd (1 + rnd (jitter bo * ?u))" "rnd (1 + rnd (jitter bo * ?u)) \<le> rnd (1 + rnd (jitter bo))"
    using fp_int_const [OF r] by (intro fp_int_mono [OF r]; simp)+
  let ?x = "rnd (of_int d * rnd (1 + rnd (jitter bo * ?u)))"
  have "rnd (of_int d) \<le> ?x"
    using d f fp_int_const(2) [OF r] by (intro fp_int_mono [OF r]) (simp add: mult_left_mono mult_le_cancel_left1)
  then have lo: "of_int d \<le> ?x" using rd by simp
  have hi: "?x \<le> rnd (of_int d * rnd (1 + rnd (jitter bo)))"
    using d f by (intro fp_int_mono [OF r]) (simp add: mult_left_mono)
  have jit: "rnd (of_int d) \<le> rnd (of_int d * rnd (1 + rnd (jitter bo)))" using lo hi rd by simp
  show ?thesis
  proof (cases "jitter bo \<le> 0")
    case True
    then show ?thesis using jit rd by (simp add: applyJitter_def)
  next
    case False
    then have eq: "fst (applyJitter rnd d bo) = \<lfloor>?x\<rfloor>" by (simp add: applyJitter_def Let_def rd)
    show ?thesis unfolding eq using lo hi by (simp add: le_floor_iff) linarith
  qed
qed

lemma rng_exec: "bo_exec rnd c bo = Some bo' \<Longrightarrow> rng_state bo \<noteq> 0 \<Longrightarrow> rng_state bo' \<noteq> 0"
  using xorshift64_nonzero [of "rng_state bo"]
  by (cases c) (auto simp: bo_next_def nextDelay_def bo_get_def bo_reset_def gc_def applyJitter_def Let_def
      split: option.splits bind_splits if_splits)

lemma rng_run: "bo_run rnd cs bo = Some bo' \<Longrightarrow> rng_state bo \<noteq> 0 \<Longrightarrow> rng_state bo' \<noteq> 0"
  by (induction cs arbitrary: bo) (auto split: bind_splits dest: rng_exec)

lemma jitter_exec: "bo_exec rnd c bo = Some bo' \<Longrightarrow> jitter bo' = jitter bo"
  by (cases c) (auto simp: bo_next_def nextDelay_def bo_get_def bo_reset_def gc_def applyJitter_def Let_def
      split: option.splits bind_splits if_splits)

lemma jitter_run: "bo_run rnd cs bo = Some bo' \<Longrightarrow> jitter bo' = jitter bo"
  by (induction cs arbitrary: bo) (auto split: bind_splits dest: jitter_exec)

text \<open>
  The jittered delay. After any calls, the delay returned for a key lies between the base delay and the
  base delay times one plus the jitter, as the arithmetic rounds it, for base delays up to
  2^53 milliseconds; and the generator never reaches zero, the state it could not leave.
\<close>

theorem jittered_delay_bounds:
  assumes "fp_integers rnd" and run: "bo_run rnd cs (Backoff_new init cap j t) = Some bo"
    and "0 \<le> j" "0 \<le> baseDelay key bo" "baseDelay key bo \<le> 2 ^ 53"
  shows "baseDelay key bo \<le> fst (bo_get rnd key bo) \<and>
    of_int (fst (bo_get rnd key bo)) \<le> rnd (of_int (baseDelay key bo) * rnd (1 + rnd j)) \<and> rng_state bo \<noteq> 0"
proof -
  have "rng_state (Backoff_new init cap j t) \<noteq> 0" by (simp add: Backoff_new_def seedFromClock_nonzero)
  then have "rng_state bo \<noteq> 0" using rng_run [OF run] by simp
  moreover have "jitter bo = j" using jitter_run [OF run] assms(3) by (simp add: Backoff_new_def)
  ultimately show ?thesis
    using applyJitter_range [OF assms(1,4,5), of bo] assms(3) by (simp add: bo_get_def)
qed

theorem jittered_delay_bounds_witness:
  "\<exists>bo. bo_run (\<lambda>x. x) [BoNext ''a'' 0] (Backoff_new 100 350 (1 / 2) 0) = Some bo \<and>
     100 \<le> fst (bo_get (\<lambda>x. x) ''a'' bo) \<and> of_int (fst (bo_get (\<lambda>x. x) ''a'' bo)) \<le> (150 :: real)"
proof -
  have fp: "fp_integers (\<lambda>x. x)" by (simp add: fp_integers_def)
  obtain bo where run: "bo_run (\<lambda>x. x) [BoNext ''a'' 0] (Backoff_new 100 350 (1 / 2) 0) = Some bo"
      and bo: "baseDelay ''a'' bo = 100"
    by (simp add: bo_next_def Backoff_new_def baseDelay_def)
  show ?thesis using jittered_delay_bounds [OF fp run, of "''a''"] bo run by simp
qed

end
