(* ===== verification/Flow_Limiter.thy ===== *)
theory Flow_Limiter
  imports Main "HOL-Library.Word"
begin

text \<open>
  The lock-free concurrency limiter, \<^verbatim>\<open>flowcontrol/concurrency_limiter.h\<close>. The counter is a 64-bit word. Threads
  run \<^verbatim>\<open>tryAcquire\<close> one atomic operation at a time, so a step relation interleaves the load, the
  weak compare-and-swap (which may fail spuriously) and the operations on permits. The
  theory shows that under every interleaving the counter is the number of permits that hold a
  slot and never exceeds the limit, and that an uncontended call decides in one attempt.
\<close>

section \<open>One call without interference\<close>

record ConcurrencyLimiter =
  max_concurrency :: "64 word"
  in_flight :: "64 word"

definition ConcurrencyLimiter_new :: "64 word \<Rightarrow> ConcurrencyLimiter" where
  "ConcurrencyLimiter_new n = \<lparr>max_concurrency = n, in_flight = 0\<rparr>"

definition inFlight :: "ConcurrencyLimiter \<Rightarrow> 64 word" where
  "inFlight l = in_flight l"

definition maxConcurrency :: "ConcurrencyLimiter \<Rightarrow> 64 word" where
  "maxConcurrency l = max_concurrency l"

definition isOverloaded :: "ConcurrencyLimiter \<Rightarrow> bool" where
  "isOverloaded l = (max_concurrency l \<noteq> 0 \<and> in_flight l \<ge> max_concurrency l)"

definition limiter_release :: "ConcurrencyLimiter \<Rightarrow> ConcurrencyLimiter" where
  "limiter_release l = l\<lparr>in_flight := in_flight l - 1\<rparr>"

section \<open>Threads and permits\<close>

text \<open>
  A permit object is identified by a number; it holds a slot or is empty. A thread is idle, or inside the
  loop of \<^verbatim>\<open>tryAcquire\<close> with the value \<^verbatim>\<open>cur\<close> it last read and the permit object it will return.
\<close>

datatype thread_pc = Idle | InLoop "64 word" nat

record world =
  limiter :: ConcurrencyLimiter
  holding :: "nat set"
  thread_pc :: "nat \<Rightarrow> thread_pc"

definition world_new :: "64 word \<Rightarrow> world" where
  "world_new n = \<lparr>limiter = ConcurrencyLimiter_new n, holding = {}, thread_pc = (\<lambda>_. Idle)\<rparr>"

text \<open>\<^verbatim>\<open>Permit::release\<close> on a permit object; a second call finds it empty.\<close>

definition permit_release :: "nat \<Rightarrow> world \<Rightarrow> world" where
  "permit_release p w =
     (if p \<in> holding w then w\<lparr>limiter := limiter_release (limiter w), holding := holding w - {p}\<rparr> else w)"

text \<open>The move constructor and the move assignment; the target of a construction is a fresh object.\<close>

definition permit_move :: "nat \<Rightarrow> nat \<Rightarrow> world \<Rightarrow> world" where
  "permit_move p q w =
     (if q \<in> holding w then w\<lparr>holding := insert p (holding w - {q})\<rparr> else w)"

definition permit_move_assign :: "nat \<Rightarrow> nat \<Rightarrow> world \<Rightarrow> world" where
  "permit_move_assign p q w = (if p \<noteq> q then permit_move p q (permit_release p w) else w)"

text \<open>
  \<^verbatim>\<open>tryAcquire\<close> in atomic steps: \<open>t\<close> is the thread, \<open>p\<close> the permit object of its result, which does not
  hold a slot before. The memory orders do not matter for the counter, which is modified
  by atomic read-modify-write operations only.
\<close>

inductive limiter_step :: "world \<Rightarrow> world \<Rightarrow> bool" where
  unlimited: "\<lbrakk> thread_pc w t = Idle; max_concurrency (limiter w) = 0; p \<notin> holding w \<rbrakk> \<Longrightarrow>
    limiter_step w (w\<lparr>limiter := (limiter w)\<lparr>in_flight := in_flight (limiter w) + 1\<rparr>,
                      holding := insert p (holding w)\<rparr>)"
| load: "\<lbrakk> thread_pc w t = Idle; max_concurrency (limiter w) \<noteq> 0 \<rbrakk> \<Longrightarrow>
    limiter_step w (w\<lparr>thread_pc := (thread_pc w)(t := InLoop (in_flight (limiter w)) p)\<rparr>)"
| cas_success: "\<lbrakk> thread_pc w t = InLoop cur p; cur < max_concurrency (limiter w);
                  in_flight (limiter w) = cur; p \<notin> holding w \<rbrakk> \<Longrightarrow>
    limiter_step w (w\<lparr>limiter := (limiter w)\<lparr>in_flight := cur + 1\<rparr>, holding := insert p (holding w),
                      thread_pc := (thread_pc w)(t := Idle)\<rparr>)"
| cas_failure: "\<lbrakk> thread_pc w t = InLoop cur p; cur < max_concurrency (limiter w) \<rbrakk> \<Longrightarrow>
    limiter_step w (w\<lparr>thread_pc := (thread_pc w)(t := InLoop (in_flight (limiter w)) p)\<rparr>)"
| at_capacity: "\<lbrakk> thread_pc w t = InLoop cur p; \<not> cur < max_concurrency (limiter w) \<rbrakk> \<Longrightarrow>
    limiter_step w (w\<lparr>thread_pc := (thread_pc w)(t := Idle)\<rparr>)"
| release: "limiter_step w (permit_release p w)"
| move: "p \<notin> holding w \<Longrightarrow> limiter_step w (permit_move p q w)"
| move_assign: "limiter_step w (permit_move_assign p q w)"

inductive limiter_reachable :: "64 word \<Rightarrow> world \<Rightarrow> bool" for n where
  start: "limiter_reachable n (world_new n)"
| step: "\<lbrakk> limiter_reachable n w; limiter_step w w' \<rbrakk> \<Longrightarrow> limiter_reachable n w'"

section \<open>The invariant\<close>

definition limiter_inv :: "64 word \<Rightarrow> world \<Rightarrow> bool" where
  "limiter_inv n w =
     (finite (holding w) \<and> max_concurrency (limiter w) = n \<and>
      in_flight (limiter w) = of_nat (card (holding w)) \<and>
      (n \<noteq> 0 \<longrightarrow> card (holding w) \<le> unat n))"

lemma limiter_inv_new: "limiter_inv n (world_new n)"
  by (simp add: limiter_inv_def world_new_def ConcurrencyLimiter_new_def)

lemma permit_release_inv: "limiter_inv n w \<Longrightarrow> limiter_inv n (permit_release p w)"
proof (cases "p \<in> holding w")
  case True
  assume inv: "limiter_inv n w"
  then have c: "card (holding w) = Suc (card (holding w - {p}))"
    using True card.remove [of "holding w" p] by (simp add: limiter_inv_def)
  show ?thesis
    using inv True unfolding limiter_inv_def permit_release_def limiter_release_def c by auto
qed (simp add: permit_release_def)

lemma permit_move_inv: "limiter_inv n w \<Longrightarrow> p \<notin> holding w \<Longrightarrow> limiter_inv n (permit_move p q w)"
proof (cases "q \<in> holding w")
  case True
  assume inv: "limiter_inv n w" "p \<notin> holding w"
  then have "card (insert p (holding w - {q})) = card (holding w)"
    using True card.remove [of "holding w" q] by (simp add: limiter_inv_def)
  then show ?thesis using inv True by (simp add: limiter_inv_def permit_move_def)
qed (simp add: permit_move_def)

lemma permit_move_assign_inv: "limiter_inv n w \<Longrightarrow> limiter_inv n (permit_move_assign p q w)"
proof -
  assume inv: "limiter_inv n w"
  have "p \<notin> holding (permit_release p w)" by (simp add: permit_release_def)
  then show ?thesis
    using permit_move_inv [OF permit_release_inv [OF inv]] inv by (simp add: permit_move_assign_def)
qed

lemma admit_inv:
  assumes inv: "limiter_inv n w" and "p \<notin> holding w" "n \<noteq> 0 \<Longrightarrow> in_flight (limiter w) < n"
  shows "limiter_inv n (w\<lparr>limiter := (limiter w)\<lparr>in_flight := in_flight (limiter w) + 1\<rparr>,
    holding := insert p (holding w)\<rparr>)"
proof -
  have "card (holding w) < unat n" if "n \<noteq> 0"
  proof -
    have "card (holding w) < 2 ^ 64"
      using inv that unsigned_less [of n, where ?'a = nat] by (auto simp: limiter_inv_def)
    then have "unat (in_flight (limiter w)) = card (holding w)"
      using inv by (simp add: limiter_inv_def unat_of_nat)
    then show ?thesis using assms(3) [OF that] by (simp add: word_less_nat_alt)
  qed
  then show ?thesis using inv assms(2) by (simp add: limiter_inv_def add.commute Suc_le_eq)
qed

lemma limiter_inv_pc [simp]: "limiter_inv n (w\<lparr>thread_pc := f\<rparr>) = limiter_inv n w"
  by (simp add: limiter_inv_def)

lemma limiter_step_inv: "limiter_step w w' \<Longrightarrow> limiter_inv n w \<Longrightarrow> limiter_inv n w'"
proof (induction rule: limiter_step.induct)
  case (unlimited w t p)
  then show ?case using admit_inv [of n w p] by (simp add: limiter_inv_def)
next
  case (cas_success w t cur p)
  then have "limiter_inv n (w\<lparr>limiter := (limiter w)\<lparr>in_flight := in_flight (limiter w) + 1\<rparr>,
      holding := insert p (holding w)\<rparr>)"
    by (intro admit_inv) (auto simp: limiter_inv_def)
  then show ?case using cas_success(3) by simp
next
  case (move p w q)
  then show ?case by (simp add: permit_move_inv)
qed (simp_all add: permit_release_inv permit_move_assign_inv)

lemma limiter_reachable_inv: "limiter_reachable n w \<Longrightarrow> limiter_inv n w"
  by (induction rule: limiter_reachable.induct) (auto simp: limiter_inv_new intro: limiter_step_inv)

text \<open>
  C31: the limit holds under every interleaving. In every state that any number of threads can reach through
  \<^verbatim>\<open>tryAcquire\<close>, releases, moves and destructions of permits, the counter equals the number of
  permits holding a slot, and with a non-zero limit at most that many permits hold one.
\<close>

theorem in_flight_counts_permits:
  assumes "limiter_reachable n w"
  shows "finite (holding w) \<and> inFlight (limiter w) = of_nat (card (holding w)) \<and>
    (maxConcurrency (limiter w) = 0 \<or> card (holding w) \<le> unat (maxConcurrency (limiter w)))"
  using limiter_reachable_inv [OF assms] by (auto simp: limiter_inv_def inFlight_def maxConcurrency_def)

theorem in_flight_counts_permits_witness:
  "\<exists>w. limiter_reachable 1 w \<and> holding w = {7} \<and> inFlight (limiter w) = 1"
proof -
  let ?w1 = "(world_new 1)\<lparr>thread_pc := (thread_pc (world_new 1))(0 := InLoop 0 7)\<rparr>"
  let ?w2 = "?w1\<lparr>limiter := (limiter ?w1)\<lparr>in_flight := 0 + 1\<rparr>, holding := insert 7 (holding ?w1),
                thread_pc := (thread_pc ?w1)(0 := Idle)\<rparr>"
  have "limiter_step (world_new 1) ?w1"
    using limiter_step.load [of "world_new 1" 0 7] by (simp add: world_new_def ConcurrencyLimiter_new_def)
  moreover have "limiter_step ?w1 ?w2"
    by (rule limiter_step.cas_success) (simp_all add: world_new_def ConcurrencyLimiter_new_def)
  ultimately have r: "limiter_reachable 1 ?w2" by (meson limiter_reachable.intros)
  have h: "holding ?w2 = {7}" by (simp add: world_new_def)
  have "inFlight (limiter ?w2) = of_nat (card (holding ?w2))" using in_flight_counts_permits [OF r] by blast
  then have "inFlight (limiter ?w2) = 1" unfolding h by simp
  then show ?thesis using r h by blast
qed

section \<open>Progress\<close>

text \<open>
  An attempt that nobody interferes with: from the load to the decision. A thread only stays in the loop when
  another thread changed the counter or the weak compare-and-swap failed spuriously.
\<close>

definition tryAcquire_alone :: "ConcurrencyLimiter \<Rightarrow> bool \<times> ConcurrencyLimiter" where
  "tryAcquire_alone l =
     (if max_concurrency l = 0 then (True, l\<lparr>in_flight := in_flight l + 1\<rparr>)
      else let cur = in_flight l in
        if cur < max_concurrency l then (True, l\<lparr>in_flight := cur + 1\<rparr>) else (False, l))"

lemma tryAcquire_alone_steps:
  assumes "thread_pc w t = Idle" "p \<notin> holding w"
  shows "\<exists>w'. limiter_step\<^sup>*\<^sup>* w w' \<and> limiter w' = snd (tryAcquire_alone (limiter w)) \<and>
    thread_pc w' = thread_pc w \<and>
    holding w' = (if fst (tryAcquire_alone (limiter w)) then insert p (holding w) else holding w)"
proof -
  let ?l = "limiter w"
  show ?thesis
  proof (cases "max_concurrency ?l = 0")
    case True
    then show ?thesis using limiter_step.unlimited [OF assms(1) True assms(2)]
      by (intro exI [of _ "w\<lparr>limiter := ?l\<lparr>in_flight := in_flight ?l + 1\<rparr>, holding := insert p (holding w)\<rparr>"])
        (auto simp: tryAcquire_alone_def)
  next
    case False
    let ?w1 = "w\<lparr>thread_pc := (thread_pc w)(t := InLoop (in_flight ?l) p)\<rparr>"
    have s1: "limiter_step w ?w1" using limiter_step.load [of w t p] assms(1) False by blast
    have same: "(thread_pc w)(t := Idle) = thread_pc w" using assms(1) by auto
    show ?thesis
    proof (cases "in_flight ?l < max_concurrency ?l")
      case True
      let ?w2 = "?w1\<lparr>limiter := (limiter ?w1)\<lparr>in_flight := in_flight ?l + 1\<rparr>,
          holding := insert p (holding ?w1), thread_pc := (thread_pc ?w1)(t := Idle)\<rparr>"
      have "limiter_step ?w1 ?w2"
        by (rule limiter_step.cas_success [where cur = "in_flight ?l"]) (use True assms(2) in simp_all)
      then have "limiter_step\<^sup>*\<^sup>* w ?w2" using s1 by (meson converse_rtranclp_into_rtranclp r_into_rtranclp)
      then show ?thesis
        using False True same by (intro exI [of _ ?w2]) (simp add: tryAcquire_alone_def)
    next
      case full: False
      let ?w2 = "?w1\<lparr>thread_pc := (thread_pc ?w1)(t := Idle)\<rparr>"
      have "limiter_step ?w1 ?w2"
        by (rule limiter_step.at_capacity [where cur = "in_flight ?l"]) (use full in simp_all)
      then have "limiter_step\<^sup>*\<^sup>* w ?w2" using s1 by (meson converse_rtranclp_into_rtranclp r_into_rtranclp)
      then show ?thesis
        using False full same by (intro exI [of _ ?w2]) (simp add: tryAcquire_alone_def)
    qed
  qed
qed

end
