(* ===== verification/Reactor_Timer.thy ===== *)
theory Reactor_Timer
  imports Main "HOL-Library.Word" "HOL-Library.Product_Lexorder" "HOL-Library.Monad_Syntax" "HOL-Library.Sublist"
begin

text \<open>
  The timer queue, \<^verbatim>\<open>reactor/timer.h\<close>, \<^verbatim>\<open>reactor/timer_queue.h\<close> and \<^verbatim>\<open>reactor/timer_queue.cc\<close>, with the time stamps of
  \<^verbatim>\<open>logging/timestamp.h\<close>. Timers live in an explicit heap, because the queue owns them by raw pointers
  and handles keep pointers: reading a freed timer is undefined behaviour and gives \<open>None\<close>. The
  address of a new timer is the allocator's choice. Callbacks add and cancel timers while the
  queue dispatches. The theory shows the ownership and ordering invariant, which timers a
  dispatch fires, and what goes wrong when a handle outlives its timer.
\<close>

section \<open>Time stamps\<close>

type_synonym timestamp = "64 word"

definition invalid :: timestamp where
  "invalid = 0"

definition millisecondsSinceEpoch :: "timestamp \<Rightarrow> 64 word" where
  "millisecondsSinceEpoch t = t div 1000"

definition secondsSinceEpoch :: "timestamp \<Rightarrow> 64 word" where
  "secondsSinceEpoch t = t div 1000000"

definition ts_valid :: "timestamp \<Rightarrow> bool" where
  "ts_valid t = (0 <s t)"

definition addMilliseconds :: "timestamp \<Rightarrow> 64 word \<Rightarrow> timestamp" where
  "addMilliseconds t ms = t + ms * 1000"

section \<open>Timers\<close>

type_synonym addr = nat
type_synonym callback = nat

record Timer =
  callback :: callback
  expiration :: timestamp
  interval_ms :: "64 word"
  repeat :: bool
  sequence :: nat

definition Timer_new :: "callback \<Rightarrow> timestamp \<Rightarrow> 64 word \<Rightarrow> nat \<Rightarrow> Timer" where
  "Timer_new cb when interval num_created =
     \<lparr>callback = cb, expiration = when, interval_ms = interval, repeat = (interval > 0),
      sequence = num_created + 1\<rparr>"

definition restart :: "timestamp \<Rightarrow> Timer \<Rightarrow> Timer" where
  "restart now t =
     (if repeat t then t\<lparr>expiration := addMilliseconds now (interval_ms t)\<rparr>
      else t\<lparr>expiration := invalid\<rparr>)"

text \<open>\<^verbatim>\<open>TimerId\<close>: a pointer, possibly null, and the sequence number it was created with.\<close>

record TimerId =
  id_timer :: "addr option"
  id_sequence :: nat

record TimerQueue =
  heap :: "addr \<Rightarrow> Timer option"
  num_created :: nat
  timers :: "(timestamp \<times> addr) list"
  active_sequences :: "nat set"
  cancelling :: "nat set"
  calling_expired_callbacks :: bool
  timerfd_armed :: "timestamp option"

definition TimerQueue_new :: "nat \<Rightarrow> TimerQueue" where
  "TimerQueue_new created =
     \<lparr>heap = Map.empty, num_created = created, timers = [], active_sequences = {}, cancelling = {},
      calling_expired_callbacks = False, timerfd_armed = None\<rparr>"

section \<open>Operations\<close>

text \<open>
  The interval a timerfd is armed with, in seconds and nanoseconds; the differences are those of signed 64-bit
  integers.
\<close>

definition howMuchTimeFromNow :: "timestamp \<Rightarrow> timestamp \<Rightarrow> int \<times> int" where
  "howMuchTimeFromNow now when =
     (let d = sint when - sint now; micros = (if d < 1 then 1 else d)
      in (micros div 1000000, (micros mod 1000000) * 1000))"

definition resetTimerfd :: "timestamp \<Rightarrow> TimerQueue \<Rightarrow> TimerQueue" where
  "resetTimerfd when q = q\<lparr>timerfd_armed := Some when\<rparr>"

text \<open>\<^verbatim>\<open>insert\<close>: whether the timer becomes the earliest, and the ordered set with it.\<close>

definition tq_insert :: "addr \<Rightarrow> TimerQueue \<Rightarrow> (bool \<times> TimerQueue) option" where
  "tq_insert a q = do {
     t \<leftarrow> heap q a;
     let when = expiration t;
     Some ((case timers q of [] \<Rightarrow> True | (first, _) # _ \<Rightarrow> when < first),
           q\<lparr>timers := insort_insert (when, a) (timers q)\<rparr>)
   }"

text \<open>\<^verbatim>\<open>addTimer\<close>, with the address \<open>a\<close> that \<^verbatim>\<open>new\<close> returns.\<close>

definition addTimer :: "addr \<Rightarrow> callback \<Rightarrow> timestamp \<Rightarrow> 64 word \<Rightarrow> TimerQueue \<Rightarrow> (TimerId \<times> TimerQueue) option" where
  "addTimer a cb when interval q = do {
     let timer = Timer_new cb when interval (num_created q);
     (earliest_changed, q1) \<leftarrow>
       tq_insert a (q\<lparr>heap := (heap q)(a \<mapsto> timer), num_created := num_created q + 1\<rparr>);
     let q2 = q1\<lparr>active_sequences := insert (sequence timer) (active_sequences q1)\<rparr>;
     Some (\<lparr>id_timer = Some a, id_sequence = sequence timer\<rparr>,
           if earliest_changed then resetTimerfd (expiration timer) q2 else q2)
   }"

text \<open>\<^verbatim>\<open>cancel\<close>: \<^verbatim>\<open>id.timer_->expiration()\<close> reads the timer before anything is checked.\<close>

definition tq_cancel :: "TimerId \<Rightarrow> TimerQueue \<Rightarrow> TimerQueue option" where
  "tq_cancel i q =
     (case id_timer i of
        None \<Rightarrow> Some q
      | Some a \<Rightarrow> do {
          t \<leftarrow> heap q a;
          if (expiration t, a) \<in> set (timers q)
          then Some (q\<lparr>active_sequences := active_sequences q - {sequence t}, heap := (heap q)(a := None),
                       timers := removeAll (expiration t, a) (timers q)\<rparr>)
          else if calling_expired_callbacks q
          then Some (q\<lparr>cancelling := insert (id_sequence i) (cancelling q)\<rparr>)
          else Some q
        })"

text \<open>All entries up to the sentinel \<open>(now, UINTPTR_MAX)\<close>, and the queue without them.\<close>

definition getExpired :: "timestamp \<Rightarrow> TimerQueue \<Rightarrow> (timestamp \<times> addr) list \<times> TimerQueue" where
  "getExpired now q =
     (takeWhile (\<lambda>(w, _). w \<le> now) (timers q), q\<lparr>timers := dropWhile (\<lambda>(w, _). w \<le> now) (timers q)\<rparr>)"

text \<open>The loop of \<^verbatim>\<open>reset\<close> over the expired entries.\<close>

fun reset_loop :: "(timestamp \<times> addr) list \<Rightarrow> timestamp \<Rightarrow> TimerQueue \<Rightarrow> TimerQueue option" where
  "reset_loop [] now q = Some q"
| "reset_loop ((w, a) # expired) now q = do {
     t \<leftarrow> heap q a;
     q1 \<leftarrow> (if repeat t \<and> sequence t \<notin> cancelling q
            then map_option snd (tq_insert a (q\<lparr>heap := (heap q)(a \<mapsto> restart now t)\<rparr>))
            else Some (q\<lparr>active_sequences := active_sequences q - {sequence t}, heap := (heap q)(a := None)\<rparr>));
     reset_loop expired now q1
   }"

definition tq_reset :: "(timestamp \<times> addr) list \<Rightarrow> timestamp \<Rightarrow> TimerQueue \<Rightarrow> TimerQueue option" where
  "tq_reset expired now q = do {
     q1 \<leftarrow> reset_loop expired now q;
     Some (case timers q1 of [] \<Rightarrow> q1 | (first, _) # _ \<Rightarrow> resetTimerfd first q1)
   }"

text \<open>
  What a callback does to the queue: a sequence of calls that may depend on the queue it finds. \<open>beh\<close> gives
  the calls of each callback.
\<close>

datatype tq_call = TqAdd addr callback timestamp "64 word" | TqCancel TimerId

fun tq_exec :: "tq_call list \<Rightarrow> TimerQueue \<Rightarrow> TimerQueue option" where
  "tq_exec [] q = Some q"
| "tq_exec (TqAdd a cb when interval # cs) q = do { (i, q1) \<leftarrow> addTimer a cb when interval q; tq_exec cs q1 }"
| "tq_exec (TqCancel i # cs) q = do { q1 \<leftarrow> tq_cancel i q; tq_exec cs q1 }"

text \<open>The dispatch loop of \<^verbatim>\<open>handleRead\<close>, with the addresses of the timers whose callback ran.\<close>

fun run_expired ::
  "(callback \<Rightarrow> TimerQueue \<Rightarrow> tq_call list) \<Rightarrow> (timestamp \<times> addr) list \<Rightarrow> TimerQueue \<Rightarrow> (addr list \<times> TimerQueue) option" where
  "run_expired beh [] q = Some ([], q)"
| "run_expired beh ((w, a) # expired) q = do {
     t \<leftarrow> heap q a;
     if sequence t \<notin> cancelling q
     then do {
       q1 \<leftarrow> tq_exec (beh (callback t) q) q;
       (fired, q2) \<leftarrow> run_expired beh expired q1;
       Some (a # fired, q2)
     }
     else run_expired beh expired q
   }"

definition tq_handleRead ::
  "(callback \<Rightarrow> TimerQueue \<Rightarrow> tq_call list) \<Rightarrow> timestamp \<Rightarrow> TimerQueue \<Rightarrow> (addr list \<times> TimerQueue) option" where
  "tq_handleRead beh now q0 = do {
     let q = q0\<lparr>timerfd_armed := None\<rparr>;
     let (expired, q1) = getExpired now q;
     (fired, q2) \<leftarrow> run_expired beh expired (q1\<lparr>calling_expired_callbacks := True, cancelling := {}\<rparr>);
     q3 \<leftarrow> tq_reset expired now (q2\<lparr>calling_expired_callbacks := False\<rparr>);
     Some (fired, q3)
   }"

section \<open>The invariant\<close>

text \<open>The entries that the live timers outside \<open>E\<close> stand for, and what holds of sequence numbers.\<close>

definition entries :: "(addr \<Rightarrow> Timer option) \<Rightarrow> addr set \<Rightarrow> (timestamp \<times> addr) set" where
  "entries h E = {(expiration t, a) | a t. h a = Some t \<and> a \<notin> E}"

definition seqs :: "(addr \<Rightarrow> Timer option) \<Rightarrow> nat set" where
  "seqs h = {sequence t | a t. h a = Some t}"

definition seqs_ok :: "(addr \<Rightarrow> Timer option) \<Rightarrow> nat \<Rightarrow> bool" where
  "seqs_ok h n = ((\<forall>a t. h a = Some t \<longrightarrow> sequence t \<le> n) \<and>
     (\<forall>a b t u. h a = Some t \<longrightarrow> h b = Some u \<longrightarrow> sequence t = sequence u \<longrightarrow> a = b))"

text \<open>
  The queue owns its timers: the ordered set holds exactly the entries of the live timers, except the set \<open>E\<close>
  taken out for dispatch; sequence numbers are unique and the active ones are those of the live
  timers.
\<close>

definition tq_inv :: "addr set \<Rightarrow> TimerQueue \<Rightarrow> bool" where
  "tq_inv E q =
     (sorted (timers q) \<and> distinct (timers q) \<and> set (timers q) = entries (heap q) E \<and> E \<subseteq> dom (heap q) \<and>
      seqs_ok (heap q) (num_created q) \<and> active_sequences q = seqs (heap q))"

lemma tq_inv_new: "tq_inv {} (TimerQueue_new n)"
  by (simp add: tq_inv_def TimerQueue_new_def entries_def seqs_def seqs_ok_def)

lemma tq_inv_frame [simp]:
  "tq_inv E (q\<lparr>timerfd_armed := x\<rparr>) = tq_inv E q" "tq_inv E (q\<lparr>cancelling := c\<rparr>) = tq_inv E q"
  "tq_inv E (q\<lparr>calling_expired_callbacks := b\<rparr>) = tq_inv E q" "tq_inv E (resetTimerfd w q) = tq_inv E q"
  by (simp_all add: tq_inv_def resetTimerfd_def)

lemma entries_iff [simp]: "(w, a) \<in> entries h E \<longleftrightarrow> (\<exists>t. h a = Some t \<and> a \<notin> E \<and> expiration t = w)"
  by (auto simp: entries_def)

lemma entries_add: "h a = None \<Longrightarrow> a \<notin> E \<Longrightarrow> entries (h(a \<mapsto> t)) E = insert (expiration t, a) (entries h E)"
  by (auto simp: set_eq_iff)

lemma entries_remove: "h a = Some t \<Longrightarrow> entries (h(a := None)) E = entries h E - {(expiration t, a)}"
  by (auto simp: set_eq_iff)

lemma entries_take: "a \<in> E \<Longrightarrow> entries (h(a := None)) (E - {a}) = entries h E"
  by (auto simp: set_eq_iff)

lemma entries_return: "a \<in> E \<Longrightarrow> entries (h(a \<mapsto> t)) (E - {a}) = insert (expiration t, a) (entries h E)"
  by (auto simp: set_eq_iff)

lemma seqs_add: "h a = None \<Longrightarrow> seqs (h(a \<mapsto> t)) = insert (sequence t) (seqs h)"
  unfolding seqs_def by (auto split: if_splits) (metis option.distinct(1))

lemma seqs_update: "h a = Some t \<Longrightarrow> sequence t' = sequence t \<Longrightarrow> seqs (h(a \<mapsto> t')) = seqs h"
  unfolding seqs_def by (auto split: if_splits) (metis option.inject)

lemma seqs_remove: "seqs_ok h n \<Longrightarrow> h a = Some t \<Longrightarrow> seqs (h(a := None)) = seqs h - {sequence t}"
  unfolding seqs_def seqs_ok_def by (auto split: if_splits) (metis option.inject)

lemma seqs_ok_add: "seqs_ok h n \<Longrightarrow> sequence t = Suc n \<Longrightarrow> seqs_ok (h(a \<mapsto> t)) (Suc n)"
  unfolding seqs_ok_def by (auto split: if_splits simp: le_Suc_eq) (metis Suc_n_not_le_n)+

lemma seqs_ok_update: "seqs_ok h n \<Longrightarrow> h a = Some t \<Longrightarrow> sequence t' = sequence t \<Longrightarrow> seqs_ok (h(a \<mapsto> t')) n"
  unfolding seqs_ok_def by (auto split: if_splits)

lemma seqs_ok_remove: "seqs_ok h n \<Longrightarrow> seqs_ok (h(a := None)) n"
  unfolding seqs_ok_def by (auto split: if_splits)

lemma insort_insert_facts [simp]:
  "set (insort_insert x xs) = insert x (set xs)"
  "sorted xs \<Longrightarrow> sorted (insort_insert x xs)" "distinct xs \<Longrightarrow> distinct (insort_insert x xs)"
  for x :: "'b::linorder"
  by (simp_all add: set_insort_insert sorted_insort_insert distinct_insort_insert)

lemma Timer_new_fields [simp]:
  "expiration (Timer_new cb when interval n) = when" "sequence (Timer_new cb when interval n) = Suc n"
  "callback (Timer_new cb when interval n) = cb"
  by (simp_all add: Timer_new_def)

lemma restart_fields [simp]: "sequence (restart now t) = sequence t" "callback (restart now t) = callback t"
  by (simp_all add: restart_def)

lemma addTimer_inv:
  assumes inv: "tq_inv E q" and fresh: "heap q a = None"
  shows "\<exists>i q'. addTimer a cb when interval q = Some (i, q') \<and> tq_inv E q' \<and>
    id_timer i = Some a \<and> heap q' = (heap q)(a \<mapsto> Timer_new cb when interval (num_created q)) \<and>
    cancelling q' = cancelling q \<and> calling_expired_callbacks q' = calling_expired_callbacks q"
proof -
  let ?t = "Timer_new cb when interval (num_created q)"
  let ?q = "q\<lparr>heap := (heap q)(a \<mapsto> ?t), num_created := Suc (num_created q),
      timers := insort_insert (when, a) (timers q), active_sequences := insert (Suc (num_created q)) (active_sequences q)\<rparr>"
  have "a \<notin> E" using inv fresh by (auto simp: tq_inv_def)
  then have "tq_inv E ?q"
    using inv fresh by (auto simp: tq_inv_def entries_add seqs_add seqs_ok_add)
  then show ?thesis
    by (simp add: addTimer_def tq_insert_def Let_def resetTimerfd_def)
qed

lemma cancel_inv:
  assumes inv: "tq_inv E q" and live: "\<forall>a. id_timer i = Some a \<longrightarrow> heap q a \<noteq> None"
  shows "\<exists>q'. tq_cancel i q = Some q' \<and> tq_inv E q' \<and>
    (\<forall>b \<in> E. heap q' b = heap q b) \<and> calling_expired_callbacks q' = calling_expired_callbacks q \<and>
    cancelling q \<subseteq> cancelling q'"
proof (cases "id_timer i")
  case None
  then show ?thesis using inv by (simp add: tq_cancel_def)
next
  case (Some a)
  then obtain t where t: "heap q a = Some t" using live by blast
  show ?thesis
  proof (cases "(expiration t, a) \<in> set (timers q)")
    case False
    then show ?thesis using Some t inv by (auto simp: tq_cancel_def)
  next
    case True
    let ?q = "q\<lparr>active_sequences := active_sequences q - {sequence t}, heap := (heap q)(a := None),
        timers := removeAll (expiration t, a) (timers q)\<rparr>"
    have "a \<notin> E" using True inv by (auto simp: tq_inv_def entries_def)
    moreover have "sorted (timers ?q)" "distinct (timers ?q)"
      using inv by (simp_all add: tq_inv_def removeAll_filter_not_eq sorted_wrt_filter)
    ultimately have "tq_inv E ?q"
      using inv t by (auto simp: tq_inv_def entries_remove seqs_remove seqs_ok_remove)
    then show ?thesis using Some t True \<open>a \<notin> E\<close> by (auto simp: tq_cancel_def)
  qed
qed

text \<open>Calls that are allowed: a new timer gets a free address, and a handle refers to a live timer.\<close>

fun calls_ok :: "tq_call list \<Rightarrow> TimerQueue \<Rightarrow> bool" where
  "calls_ok [] q = True"
| "calls_ok (TqAdd a cb when interval # cs) q =
     (heap q a = None \<and> (case addTimer a cb when interval q of None \<Rightarrow> False | Some (i, q1) \<Rightarrow> calls_ok cs q1))"
| "calls_ok (TqCancel i # cs) q =
     ((case id_timer i of None \<Rightarrow> True | Some a \<Rightarrow> heap q a \<noteq> None) \<and>
      (case tq_cancel i q of None \<Rightarrow> False | Some q1 \<Rightarrow> calls_ok cs q1))"

lemma tq_exec_inv:
  "tq_inv E q \<Longrightarrow> calls_ok cs q \<Longrightarrow>
   \<exists>q'. tq_exec cs q = Some q' \<and> tq_inv E q' \<and> (\<forall>b \<in> E. heap q' b = heap q b) \<and>
     calling_expired_callbacks q' = calling_expired_callbacks q \<and> cancelling q \<subseteq> cancelling q'"
proof (induction cs q rule: calls_ok.induct)
  case (1 q)
  then show ?case by simp
next
  case (2 a cb w interval cs q)
  have fr: "heap q a = None" using "2.prems"(2) by simp
  obtain i q1 where q1: "addTimer a cb w interval q = Some (i, q1)" "tq_inv E q1"
      "heap q1 = (heap q)(a \<mapsto> Timer_new cb w interval (num_created q))" "cancelling q1 = cancelling q"
      "calling_expired_callbacks q1 = calling_expired_callbacks q"
    using addTimer_inv [OF "2.prems"(1) fr] by blast
  have "a \<notin> E" using "2.prems" by (auto simp: tq_inv_def)
  then show ?case using 2 q1 by fastforce
next
  case (3 i cs q)
  obtain q1 where q1: "tq_cancel i q = Some q1" "tq_inv E q1" "\<forall>b \<in> E. heap q1 b = heap q b"
      "calling_expired_callbacks q1 = calling_expired_callbacks q" "cancelling q \<subseteq> cancelling q1"
    using cancel_inv [OF "3.prems"(1), of i] "3.prems"(2) by (fastforce split: option.splits)
  then show ?case using 3 by fastforce
qed

section \<open>Dispatch\<close>

definition beh_ok :: "(callback \<Rightarrow> TimerQueue \<Rightarrow> tq_call list) \<Rightarrow> bool" where
  "beh_ok beh = (\<forall>cb q E. tq_inv E q \<longrightarrow> calls_ok (beh cb q) q)"

lemma run_expired_inv:
  assumes beh: "beh_ok beh"
  shows "tq_inv E q \<Longrightarrow> snd ` set expired \<subseteq> E \<Longrightarrow>
   \<exists>fired q'. run_expired beh expired q = Some (fired, q') \<and> tq_inv E q' \<and> (\<forall>b \<in> E. heap q' b = heap q b) \<and>
     subseq fired (map snd expired) \<and> cancelling q \<subseteq> cancelling q' \<and>
     (\<forall>a \<in> snd ` set expired. a \<in> set fired \<or> (\<exists>t. heap q a = Some t \<and> sequence t \<in> cancelling q'))"
proof (induction expired arbitrary: q)
  case Nil
  then show ?case by simp
next
  case (Cons p expired)
  obtain w a where p: "p = (w, a)" by force
  then obtain t where t: "heap q a = Some t" using Cons.prems by (auto simp: tq_inv_def)
  show ?case
  proof (cases "sequence t \<in> cancelling q")
    case True
    obtain fired q' where "run_expired beh expired q = Some (fired, q')" "tq_inv E q'" "\<forall>b \<in> E. heap q' b = heap q b"
        "subseq fired (map snd expired)" "cancelling q \<subseteq> cancelling q'"
        "\<forall>a \<in> snd ` set expired. a \<in> set fired \<or> (\<exists>t. heap q a = Some t \<and> sequence t \<in> cancelling q')"
      using Cons.IH [OF Cons.prems(1)] Cons.prems(2) by auto
    then show ?thesis using True p t by (auto intro: list_emb_Cons)
  next
    case False
    obtain q1 where q1: "tq_exec (beh (callback t) q) q = Some q1" "tq_inv E q1" "\<forall>b \<in> E. heap q1 b = heap q b"
        "cancelling q \<subseteq> cancelling q1"
      using tq_exec_inv [OF Cons.prems(1)] beh Cons.prems(1) unfolding beh_ok_def by blast
    obtain fired q' where "run_expired beh expired q1 = Some (fired, q')" "tq_inv E q'" "\<forall>b \<in> E. heap q' b = heap q1 b"
        "subseq fired (map snd expired)" "cancelling q1 \<subseteq> cancelling q'"
        "\<forall>a \<in> snd ` set expired. a \<in> set fired \<or> (\<exists>t. heap q1 a = Some t \<and> sequence t \<in> cancelling q')"
      using Cons.IH [OF q1(2)] Cons.prems(2) by auto
    moreover have "\<forall>a \<in> snd ` set expired. heap q1 a = heap q a" using q1(3) Cons.prems(2) by auto
    ultimately have "\<forall>a \<in> snd ` set expired. a \<in> set fired \<or> (\<exists>t. heap q a = Some t \<and> sequence t \<in> cancelling q')"
        "run_expired beh (p # expired) q = Some (a # fired, q')"
      using False p t q1(1) by simp_all
    then show ?thesis
      using p q1 \<open>tq_inv E q'\<close> \<open>\<forall>b \<in> E. heap q' b = heap q1 b\<close> \<open>subseq fired (map snd expired)\<close>
        \<open>cancelling q1 \<subseteq> cancelling q'\<close>
      by (intro exI [of _ "a # fired"] exI [of _ q']) auto
  qed
qed

lemma reset_loop_inv:
  "tq_inv (snd ` set expired) q \<Longrightarrow> distinct (map snd expired) \<Longrightarrow>
   \<exists>q'. reset_loop expired now q = Some q' \<and> tq_inv {} q' \<and> cancelling q' = cancelling q \<and>
     calling_expired_callbacks q' = calling_expired_callbacks q \<and>
     (\<forall>a \<in> snd ` set expired. \<forall>t. heap q a = Some t \<longrightarrow>
        heap q' a = (if repeat t \<and> sequence t \<notin> cancelling q then Some (restart now t) else None)) \<and>
     (\<forall>b. b \<notin> snd ` set expired \<longrightarrow> heap q' b = heap q b)"
proof (induction expired arbitrary: q)
  case Nil
  then show ?case by simp
next
  case (Cons p expired)
  obtain w a where p: "p = (w, a)" by force
  let ?E = "insert a (snd ` set expired)"
  have E: "?E - {a} = snd ` set expired" using Cons.prems(2) p by auto
  obtain t where t: "heap q a = Some t" using Cons.prems(1) p by (auto simp: tq_inv_def)
  let ?again = "repeat t \<and> sequence t \<notin> cancelling q"
  define q1 where "q1 = (if ?again
      then q\<lparr>heap := (heap q)(a \<mapsto> restart now t), timers := insort_insert (expiration (restart now t), a) (timers q)\<rparr>
      else q\<lparr>active_sequences := active_sequences q - {sequence t}, heap := (heap q)(a := None)\<rparr>)"
  have h1: "heap q1 = (heap q)(a := (if ?again then Some (restart now t) else None))" "cancelling q1 = cancelling q"
      "calling_expired_callbacks q1 = calling_expired_callbacks q"
    by (simp_all add: q1_def)
  have "tq_inv (snd ` set expired) q1"
  proof (cases ?again)
    case True
    have "entries ((heap q)(a \<mapsto> restart now t)) (snd ` set expired) =
        insert (expiration (restart now t), a) (entries (heap q) ?E)"
      using entries_return [of a ?E "heap q"] E by simp
    moreover have "seqs ((heap q)(a \<mapsto> restart now t)) = seqs (heap q)"
        "seqs_ok (heap q) n \<Longrightarrow> seqs_ok ((heap q)(a \<mapsto> restart now t)) n" for n
      using seqs_update [of "heap q" a t "restart now t"] seqs_ok_update [of "heap q" n a t "restart now t"] t by simp_all
    ultimately show ?thesis
      using Cons.prems(1) p True by (auto simp: q1_def tq_inv_def)
  next
    case False
    have "entries ((heap q)(a := None)) (snd ` set expired) = entries (heap q) ?E"
      using entries_take [of a ?E "heap q"] E by simp
    then have "tq_inv (snd ` set expired)
        (q\<lparr>active_sequences := active_sequences q - {sequence t}, heap := (heap q)(a := None)\<rparr>)"
      using Cons.prems p t E by (auto simp: tq_inv_def seqs_remove seqs_ok_remove)
    then show ?thesis using False by (simp only: q1_def if_False)
  qed
  moreover have d: "a \<notin> snd ` set expired" "distinct (map snd expired)" using Cons.prems(2) p by auto
  ultimately obtain q' where q': "reset_loop expired now q1 = Some q'" "tq_inv {} q'" "cancelling q' = cancelling q"
      "calling_expired_callbacks q' = calling_expired_callbacks q"
      "\<forall>b \<in> snd ` set expired. \<forall>t. heap q1 b = Some t \<longrightarrow>
        heap q' b = (if repeat t \<and> sequence t \<notin> cancelling q then Some (restart now t) else None)"
      "\<forall>b. b \<notin> snd ` set expired \<longrightarrow> heap q' b = heap q1 b"
    using Cons.IH [of q1] h1 by auto
  have "reset_loop (p # expired) now q = reset_loop expired now q1"
  proof (cases ?again)
    case True
    then show ?thesis using t by (simp add: p tq_insert_def Let_def q1_def)
  next
    case False
    then show ?thesis using t by (simp add: p q1_def if_not_P [OF False])
  qed
  then have run: "reset_loop (p # expired) now q = Some q'" using q'(1) by simp
  have all: "\<forall>b \<in> snd ` set (p # expired). \<forall>u. heap q b = Some u \<longrightarrow>
        heap q' b = (if repeat u \<and> sequence u \<notin> cancelling q then Some (restart now u) else None)"
  proof (intro ballI allI impI)
    fix b u
    assume b: "b \<in> snd ` set (p # expired)" "heap q b = Some u"
    show "heap q' b = (if repeat u \<and> sequence u \<notin> cancelling q then Some (restart now u) else None)"
    proof (cases "b = a")
      case True
      then show ?thesis using q'(6) d(1) h1(1) b(2) t by simp
    next
      case False
      then have "b \<in> snd ` set expired" "heap q1 b = Some u" using b p h1(1) by auto
      then show ?thesis using q'(5) by blast
    qed
  qed
  have "\<forall>b. b \<notin> snd ` set (p # expired) \<longrightarrow> heap q' b = heap q b"
    using q'(6) h1(1) p by simp
  then show ?case using run q'(2-4) all by blast
qed

text \<open>The timers that are due are a prefix of the ordered set.\<close>

definition due :: "timestamp \<Rightarrow> TimerQueue \<Rightarrow> addr list" where
  "due now q = map snd (filter (\<lambda>(w, a). w \<le> now) (timers q))"

lemma due_prefix:
  "sorted xs \<Longrightarrow> takeWhile (\<lambda>(w, a). w \<le> now) xs = filter (\<lambda>(w, a). w \<le> now) xs \<and>
     dropWhile (\<lambda>(w, a). w \<le> now) xs = filter (\<lambda>(w, a). \<not> w \<le> now) xs"
  for xs :: "(timestamp \<times> addr) list"
proof (induction xs)
  case Nil
  then show ?case by simp
next
  case (Cons p xs)
  obtain w a where p: "p = (w, a)" by force
  have "now < w'" if "\<not> w \<le> now" "(w', b) \<in> set xs" for w' b
  proof -
    have "(w, a) \<le> (w', b)" using Cons.prems p that(2) by auto
    then have "w \<le> w'" by (auto simp: less_eq_prod_def)
    then show ?thesis using that(1) by simp
  qed
  then have "filter (\<lambda>(w, a). w \<le> now) xs = [] \<and> filter (\<lambda>(w, a). \<not> w \<le> now) xs = xs" if "\<not> w \<le> now"
    using that by (fastforce simp: filter_empty_conv filter_id_conv not_le)
  then show ?case using Cons p by auto
qed

definition armed_ok :: "TimerQueue \<Rightarrow> bool" where
  "armed_ok q = (case timers q of [] \<Rightarrow> True
                 | (first, _) # _ \<Rightarrow> (case timerfd_armed q of None \<Rightarrow> False | Some w \<Rightarrow> w \<le> first))"

lemma armed_after_reset:
  "armed_ok (case timers q of [] \<Rightarrow> q | (first, _) # _ \<Rightarrow> resetTimerfd first q)"
  by (auto simp: armed_ok_def resetTimerfd_def split: list.splits prod.splits)

lemma due_set: "tq_inv {} q \<Longrightarrow> set (due now q) = {a. \<exists>t. heap q a = Some t \<and> expiration t \<le> now}"
  by (force simp: due_def tq_inv_def image_iff)

lemma distinct_due: "tq_inv {} q \<Longrightarrow> distinct (due now q)"
proof -
  assume inv: "tq_inv {} q"
  have "inj_on snd (set (filter (\<lambda>(w, a). w \<le> now) (timers q)))"
    using inv by (auto simp: inj_on_def tq_inv_def)
  then show ?thesis using inv unfolding due_def by (simp add: distinct_map tq_inv_def)
qed

lemma handleRead_spec:
  assumes inv: "tq_inv {} q" and beh: "beh_ok beh"
  shows "\<exists>fired q'. tq_handleRead beh now q = Some (fired, q') \<and> tq_inv {} q' \<and> armed_ok q' \<and>
    subseq fired (due now q) \<and>
    (\<forall>a t. heap q a = Some t \<and> expiration t \<le> now \<longrightarrow>
       (a \<in> set fired \<or> sequence t \<in> cancelling q') \<and>
       heap q' a = (if repeat t \<and> sequence t \<notin> cancelling q' then Some (restart now t) else None))"
proof -
  let ?exp = "filter (\<lambda>(w, a). w \<le> now) (timers q)"
  let ?E = "snd ` set ?exp"
  define q1 where "q1 = q\<lparr>timerfd_armed := None, timers := filter (\<lambda>(w, a). \<not> w \<le> now) (timers q),
      calling_expired_callbacks := True, cancelling := {}\<rparr>"
  have srt: "sorted (timers q)" using inv by (simp add: tq_inv_def)
  have get: "getExpired now (q\<lparr>timerfd_armed := None\<rparr>) =
      (?exp, q\<lparr>timerfd_armed := None, timers := filter (\<lambda>(w, a). \<not> w \<le> now) (timers q)\<rparr>)"
    using due_prefix [OF srt, of now] by (simp add: getExpired_def)
  have E: "?E = {a. \<exists>t. heap q a = Some t \<and> expiration t \<le> now}"
    using due_set [OF inv, of now] by (simp add: due_def)
  have "set (filter (\<lambda>(w, a). \<not> w \<le> now) (timers q)) = entries (heap q) ?E"
    unfolding E using inv by (auto simp: tq_inv_def set_eq_iff)
  then have inv1: "tq_inv ?E q1"
    using inv E by (auto simp: tq_inv_def q1_def sorted_wrt_filter)
  have h1: "heap q1 = heap q" by (simp add: q1_def)
  obtain fired q2 where run: "run_expired beh ?exp q1 = Some (fired, q2)" "tq_inv ?E q2"
      "\<forall>b \<in> ?E. heap q2 b = heap q b" "subseq fired (map snd ?exp)"
      "\<forall>a \<in> ?E. a \<in> set fired \<or> (\<exists>t. heap q a = Some t \<and> sequence t \<in> cancelling q2)"
    using run_expired_inv [OF beh inv1 order.refl] unfolding h1 by blast
  obtain q3 where q3: "reset_loop ?exp now (q2\<lparr>calling_expired_callbacks := False\<rparr>) = Some q3" "tq_inv {} q3"
      "cancelling q3 = cancelling q2"
      "\<forall>a \<in> ?E. \<forall>t. heap q2 a = Some t \<longrightarrow>
        heap q3 a = (if repeat t \<and> sequence t \<notin> cancelling q2 then Some (restart now t) else None)"
    using reset_loop_inv [of ?exp "q2\<lparr>calling_expired_callbacks := False\<rparr>" now] run(2) distinct_due [OF inv, of now]
    by (auto simp: due_def)
  let ?q4 = "case timers q3 of [] \<Rightarrow> q3 | (first, _) # _ \<Rightarrow> resetTimerfd first q3"
  have "tq_handleRead beh now q = Some (fired, ?q4)"
    using get run(1) q3(1) by (simp add: tq_handleRead_def tq_reset_def q1_def)
  moreover have "tq_inv {} ?q4" "heap ?q4 = heap q3" "cancelling ?q4 = cancelling q3"
    using q3(2) by (auto split: list.splits simp: resetTimerfd_def [symmetric]) (simp_all add: resetTimerfd_def)
  moreover have "(a \<in> set fired \<or> sequence t \<in> cancelling q3) \<and>
      heap q3 a = (if repeat t \<and> sequence t \<notin> cancelling q3 then Some (restart now t) else None)"
    if "heap q a = Some t" "expiration t \<le> now" for a t
  proof -
    have aE: "a \<in> ?E" using that unfolding E by blast
    then have h2: "heap q2 a = Some t" and "a \<in> set fired \<or> sequence t \<in> cancelling q2"
      using run(3,5) that(1) by (metis, metis option.inject)
    moreover have "heap q3 a = (if repeat t \<and> sequence t \<notin> cancelling q2 then Some (restart now t) else None)"
      using q3(4) [rule_format, OF aE h2] .
    ultimately show ?thesis unfolding q3(3) by blast
  qed
  moreover have "subseq fired (due now q)" using run(4) by (simp add: due_def)
  moreover note armed_after_reset [of q3]
  ultimately show ?thesis by (intro exI [of _ fired] exI [of _ ?q4]) simp
qed

section \<open>The timerfd\<close>

lemma hd_insort_insert:
  "sorted xs \<Longrightarrow> xs \<noteq> [] \<Longrightarrow> hd (insort_insert x xs) = min x (hd xs)" for x :: "'b::linorder"
  by (cases xs) (auto simp: insort_insert_key_def min_def)

lemma armed_ok_iff:
  "armed_ok q = (timers q = [] \<or> (\<exists>w. timerfd_armed q = Some w \<and> w \<le> fst (hd (timers q))))"
  by (auto simp: armed_ok_def split: list.splits option.splits)

lemma addTimer_armed:
  assumes inv: "tq_inv E q" and arm: "armed_ok q" and res: "addTimer a cb when interval q = Some (i, q')"
  shows "armed_ok q'"
proof (cases "timers q")
  case Nil
  then show ?thesis
    using res by (auto simp: addTimer_def tq_insert_def Let_def resetTimerfd_def armed_ok_iff insort_insert_key_def)
next
  case (Cons p ps)
  obtain first b where p: "p = (first, b)" by force
  have hd: "hd (insort_insert (when, a) (timers q)) = min (when, a) (first, b)"
    using hd_insort_insert [of "timers q" "(when, a)"] inv Cons p by (simp add: tq_inv_def)
  show ?thesis
  proof (cases "when < first")
    case True
    then show ?thesis
      using res Cons p hd by (auto simp: addTimer_def tq_insert_def Let_def resetTimerfd_def armed_ok_iff min_def)
  next
    case False
    then have "fst (hd (insort_insert (when, a) (timers q))) = first"
      unfolding hd by (auto simp: min_def less_eq_prod_def)
    then show ?thesis
      using res Cons p False arm by (auto simp: addTimer_def tq_insert_def Let_def armed_ok_iff)
  qed
qed

lemma sorted_hd_fst: "sorted xs \<Longrightarrow> x \<in> set xs \<Longrightarrow> fst (hd xs) \<le> fst x" for xs :: "(timestamp \<times> addr) list"
  by (cases xs) (auto simp: less_eq_prod_def dest!: bspec)

lemma cancel_armed:
  assumes inv: "tq_inv E q" and arm: "armed_ok q" and res: "tq_cancel i q = Some q'"
  shows "armed_ok q'"
proof -
  have "set (timers q') \<subseteq> set (timers q)" "timerfd_armed q' = timerfd_armed q"
    using res by (auto simp: tq_cancel_def split: option.splits bind_splits if_splits)
  moreover have "fst (hd (timers q)) \<le> fst (hd (timers q'))" "timers q \<noteq> []" if "timers q' \<noteq> []"
  proof -
    have "hd (timers q') \<in> set (timers q)" using that calculation(1) by auto
    then show "fst (hd (timers q)) \<le> fst (hd (timers q'))" "timers q \<noteq> []"
      using inv sorted_hd_fst [of "timers q"] by (auto simp: tq_inv_def simp del: entries_iff)
  qed
  ultimately show ?thesis
    using arm by (auto simp: armed_ok_iff intro: order_trans)
qed

text \<open>The queue as its clients drive it, with dispatches whenever the timerfd is readable.\<close>

inductive tq_reachable :: "nat \<Rightarrow> TimerQueue \<Rightarrow> bool" for n where
  start: "tq_reachable n (TimerQueue_new n)"
| add: "\<lbrakk> tq_reachable n q; heap q a = None; addTimer a cb w interval q = Some (i, q') \<rbrakk> \<Longrightarrow> tq_reachable n q'"
| cancel: "\<lbrakk> tq_reachable n q; \<forall>a. id_timer i = Some a \<longrightarrow> heap q a \<noteq> None; tq_cancel i q = Some q' \<rbrakk> \<Longrightarrow>
    tq_reachable n q'"
| dispatch: "\<lbrakk> tq_reachable n q; beh_ok beh; tq_handleRead beh now q = Some (fired, q') \<rbrakk> \<Longrightarrow> tq_reachable n q'"

lemma tq_reachable_inv: "tq_reachable n q \<Longrightarrow> tq_inv {} q \<and> armed_ok q"
proof (induction rule: tq_reachable.induct)
  case start
  then show ?case by (simp add: tq_inv_new armed_ok_iff) (simp add: TimerQueue_new_def)
next
  case (add q a cb w interval i q')
  then have inv: "tq_inv {} q" "armed_ok q" by simp_all
  have "tq_inv {} q'" using addTimer_inv [OF inv(1) add.hyps(2), of cb w interval] add.hyps(3) by simp
  then show ?case using addTimer_armed [OF inv add.hyps(3)] by simp
next
  case (cancel q i q')
  then have inv: "tq_inv {} q" "armed_ok q" by simp_all
  have "tq_inv {} q'" using cancel_inv [OF inv(1) cancel.hyps(2)] cancel.hyps(3) by simp
  then show ?case using cancel_armed [OF inv cancel.hyps(3)] by simp
next
  case (dispatch q beh now fired q')
  then show ?case using handleRead_spec [of q beh now] by fastforce
qed

text \<open>
  C12: no timer is lost. In every state reachable by adding timers, cancelling live ones and dispatching with
  callbacks that do the same, the ordered set holds each live timer exactly once under its
  expiration and nothing else, in order of expiration, and whenever it is not empty the timerfd is
  armed no later than for the earliest timer.
\<close>

theorem timer_queue_never_loses_timers:
  assumes "tq_reachable n q"
  shows "sorted (timers q) \<and> distinct (timers q) \<and>
    (\<forall>w a. (w, a) \<in> set (timers q) \<longleftrightarrow> (\<exists>t. heap q a = Some t \<and> expiration t = w)) \<and>
    (timers q \<noteq> [] \<longrightarrow> (\<exists>w. timerfd_armed q = Some w \<and> (\<forall>(v, a) \<in> set (timers q). w \<le> v)))"
proof -
  have inv: "tq_inv {} q" "armed_ok q" using tq_reachable_inv [OF assms] by auto
  then have "\<exists>w. timerfd_armed q = Some w \<and> (\<forall>(v, a) \<in> set (timers q). w \<le> v)" if "timers q \<noteq> []"
    using that sorted_hd_fst [of "timers q"] by (fastforce simp: armed_ok_iff tq_inv_def)
  then show ?thesis using inv(1) by (auto simp: tq_inv_def)
qed

theorem timer_queue_never_loses_timers_witness:
  "\<exists>q. tq_reachable 0 q \<and> map snd (timers q) = [2, 1] \<and> timerfd_armed q = Some 30 \<and> sorted (timers q)"
proof -
  obtain i q1 where q1: "addTimer 1 7 50 0 (TimerQueue_new 0) = Some (i, q1)"
      "q1 = \<lparr>heap = [1 \<mapsto> Timer_new 7 50 0 0], num_created = 1, timers = [(50, 1)], active_sequences = {1},
             cancelling = {}, calling_expired_callbacks = False, timerfd_armed = Some 50\<rparr>"
    by (simp add: addTimer_def tq_insert_def TimerQueue_new_def Let_def insort_insert_key_def resetTimerfd_def)
  have r1: "tq_reachable 0 q1" using tq_reachable.add [OF tq_reachable.start _ q1(1)] by (simp add: TimerQueue_new_def)
  obtain j q2 where q2: "addTimer 2 8 30 0 q1 = Some (j, q2)" "map snd (timers q2) = [2, 1]" "timerfd_armed q2 = Some 30"
    by (simp add: q1(2) addTimer_def tq_insert_def Let_def insort_insert_key_def resetTimerfd_def less_eq_prod_def)
  have r2: "tq_reachable 0 q2" using tq_reachable.add [OF r1 _ q2(1)] by (simp add: q1(2))
  show ?thesis using timer_queue_never_loses_timers [OF r2] r2 q2 by (intro exI [of _ q2]) simp
qed

text \<open>
  C11: a dispatch fires the timers that are due, each at most once and in order. In any well-formed queue, with
  callbacks that themselves add timers and cancel live ones, \<^verbatim>\<open>handleRead\<close> returns; the callbacks it
  runs are those of timers due by now, in order of expiration; a due timer is passed over only if
  a callback of this batch cancelled it; afterwards a repeating timer that was not cancelled is
  armed one interval from now, every other due timer is gone, and the queue is well-formed with
  the timerfd armed for what remains.
\<close>

theorem due_timers_fire:
  assumes "tq_inv {} q" "beh_ok beh"
  shows "\<exists>fired q'. tq_handleRead beh now q = Some (fired, q') \<and> tq_inv {} q' \<and> armed_ok q' \<and>
    subseq fired (map snd (filter (\<lambda>(w, a). w \<le> now) (timers q))) \<and> distinct fired \<and>
    (\<forall>a t. heap q a = Some t \<and> expiration t \<le> now \<longrightarrow>
       (a \<in> set fired \<or> sequence t \<in> cancelling q') \<and>
       heap q' a = (if repeat t \<and> sequence t \<notin> cancelling q'
                    then Some (t\<lparr>expiration := addMilliseconds now (interval_ms t)\<rparr>) else None))"
proof -
  obtain fired q' where h: "tq_handleRead beh now q = Some (fired, q')" "tq_inv {} q'" "armed_ok q'"
      "subseq fired (due now q)"
      "\<forall>a t. heap q a = Some t \<and> expiration t \<le> now \<longrightarrow>
         (a \<in> set fired \<or> sequence t \<in> cancelling q') \<and>
         heap q' a = (if repeat t \<and> sequence t \<notin> cancelling q' then Some (restart now t) else None)"
    using handleRead_spec [OF assms] by blast
  have "distinct fired"
    using h(4) distinct_due [OF assms(1), of now] by (auto simp: subseq_conv_nths)
  then show ?thesis using h by (auto simp: due_def restart_def)
qed

lemma no_calls_ok: "beh_ok (\<lambda>cb q. [])"
  by (simp add: beh_ok_def)

definition sample_queue :: TimerQueue where
  "sample_queue = \<lparr>heap = [1 \<mapsto> Timer_new 7 50 0 0, 2 \<mapsto> Timer_new 8 30 5 1], num_created = 2, timers = [(30, 2), (50, 1)],
     active_sequences = {1, 2}, cancelling = {}, calling_expired_callbacks = False, timerfd_armed = Some 30\<rparr>"

lemma sample_queue_inv: "tq_inv {} sample_queue"
proof -
  have e: "entries Map.empty {} = {}" "seqs Map.empty = {}" "seqs_ok Map.empty 0"
    by (simp_all add: entries_def seqs_def seqs_ok_def)
  have "seqs_ok [1 \<mapsto> Timer_new 7 50 0 0] 1" using seqs_ok_add [OF e(3), of "Timer_new 7 50 0 0" 1] by simp
  then have "seqs_ok (heap sample_queue) 2"
    using seqs_ok_add [of "[1 \<mapsto> Timer_new 7 50 0 0]" 1 "Timer_new 8 30 5 1" 2]
    by (simp add: sample_queue_def numeral_2_eq_2)
  moreover have "entries (heap sample_queue) {} = {(30, 2), (50, 1)}" "seqs (heap sample_queue) = {1, 2}"
    by (simp_all add: sample_queue_def entries_add seqs_add e insert_commute numeral_2_eq_2)
  ultimately show ?thesis
    by (simp add: tq_inv_def) (simp add: sample_queue_def less_eq_prod_def)
qed

theorem due_timers_fire_witness:
  "\<exists>fired q'. tq_handleRead (\<lambda>cb q. []) 40 sample_queue = Some (fired, q') \<and> tq_inv {} q' \<and>
     subseq fired [2]"
  using due_timers_fire [OF sample_queue_inv no_calls_ok, of 40] by (auto simp: sample_queue_def)

text \<open>
  a handle must not outlive its timer. After a dispatch has fired a one-shot timer, cancelling it through
  the handle that \<^verbatim>\<open>addTimer\<close> returned reads freed memory; and when the allocator hands the address
  to a new timer, the stale handle cancels that one instead, because the sequence number in the
  handle is not compared.
\<close>

theorem stale_handle_misbehaves:
  assumes "tq_inv {} q" "beh_ok beh" and t: "heap q a = Some t" "\<not> repeat t" "expiration t \<le> now"
  shows "\<exists>fired q'. tq_handleRead beh now q = Some (fired, q') \<and>
    tq_cancel \<lparr>id_timer = Some a, id_sequence = sequence t\<rparr> q' = None \<and>
    (\<exists>i q2 q3. addTimer a cb w interval q' = Some (i, q2) \<and> heap q2 a \<noteq> None \<and>
       tq_cancel \<lparr>id_timer = Some a, id_sequence = sequence t\<rparr> q2 = Some q3 \<and> heap q3 a = None)"
proof -
  obtain fired q' where h: "tq_handleRead beh now q = Some (fired, q')" "tq_inv {} q'" "heap q' a = None"
    using handleRead_spec [OF assms(1,2), of now] t by auto
  obtain i q2 where q2: "addTimer a cb w interval q' = Some (i, q2)" "tq_inv {} q2"
      "heap q2 = (heap q')(a \<mapsto> Timer_new cb w interval (num_created q'))"
    using addTimer_inv [OF h(2,3)] by blast
  then have "(w, a) \<in> set (timers q2)" by (simp add: tq_inv_def)
  then have "\<exists>q3. tq_cancel \<lparr>id_timer = Some a, id_sequence = sequence t\<rparr> q2 = Some q3 \<and> heap q3 a = None"
    using q2(3) by (simp add: tq_cancel_def)
  then show ?thesis using h q2 by (auto simp: tq_cancel_def)
qed

theorem stale_handle_misbehaves_witness:
  "\<exists>fired q'. tq_handleRead (\<lambda>cb q. []) 60 sample_queue = Some (fired, q') \<and>
     tq_cancel \<lparr>id_timer = Some 1, id_sequence = 1\<rparr> q' = None"
proof -
  have t: "heap sample_queue 1 = Some (Timer_new 7 50 0 0)" "\<not> repeat (Timer_new 7 50 0 0)"
      "expiration (Timer_new 7 50 0 0) \<le> 60" "sequence (Timer_new 7 50 0 0) = 1"
    by (simp_all add: sample_queue_def Timer_new_def)
  show ?thesis using stale_handle_misbehaves [OF sample_queue_inv no_calls_ok t(1-3)] t(4) by metis
qed

lemma howMuchTimeFromNow_positive:
  "howMuchTimeFromNow now w = (s, ns) \<Longrightarrow> 0 \<le> s \<and> 0 \<le> ns \<and> ns < 1000000000 \<and>
     s * 1000000 + ns div 1000 = max 1 (sint w - sint now)"
  by (auto simp: howMuchTimeFromNow_def Let_def max_def)

end
