(* ===== verification/Thread_Pool.thy ===== *)
theory Thread_Pool
  imports Main "HOL-Library.Multiset"
begin

text \<open>
  The worker pool with a bounded queue, \<^verbatim>\<open>concurrent/thread_pool.h\<close> and \<^verbatim>\<open>concurrent/thread_pool.cc\<close>. Every critical section
  under the mutex is one atomic step; a wait on a condition variable releases the mutex and puts the
  thread to sleep until it is notified or wakes spuriously, after which it evaluates its predicate
  again. Tasks are numbers. The theory shows that no accepted task is lost or run twice, that the
  bound holds, that no wake-up is lost, and that a stopped pool has run everything it accepted.
\<close>

section \<open>State\<close>

type_synonym task = nat

text \<open>A worker waits on \<^verbatim>\<open>not_empty_\<close>, is about to lock the mutex in \<^verbatim>\<open>takeBatch\<close>, runs a batch, or has left.\<close>

datatype worker = Asleep | Ready | Running "task list" | Exited

text \<open>A producer in \<^verbatim>\<open>run\<close>: about to evaluate its predicate with its task, or waiting on \<^verbatim>\<open>not_full_\<close>.\<close>

datatype producer = Checking task | Blocked task

record ThreadPool =
  queue :: "task list"
  workers :: "worker list"
  producers :: "nat \<Rightarrow> producer option"
  max_queue_size :: nat
  take_batch_size :: nat
  running :: bool
  notifying :: bool
  accepted :: "task list"
  executed :: "task list"

definition ThreadPool_new :: "nat \<Rightarrow> nat \<Rightarrow> ThreadPool" where
  "ThreadPool_new bound batch =
     \<lparr>queue = [], workers = [], producers = (\<lambda>_. None), max_queue_size = bound, take_batch_size = batch,
      running = False, notifying = False, accepted = [], executed = []\<rparr>"

section \<open>Operations\<close>

text \<open>\<^verbatim>\<open>start(num_threads)\<close>; \<open>None\<close> when its assertion fails.\<close>

definition start :: "nat \<Rightarrow> ThreadPool \<Rightarrow> ThreadPool option" where
  "start num_threads p =
     (if running p then None
      else Some (p\<lparr>running := True, workers := workers p @ replicate num_threads Ready\<rparr>))"

definition isFull :: "ThreadPool \<Rightarrow> bool" where
  "isFull p = (max_queue_size p > 0 \<and> length (queue p) \<ge> max_queue_size p)"

definition queueSize :: "ThreadPool \<Rightarrow> nat" where
  "queueSize p = length (queue p)"

text \<open>\<^verbatim>\<open>notify_one\<close> wakes the sleeping worker \<open>w\<close> the system picks, if any worker sleeps.\<close>

definition notify_worker :: "nat \<Rightarrow> ThreadPool \<Rightarrow> ThreadPool" where
  "notify_worker w p =
     (if w < length (workers p) \<and> workers p ! w = Asleep then p\<lparr>workers := (workers p)[w := Ready]\<rparr> else p)"

definition some_asleep :: "ThreadPool \<Rightarrow> bool" where
  "some_asleep p = (Asleep \<in> set (workers p))"

text \<open>\<^verbatim>\<open>queue_.push_back(task); not_empty_.notify_one()\<close>.\<close>

definition push_task :: "task \<Rightarrow> nat \<Rightarrow> ThreadPool \<Rightarrow> ThreadPool" where
  "push_task t w p = notify_worker w (p\<lparr>queue := queue p @ [t], accepted := accepted p @ [t]\<rparr>)"

text \<open>Running a task in the caller's thread when there are no workers.\<close>

definition run_inline :: "task \<Rightarrow> ThreadPool \<Rightarrow> ThreadPool" where
  "run_inline t p = p\<lparr>accepted := accepted p @ [t], executed := executed p @ [t]\<rparr>"

definition tryRun :: "task \<Rightarrow> nat \<Rightarrow> ThreadPool \<Rightarrow> bool \<times> ThreadPool" where
  "tryRun t w p =
     (if workers p = [] then (True, run_inline t p)
      else if \<not> running p then (False, p)
      else if isFull p then (False, p)
      else (True, push_task t w p))"

text \<open>\<^verbatim>\<open>not_full_.notify_all()\<close> and \<^verbatim>\<open>not_empty_.notify_all()\<close>.\<close>

fun wake_producer :: "producer \<Rightarrow> producer" where
  "wake_producer (Blocked t) = Checking t"
| "wake_producer (Checking t) = Checking t"

definition notify_producers :: "ThreadPool \<Rightarrow> ThreadPool" where
  "notify_producers p = p\<lparr>producers := (\<lambda>i. map_option wake_producer (producers p i))\<rparr>"

definition wake_worker :: "worker \<Rightarrow> worker" where
  "wake_worker w = (if w = Asleep then Ready else w)"

definition notify_workers :: "ThreadPool \<Rightarrow> ThreadPool" where
  "notify_workers p = p\<lparr>workers := map wake_worker (workers p)\<rparr>"

text \<open>
  \<^verbatim>\<open>stop\<close> in three parts: its critical section, after which \<open>notifying\<close> records that the notifications are
  still to come, the two \<^verbatim>\<open>notify_all\<close>, and the joins, which wait for every worker to leave.
\<close>

definition stop_flag :: "ThreadPool \<Rightarrow> ThreadPool" where
  "stop_flag p = (if \<not> running p then p else p\<lparr>running := False, notifying := True\<rparr>)"

definition stop_notify :: "ThreadPool \<Rightarrow> ThreadPool" where
  "stop_notify p = (notify_producers (notify_workers p))\<lparr>notifying := False\<rparr>"

definition stop_join :: "ThreadPool \<Rightarrow> ThreadPool" where
  "stop_join p = p\<lparr>workers := []\<rparr>"

text \<open>How many tasks a worker takes: at most the batch size and at most a fair share of the backlog.\<close>

definition batch_count :: "ThreadPool \<Rightarrow> nat" where
  "batch_count p =
     (let ws = (if workers p = [] then 1 else length (workers p));
          fair_share = (length (queue p) + ws - 1) div ws;
          cap = (if take_batch_size p > 0 then take_batch_size p else 1)
      in min cap (min fair_share (length (queue p))))"

text \<open>
  One evaluation of the predicate in \<^verbatim>\<open>takeBatch\<close> by worker \<open>w\<close> and what follows under the same lock: wait
  again, leave, or take a batch and notify blocked producers if the queue was full.
\<close>

definition takeBatch :: "nat \<Rightarrow> ThreadPool \<Rightarrow> ThreadPool" where
  "takeBatch w p =
     (if queue p = [] \<and> running p then p\<lparr>workers := (workers p)[w := Asleep]\<rparr>
      else if queue p = [] then p\<lparr>workers := (workers p)[w := Exited]\<rparr>
      else
        (let was_full = isFull p; n = batch_count p;
             p1 = p\<lparr>workers := (workers p)[w := Running (take n (queue p))], queue := drop n (queue p)\<rparr>
         in if was_full then notify_producers p1 else p1))"

text \<open>One evaluation of the predicate in \<^verbatim>\<open>run\<close> by producer \<open>i\<close>.\<close>

definition run_check :: "nat \<Rightarrow> task \<Rightarrow> nat \<Rightarrow> ThreadPool \<Rightarrow> ThreadPool" where
  "run_check i t w p =
     (if isFull p \<and> running p then p\<lparr>producers := (producers p)(i \<mapsto> Blocked t)\<rparr>
      else if \<not> running p then p\<lparr>producers := (producers p)(i := None)\<rparr>
      else (push_task t w p)\<lparr>producers := (producers p)(i := None)\<rparr>)"

text \<open>One step of \<^verbatim>\<open>runInThread\<close> by worker \<open>w\<close>: the next lock of \<^verbatim>\<open>takeBatch\<close>, the next task, or the end of the batch.\<close>

definition runInThread :: "nat \<Rightarrow> ThreadPool \<Rightarrow> ThreadPool" where
  "runInThread w p =
     (case workers p ! w of
        Ready \<Rightarrow> takeBatch w p
      | Running (t # ts) \<Rightarrow> p\<lparr>workers := (workers p)[w := Running ts], executed := executed p @ [t]\<rparr>
      | Running [] \<Rightarrow> p\<lparr>workers := (workers p)[w := Ready]\<rparr>
      | _ \<Rightarrow> p)"

section \<open>Interleavings\<close>

text \<open>
  The choice \<open>w\<close> of a notification must be a sleeping worker when there is one. A pool is started again
  only when its workers are joined and no call of \<^verbatim>\<open>run\<close> is in progress: \<^verbatim>\<open>threads_\<close> is read without the lock.
\<close>

definition notify_choice :: "nat \<Rightarrow> ThreadPool \<Rightarrow> bool" where
  "notify_choice w p = (some_asleep p \<longrightarrow> w < length (workers p) \<and> workers p ! w = Asleep)"

inductive worker_step :: "ThreadPool \<Rightarrow> ThreadPool \<Rightarrow> bool" where
  move: "\<lbrakk> w < length (workers p); workers p ! w \<noteq> Asleep; workers p ! w \<noteq> Exited \<rbrakk> \<Longrightarrow> worker_step p (runInThread w p)"

inductive pool_step :: "ThreadPool \<Rightarrow> ThreadPool \<Rightarrow> bool" where
  worker: "worker_step p p' \<Longrightarrow> pool_step p p'"
| spurious_worker: "\<lbrakk> w < length (workers p); workers p ! w = Asleep \<rbrakk> \<Longrightarrow>
    pool_step p (p\<lparr>workers := (workers p)[w := Ready]\<rparr>)"
| try_run: "notify_choice w p \<Longrightarrow> pool_step p (snd (tryRun t w p))"
| run_here: "workers p = [] \<Longrightarrow> pool_step p (run_inline t p)"
| run_call: "\<lbrakk> workers p \<noteq> []; producers p i = None \<rbrakk> \<Longrightarrow> pool_step p (p\<lparr>producers := (producers p)(i \<mapsto> Checking t)\<rparr>)"
| run_test: "\<lbrakk> producers p i = Some (Checking t); notify_choice w p \<rbrakk> \<Longrightarrow> pool_step p (run_check i t w p)"
| spurious_producer: "producers p i = Some (Blocked t) \<Longrightarrow>
    pool_step p (p\<lparr>producers := (producers p)(i \<mapsto> Checking t)\<rparr>)"
| stop1: "pool_step p (stop_flag p)"
| stop2: "notifying p \<Longrightarrow> pool_step p (stop_notify p)"
| stop3: "\<lbrakk> \<not> running p; \<not> notifying p; \<forall>w \<in> set (workers p). w = Exited \<rbrakk> \<Longrightarrow> pool_step p (stop_join p)"
| restart: "\<lbrakk> workers p = []; \<not> notifying p; \<forall>i. producers p i = None; start n p = Some p' \<rbrakk> \<Longrightarrow> pool_step p p'"

inductive pool_reachable :: "nat \<Rightarrow> nat \<Rightarrow> ThreadPool \<Rightarrow> bool" for bound batch where
  created: "pool_reachable bound batch (ThreadPool_new bound batch)"
| step: "\<lbrakk> pool_reachable bound batch p; pool_step p p' \<rbrakk> \<Longrightarrow> pool_reachable bound batch p'"

section \<open>The invariant\<close>

fun held :: "worker \<Rightarrow> task list" where
  "held (Running ts) = ts"
| "held _ = []"

definition in_workers :: "worker list \<Rightarrow> task multiset" where
  "in_workers ws = mset (concat (map held ws))"

definition active :: "worker \<Rightarrow> bool" where
  "active w = (w \<noteq> Asleep \<and> w \<noteq> Exited)"

definition tasks_kept :: "ThreadPool \<Rightarrow> bool" where
  "tasks_kept p = (mset (accepted p) = mset (queue p) + in_workers (workers p) + mset (executed p))"

definition pool_inv :: "nat \<Rightarrow> ThreadPool \<Rightarrow> bool" where
  "pool_inv bound p =
     (max_queue_size p = bound \<and> tasks_kept p \<and>
      (bound > 0 \<longrightarrow> length (queue p) \<le> bound) \<and>
      (queue p \<noteq> [] \<longrightarrow> (\<exists>w \<in> set (workers p). active w)) \<and>
      (Asleep \<in> set (workers p) \<longrightarrow> running p \<or> notifying p) \<and>
      (Exited \<in> set (workers p) \<longrightarrow> \<not> running p \<and> queue p = []) \<and>
      (notifying p \<longrightarrow> \<not> running p) \<and>
      (workers p = [] \<and> running p \<longrightarrow> (\<forall>i. producers p i = None)) \<and>
      (\<forall>i t. producers p i = Some (Blocked t) \<longrightarrow> (isFull p \<and> running p) \<or> notifying p))"

lemma pool_invD:
  assumes "pool_inv bound p"
  shows "max_queue_size p = bound" "tasks_kept p" "bound > 0 \<Longrightarrow> length (queue p) \<le> bound"
    "queue p \<noteq> [] \<Longrightarrow> \<exists>w \<in> set (workers p). active w"
    "Asleep \<in> set (workers p) \<Longrightarrow> running p \<or> notifying p"
    "Exited \<in> set (workers p) \<Longrightarrow> \<not> running p"
    "Exited \<in> set (workers p) \<Longrightarrow> queue p = []"
    "notifying p \<Longrightarrow> \<not> running p"
    "workers p = [] \<Longrightarrow> running p \<Longrightarrow> producers p i = None"
    "producers p i = Some (Blocked t) \<Longrightarrow> (isFull p \<and> running p) \<or> notifying p"
  using assms unfolding pool_inv_def by simp_all blast

lemma pool_invI:
  assumes "max_queue_size p = bound" "tasks_kept p" "bound > 0 \<Longrightarrow> length (queue p) \<le> bound"
    "queue p \<noteq> [] \<Longrightarrow> \<exists>w \<in> set (workers p). active w"
    "Asleep \<in> set (workers p) \<Longrightarrow> running p \<or> notifying p"
    "Exited \<in> set (workers p) \<Longrightarrow> \<not> running p"
    "Exited \<in> set (workers p) \<Longrightarrow> queue p = []"
    "notifying p \<Longrightarrow> \<not> running p"
    "\<And>i. workers p = [] \<Longrightarrow> running p \<Longrightarrow> producers p i = None"
    "\<And>i t. producers p i = Some (Blocked t) \<Longrightarrow> (isFull p \<and> running p) \<or> notifying p"
  shows "pool_inv bound p"
  using assms unfolding pool_inv_def by blast

lemma in_workers_update:
  assumes "w < length ws"
  shows "in_workers (ws[w := x]) + mset (held (ws ! w)) = in_workers ws + mset (held x)"
proof -
  have 1: "ws = take w ws @ (ws ! w) # drop (Suc w) ws" using assms by (rule id_take_nth_drop)
  have "in_workers ws = in_workers (take w ws @ (ws ! w) # drop (Suc w) ws)" using 1 by simp
  then show ?thesis using assms by (simp add: upd_conv_take_nth_drop in_workers_def)
qed

lemma in_workers_same:
  "w < length ws \<Longrightarrow> held (ws ! w) = held x \<Longrightarrow> in_workers (ws[w := x]) = in_workers ws"
  using in_workers_update [of w ws x] by simp

lemma set_update_cases:
  "w < length ws \<Longrightarrow> (y \<in> set (ws[w := x])) \<Longrightarrow> y = x \<or> y \<in> set ws"
  using set_update_subset_insert [of ws w x] by auto


lemma inv_new: "pool_inv bound (ThreadPool_new bound batch)"
  by (simp add: pool_inv_def ThreadPool_new_def tasks_kept_def in_workers_def)

lemma inv_producer_checking:
  assumes "pool_inv bound p" "workers p \<noteq> [] \<or> producers p i \<noteq> None"
  shows "pool_inv bound (p\<lparr>producers := (producers p)(i \<mapsto> Checking t)\<rparr>)"
  using pool_invD [OF assms(1)] assms(2)
  by (intro pool_invI) (auto simp: tasks_kept_def isFull_def split: if_splits)

lemma inv_producer_gone:
  assumes "pool_inv bound p"
  shows "pool_inv bound (p\<lparr>producers := (producers p)(i := None)\<rparr>)"
  using pool_invD [OF assms]
  by (intro pool_invI) (auto simp: tasks_kept_def isFull_def split: if_splits)

lemma notify_worker_simps [simp]:
  "queue (notify_worker w p) = queue p"
  "producers (notify_worker w p) = producers p"
  "max_queue_size (notify_worker w p) = max_queue_size p"
  "running (notify_worker w p) = running p"
  "notifying (notify_worker w p) = notifying p"
  "accepted (notify_worker w p) = accepted p"
  "executed (notify_worker w p) = executed p"
  "length (workers (notify_worker w p)) = length (workers p)"
  "in_workers (workers (notify_worker w p)) = in_workers (workers p)"
  by (simp_all add: notify_worker_def in_workers_same)

lemma notify_worker_set:
  "x \<in> set (workers (notify_worker w p)) \<Longrightarrow> x = Ready \<or> x \<in> set (workers p)"
  by (auto simp: notify_worker_def dest: set_update_cases split: if_splits)

lemma notify_worker_active:
  assumes "workers p \<noteq> []" "Exited \<notin> set (workers p)" "notify_choice w p"
  shows "\<exists>x \<in> set (workers (notify_worker w p)). active x"
proof (cases "some_asleep p")
  case True
  then have w: "w < length (workers p)" "workers p ! w = Asleep" using assms(3) by (simp_all add: notify_choice_def)
  then have "Ready \<in> set (workers (notify_worker w p))" by (simp add: notify_worker_def set_update_memI)
  then show ?thesis by (auto simp: active_def)
next
  case False
  then have "workers (notify_worker w p) = workers p" by (auto simp: notify_worker_def some_asleep_def dest: nth_mem)
  moreover have "hd (workers p) \<in> set (workers p)" using assms(1) by simp
  ultimately show ?thesis using False assms(2) by (metis active_def some_asleep_def)
qed

lemma inv_push:
  assumes "pool_inv bound p" "running p" "\<not> isFull p" "workers p \<noteq> []" "notify_choice w p"
  shows "pool_inv bound (push_task t w p)"
proof -
  let ?q = "p\<lparr>queue := queue p @ [t], accepted := accepted p @ [t]\<rparr>"
  have "\<exists>x \<in> set (workers (notify_worker w ?q)). active x"
    by (rule notify_worker_active) (use assms in \<open>auto simp: pool_inv_def notify_choice_def some_asleep_def\<close>)
  moreover have "Exited \<notin> set (workers (notify_worker w ?q))"
    using assms(1,2) notify_worker_set [of Exited w ?q] by (auto simp: pool_inv_def)
  moreover have "bound > 0 \<Longrightarrow> length (queue p) < bound" using assms(1,3) by (auto simp: pool_inv_def isFull_def)
  moreover have "producers p i \<noteq> Some (Blocked t')" for i t'
    using assms(1-3) by (auto simp: pool_inv_def)
  moreover have "workers (notify_worker w ?q) \<noteq> []"
    using assms(4) notify_worker_simps(8) [of w ?q] by (auto simp del: notify_worker_simps(8))
  ultimately show ?thesis using assms(1,2)
    by (auto simp: push_task_def pool_inv_def tasks_kept_def)
qed

lemma update_member: "w < length ws \<Longrightarrow> x \<in> set (ws[w := x])"
  by (rule set_update_memI)

lemma inv_worker_ready:
  assumes "pool_inv bound p" "w < length (workers p)" "held (workers p ! w) = []"
  shows "pool_inv bound (p\<lparr>workers := (workers p)[w := Ready]\<rparr>)"
proof -
  have "\<exists>x \<in> set ((workers p)[w := Ready]). active x" using update_member [OF assms(2)] by (auto simp: active_def)
  moreover have "x \<noteq> Ready \<Longrightarrow> x \<in> set ((workers p)[w := Ready]) \<Longrightarrow> x \<in> set (workers p)" for x
    using set_update_cases [OF assms(2)] by blast
  moreover have "in_workers ((workers p)[w := Ready]) = in_workers (workers p)"
    using assms(2,3) by (simp add: in_workers_same)
  ultimately show ?thesis using assms(1) by (auto simp: pool_inv_def tasks_kept_def isFull_def)
qed

lemma inv_run_task:
  assumes "pool_inv bound p" "w < length (workers p)" "workers p ! w = Running (t # ts)"
  shows "pool_inv bound (p\<lparr>workers := (workers p)[w := Running ts], executed := executed p @ [t]\<rparr>)"
proof -
  have "\<exists>x \<in> set ((workers p)[w := Running ts]). active x" using update_member [OF assms(2)] by (auto simp: active_def)
  moreover have "x = Asleep \<or> x = Exited \<Longrightarrow> x \<in> set ((workers p)[w := Running ts]) \<Longrightarrow> x \<in> set (workers p)" for x
    using set_update_cases [OF assms(2)] by blast
  moreover have "in_workers ((workers p)[w := Running ts]) + {#t#} = in_workers (workers p)"
    using in_workers_update [OF assms(2), of "Running ts"] assms(3) by simp
  then have "tasks_kept (p\<lparr>workers := (workers p)[w := Running ts], executed := executed p @ [t]\<rparr>)"
    using assms(1) by (simp add: pool_inv_def tasks_kept_def add.commute add.left_commute
        flip: \<open>in_workers ((workers p)[w := Running ts]) + {#t#} = in_workers (workers p)\<close>)
  ultimately show ?thesis using assms(1) by (auto simp: pool_inv_def isFull_def)
qed

lemma inv_worker_idle:
  assumes "pool_inv bound p" "w < length (workers p)" "workers p ! w = Ready" "queue p = []"
    "x = Asleep \<and> running p \<or> x = Exited \<and> \<not> running p"
  shows "pool_inv bound (p\<lparr>workers := (workers p)[w := x]\<rparr>)"
proof -
  have "y \<noteq> x \<Longrightarrow> y \<in> set ((workers p)[w := x]) \<Longrightarrow> y \<in> set (workers p)" for y
    using set_update_cases [OF assms(2)] by blast
  moreover have "in_workers ((workers p)[w := x]) = in_workers (workers p)"
    using assms(2,3,5) by (intro in_workers_same) auto
  ultimately show ?thesis using assms by (auto simp: pool_inv_def tasks_kept_def isFull_def)
qed

lemma batch_count_pos: "queue p \<noteq> [] \<Longrightarrow> 0 < batch_count p"
proof -
  assume q: "queue p \<noteq> []"
  define ws where "ws = (if workers p = [] then 1 else length (workers p))"
  have "0 < ws" by (simp add: ws_def)
  moreover have "ws \<le> length (queue p) + ws - 1" using q \<open>0 < ws\<close> by (cases "queue p") simp_all
  ultimately have "0 < (length (queue p) + ws - 1) div ws" by (simp add: div_greater_zero_iff)
  then show ?thesis using q by (simp add: batch_count_def Let_def flip: ws_def)
qed

lemma batch_count_le: "batch_count p \<le> length (queue p)"
  by (simp add: batch_count_def Let_def)

lemma inv_take:
  assumes "pool_inv bound p" "w < length (workers p)" "workers p ! w = Ready" "queue p \<noteq> []"
  shows "pool_inv bound (takeBatch w p)"
proof -
  define n where "n = batch_count p"
  define p1 where "p1 = p\<lparr>workers := (workers p)[w := Running (take n (queue p))], queue := drop n (queue p)\<rparr>"
  have n: "0 < n" "n \<le> length (queue p)" using batch_count_pos [OF assms(4)] batch_count_le by (simp_all add: n_def)
  have act: "\<exists>x \<in> set (workers p1). active x"
    using update_member [OF assms(2)] by (auto simp: active_def p1_def)
  have mem: "x = Asleep \<or> x = Exited \<Longrightarrow> x \<in> set (workers p1) \<Longrightarrow> x \<in> set (workers p)" for x
    using set_update_cases [OF assms(2)] by (auto simp: p1_def)
  have "in_workers (workers p1) = in_workers (workers p) + mset (take n (queue p))"
    using in_workers_update [OF assms(2), of "Running (take n (queue p))"] assms(3) by (simp add: p1_def)
  moreover have "mset (queue p) = mset (take n (queue p)) + mset (drop n (queue p))"
    by (metis append_take_drop_id mset_append)
  ultimately have kept: "tasks_kept p1" using assms(1)
    by (simp add: pool_inv_def tasks_kept_def p1_def add.commute add.left_commute)
  have blocked: "producers p i = Some (Blocked t) \<Longrightarrow> \<not> isFull p \<Longrightarrow> notifying p" for i t
    using assms(1) by (auto simp: pool_inv_def)
  have wake: "map_option wake_producer x \<noteq> Some (Blocked t)" for x t
    by (cases x; cases "the x") auto
  define p2 where "p2 = takeBatch w p"
  have t: "p2 = (if isFull p then notify_producers p1 else p1)"
    using assms(4) by (simp add: p2_def takeBatch_def Let_def p1_def n_def)
  have f: "queue p2 = drop n (queue p)" "max_queue_size p2 = max_queue_size p" "workers p2 = workers p1"
    "running p2 = running p" "notifying p2 = notifying p" "tasks_kept p2 = tasks_kept p1"
    by (simp_all add: t p1_def notify_producers_def tasks_kept_def)
  have b: "producers p2 i = Some (Blocked t) \<Longrightarrow> notifying p" for i t
    using blocked wake by (auto simp: t notify_producers_def p1_def split: if_splits)
  have c: "workers p1 \<noteq> []" using act by auto
  note D = pool_invD [OF assms(1)]
  have "pool_inv bound p2"
  proof (rule pool_invI, unfold f)
    show "bound > 0 \<Longrightarrow> length (drop n (queue p)) \<le> bound" using D(3) by simp
    show "Asleep \<in> set (workers p1) \<Longrightarrow> running p \<or> notifying p" using D(5) mem by blast
    show "Exited \<in> set (workers p1) \<Longrightarrow> \<not> running p" using D(6) mem by blast
    show "Exited \<in> set (workers p1) \<Longrightarrow> drop n (queue p) = []" using D(7) mem assms(4) by blast
    show "producers p2 i = Some (Blocked t) \<Longrightarrow> (isFull p2 \<and> running p) \<or> notifying p" for i t using b by blast
  qed (use D(1,8) kept act c in simp_all)
  then show ?thesis by (simp add: p2_def)
qed

lemma inv_worker_step:
  assumes "worker_step p p'" "pool_inv bound p"
  shows "pool_inv bound p'"
  using assms(1)
proof cases
  case (move w)
  show ?thesis
  proof (cases "workers p ! w")
    case Ready
    show ?thesis
    proof (cases "queue p = []")
      case True
      then have "p' = p\<lparr>workers := (workers p)[w := if running p then Asleep else Exited]\<rparr>"
        using move(1) Ready by (simp add: runInThread_def takeBatch_def)
      then show ?thesis using inv_worker_idle [OF assms(2) move(2) Ready True] by simp
    next
      case False
      then show ?thesis using inv_take [OF assms(2) move(2) Ready] move(1) Ready by (simp add: runInThread_def)
    qed
  next
    case (Running ts)
    then show ?thesis using move inv_worker_ready [OF assms(2) move(2)] inv_run_task [OF assms(2) move(2)]
      by (cases ts) (simp_all add: runInThread_def)
  qed (use move in simp_all)
qed

lemma inv_run_inline:
  assumes "pool_inv bound p"
  shows "pool_inv bound (run_inline t p)"
  unfolding run_inline_def using pool_invD [OF assms]
  by (intro pool_invI) (auto simp: tasks_kept_def isFull_def)

lemma inv_try_run: "pool_inv bound p \<Longrightarrow> notify_choice w p \<Longrightarrow> pool_inv bound (snd (tryRun t w p))"
  by (simp add: tryRun_def inv_run_inline inv_push)

lemma inv_run_check:
  assumes "pool_inv bound p" "producers p i = Some (Checking t)" "notify_choice w p"
  shows "pool_inv bound (run_check i t w p)"
proof -
  note D = pool_invD [OF assms(1)]
  have 1: "pool_inv bound (p\<lparr>producers := (producers p)(i \<mapsto> Blocked t)\<rparr>)" if "isFull p" "running p"
    using D that assms(2) by (intro pool_invI) (auto simp: tasks_kept_def isFull_def split: if_splits)
  have 2: "pool_inv bound ((push_task t w p)\<lparr>producers := (producers p)(i := None)\<rparr>)" if "\<not> isFull p" "running p"
  proof -
    have "workers p \<noteq> []" using D(9) [of i] that assms(2) by auto
    then show ?thesis using inv_producer_gone [OF inv_push [OF assms(1) that(2,1) _ assms(3)], of t i]
      by (simp add: push_task_def)
  qed
  show ?thesis using 1 2 inv_producer_gone [OF assms(1)] by (auto simp: run_check_def)
qed

lemma inv_stop_flag:
  assumes "pool_inv bound p"
  shows "pool_inv bound (stop_flag p)"
proof (cases "running p")
  case True
  have "stop_flag p = p\<lparr>running := False, notifying := True\<rparr>" using True by (simp add: stop_flag_def)
  then show ?thesis using pool_invD [OF assms]
    by (intro pool_invI) (auto simp: tasks_kept_def isFull_def)
next
  case False
  then show ?thesis using assms by (simp add: stop_flag_def)
qed

lemma held_wake [simp]: "held (wake_worker w) = held w"
  by (simp add: wake_worker_def)

lemma in_workers_wake [simp]: "in_workers (map wake_worker ws) = in_workers ws"
  by (simp add: in_workers_def comp_def)

lemma inv_stop_notify:
  assumes "pool_inv bound p" "notifying p"
  shows "pool_inv bound (stop_notify p)"
proof -
  note D = pool_invD [OF assms(1)]
  have f: "queue (stop_notify p) = queue p" "max_queue_size (stop_notify p) = max_queue_size p"
    "workers (stop_notify p) = map wake_worker (workers p)" "running (stop_notify p) = running p"
    "\<not> notifying (stop_notify p)" "tasks_kept (stop_notify p) = tasks_kept p"
    by (simp_all add: stop_notify_def notify_producers_def notify_workers_def tasks_kept_def)
  have w1: "Asleep \<notin> set (map wake_worker (workers p))" by (auto simp: wake_worker_def split: if_splits)
  have w2: "Exited \<in> set (map wake_worker (workers p)) \<Longrightarrow> Exited \<in> set (workers p)"
    by (auto simp: wake_worker_def split: if_splits)
  have w3: "\<exists>x \<in> set (map wake_worker (workers p)). active x" if q: "queue p \<noteq> []"
  proof -
    obtain x where x: "x \<in> set (workers p)" "active x" using D(4) [OF q] by blast
    then have "wake_worker x = x" by (simp add: wake_worker_def active_def)
    then show ?thesis using x by force
  qed
  have b: "producers (stop_notify p) i \<noteq> Some (Blocked t)" for i t
    by (cases "producers p i"; cases "the (producers p i)")
       (simp_all add: stop_notify_def notify_producers_def notify_workers_def)
  show ?thesis
  proof (rule pool_invI, unfold f(1-4) f(6))
    show "Exited \<in> set (map wake_worker (workers p)) \<Longrightarrow> queue p = []" using D(7) w2 by blast
  qed (use D(1-3) D(8) [OF assms(2)] b w1 w3 f(5) in simp_all)
qed

lemma inv_stop_join:
  assumes "pool_inv bound p" "\<forall>w \<in> set (workers p). w = Exited" "\<not> running p"
  shows "pool_inv bound (stop_join p)"
proof -
  note D = pool_invD [OF assms(1)]
  have "held w = []" if "w \<in> set (workers p)" for w using assms(2) that by force
  then have "in_workers (workers p) = {#}" by (simp add: in_workers_def)
  moreover have "queue p = []" using D(4) assms(2) by (auto simp: active_def)
  moreover have "producers p i = Some (Blocked t) \<Longrightarrow> notifying p" for i t using D(10) assms(3) by blast
  ultimately show ?thesis unfolding stop_join_def using D(1-3) D(8) assms(3)
    by (intro pool_invI) (simp_all add: tasks_kept_def in_workers_def)
qed

lemma inv_restart:
  assumes "pool_inv bound p" "workers p = []" "\<not> notifying p" "\<forall>i. producers p i = None" "start n p = Some p'"
  shows "pool_inv bound p'"
proof -
  note D = pool_invD [OF assms(1)]
  have "queue p = []" using D(4) assms(2) by auto
  moreover have "p' = p\<lparr>running := True, workers := replicate n Ready\<rparr>"
    using assms(2,5) by (simp add: start_def split: if_splits)
  moreover have "in_workers (replicate n Ready) = {#}" by (simp add: in_workers_def)
  ultimately show ?thesis using D assms(2-4)
    by (intro pool_invI) (auto simp: tasks_kept_def isFull_def in_workers_def)
qed

lemma inv_step:
  assumes "pool_step p p'" "pool_inv bound p"
  shows "pool_inv bound p'"
  using assms(1)
proof cases
  case worker
  then show ?thesis using assms(2) by (rule inv_worker_step)
next
  case (spurious_worker w)
  then show ?thesis using inv_worker_ready [OF assms(2), of w] by simp
next
  case (run_call i t)
  then show ?thesis using inv_producer_checking [OF assms(2)] by simp
next
  case (spurious_producer i t)
  then show ?thesis using inv_producer_checking [OF assms(2), of i] by simp
next
  case (restart n)
  then show ?thesis using inv_restart [OF assms(2)] by simp
qed (use assms(2) in \<open>simp_all add: inv_try_run inv_run_inline inv_run_check inv_stop_flag inv_stop_notify inv_stop_join\<close>)

lemma reachable_inv: "pool_reachable bound batch p \<Longrightarrow> pool_inv bound p"
  by (induction rule: pool_reachable.induct) (auto intro: inv_new inv_step)

text \<open>The queue is a suffix of the accepted tasks: tasks leave it in the order they were accepted.\<close>

definition fifo :: "ThreadPool \<Rightarrow> bool" where
  "fifo p = (\<exists>taken. accepted p = taken @ queue p)"

lemma fifo_keep: "fifo p \<Longrightarrow> accepted p' = accepted p \<Longrightarrow> queue p' = queue p \<Longrightarrow> fifo p'"
  by (simp add: fifo_def)

lemma fifo_push: "fifo p \<Longrightarrow> fifo (push_task t w p)"
  by (auto simp: fifo_def push_task_def)

lemma fifo_inline:
  assumes "pool_inv bound p" "workers p = []"
  shows "fifo (run_inline t p)"
proof -
  have "queue p = []" using pool_invD(4) [OF assms(1)] assms(2) by auto
  then show ?thesis by (simp add: fifo_def run_inline_def)
qed

lemma fifo_worker_step:
  assumes "worker_step p p'" "fifo p"
  shows "fifo p'"
proof -
  obtain w where p': "p' = runInThread w p" using assms(1) by cases
  have "accepted p' = accepted p \<and> (\<exists>n. queue p' = drop n (queue p))"
    by (auto simp: p' runInThread_def takeBatch_def Let_def notify_producers_def
        split: worker.split list.split intro: exI [of _ 0])
  then obtain n where "accepted p' = accepted p" "queue p' = drop n (queue p)" by blast
  moreover obtain pre where "accepted p = pre @ queue p" using assms(2) by (auto simp: fifo_def)
  ultimately have "accepted p' = (pre @ take n (queue p)) @ queue p'" by simp
  then show ?thesis unfolding fifo_def by blast
qed

lemma fifo_step:
  assumes "pool_step p p'" "pool_inv bound p" "fifo p"
  shows "fifo p'"
  using assms(1)
proof cases
  case worker
  then show ?thesis using assms(3) by (rule fifo_worker_step)
next
  case (try_run w t)
  then show ?thesis using assms(3) fifo_inline [OF assms(2)] by (simp add: tryRun_def fifo_push)
next
  case (run_here t)
  then show ?thesis using fifo_inline [OF assms(2)] by simp
next
  case (run_test i t w)
  then show ?thesis using assms(3) fifo_push [OF assms(3), of t w]
    by (auto simp: run_check_def intro: fifo_keep)
qed (use assms(3) in \<open>auto simp: fifo_def stop_flag_def stop_notify_def notify_producers_def notify_workers_def
    stop_join_def start_def split: if_splits\<close>)

lemma reachable_fifo: "pool_reachable bound batch p \<Longrightarrow> fifo p"
proof (induction rule: pool_reachable.induct)
  case created
  then show ?case by (simp add: fifo_def ThreadPool_new_def)
next
  case (step p p')
  then show ?case using fifo_step reachable_inv by blast
qed

section \<open>Draining\<close>

fun worker_weight :: "worker \<Rightarrow> nat" where
  "worker_weight (Running ts) = 2 + length ts"
| "worker_weight Ready = 1"
| "worker_weight _ = 0"

definition pool_weight :: "ThreadPool \<Rightarrow> nat" where
  "pool_weight p = 3 * length (queue p) + sum_list (map worker_weight (workers p))"

lemma weight_update:
  "w < length ws \<Longrightarrow>
   sum_list (map worker_weight (ws[w := x])) + worker_weight (ws ! w) = sum_list (map worker_weight ws) + worker_weight x"
proof -
  assume w: "w < length ws"
  have 1: "ws = take w ws @ (ws ! w) # drop (Suc w) ws" using w by (rule id_take_nth_drop)
  have "sum_list (map worker_weight ws) = sum_list (map worker_weight (take w ws @ (ws ! w) # drop (Suc w) ws))"
    using 1 by simp
  then show ?thesis using w by (simp add: upd_conv_take_nth_drop)
qed

text \<open>In a stopped pool every step of a worker lowers the weight, and the pool stays stopped.\<close>

lemma stopped_worker_step:
  assumes "worker_step p p'" "\<not> running p"
  shows "pool_weight p' < pool_weight p" "\<not> running p'" "notifying p' = notifying p"
proof -
  obtain w where p': "p' = runInThread w p" and w: "w < length (workers p)"
    and a: "workers p ! w \<noteq> Asleep" "workers p ! w \<noteq> Exited" using assms(1) by cases
  have "pool_weight p' < pool_weight p \<and> \<not> running p' \<and> notifying p' = notifying p"
  proof (cases "workers p ! w")
    case Ready
    show ?thesis
    proof (cases "queue p = []")
      case True
      then show ?thesis using p' Ready assms(2) weight_update [OF w, of Exited]
        by (simp add: runInThread_def takeBatch_def pool_weight_def)
    next
      case False
      define n where "n = batch_count p"
      have "0 < n" "n \<le> length (queue p)" using batch_count_pos [OF False] batch_count_le by (simp_all add: n_def)
      moreover have "queue p' = drop n (queue p)" "workers p' = (workers p)[w := Running (take n (queue p))]"
        "running p' = running p" "notifying p' = notifying p"
        using p' Ready False by (simp_all add: runInThread_def takeBatch_def Let_def n_def notify_producers_def)
      ultimately show ?thesis using weight_update [OF w, of "Running (take n (queue p))"] Ready assms(2)
        by (simp add: pool_weight_def)
    qed
  next
    case (Running ts)
    then show ?thesis using p' assms(2) weight_update [OF w, of "Running (tl ts)"] weight_update [OF w, of Ready]
      by (cases ts) (simp_all add: runInThread_def pool_weight_def)
  qed (use a in simp_all)
  then show "pool_weight p' < pool_weight p" "\<not> running p'" "notifying p' = notifying p" by simp_all
qed

lemma active_worker_moves: "x \<in> set (workers p) \<Longrightarrow> active x \<Longrightarrow> \<exists>p'. worker_step p p'"
  by (metis active_def in_set_conv_nth worker_step.move)

lemma stuck_stopped:
  assumes "pool_inv bound p" "\<not> running p" "\<not> notifying p" "\<And>p'. \<not> worker_step p p'"
  shows "(\<forall>w \<in> set (workers p). w = Exited) \<and> mset (accepted p) = mset (executed p)"
proof -
  note D = pool_invD [OF assms(1)]
  have e: "w = Exited" if "w \<in> set (workers p)" for w
    using that active_worker_moves [of w p] assms(4) D(5) assms(2,3) by (auto simp: active_def)
  then have "held w = []" if "w \<in> set (workers p)" for w using that by fastforce
  then have "in_workers (workers p) = {#}" by (simp add: in_workers_def)
  moreover have "queue p = []" using D(4) e by (auto simp: active_def)
  ultimately show ?thesis using e D(2) by (simp add: tasks_kept_def)
qed

lemma no_infinite_descent:
  fixes f :: "nat \<Rightarrow> ThreadPool"
  assumes "\<not> running (f 0)"
  shows "\<exists>k. \<not> worker_step (f k) (f (Suc k))"
proof (rule ccontr)
  assume "\<nexists>k. \<not> worker_step (f k) (f (Suc k))"
  then have s: "worker_step (f k) (f (Suc k))" for k by blast
  have r: "\<not> running (f k)" for k by (induction k) (use assms stopped_worker_step(2) s in blast)+
  have "pool_weight (f k) + k \<le> pool_weight (f 0)" for k
  proof (induction k)
    case (Suc k)
    then show ?case using stopped_worker_step(1) [OF s r, of k] by simp
  qed simp
  from this [of "Suc (pool_weight (f 0))"] show False by simp
qed

lemma stopped_path:
  assumes "worker_step\<^sup>*\<^sup>* p p'" "pool_inv bound p" "\<not> running p" "\<not> notifying p"
  shows "pool_inv bound p' \<and> \<not> running p' \<and> \<not> notifying p'"
  using assms by (induction rule: rtranclp_induct) (auto simp: stopped_worker_step intro: inv_worker_step)

section \<open>Properties\<close>

text \<open>A pool with one worker and room for one task, which accepted task 7; the same pool after \<^verbatim>\<open>stop\<close> has notified.\<close>

definition busy_pool :: ThreadPool where
  "busy_pool = snd (tryRun 7 0 (the (start 1 (ThreadPool_new 1 32))))"

definition stopped_pool :: ThreadPool where
  "stopped_pool = stop_notify (stop_flag busy_pool)"

lemma busy_pool_reachable: "pool_reachable 1 32 busy_pool"
proof -
  let ?p0 = "ThreadPool_new 1 32"
  have s: "start 1 ?p0 = Some (the (start 1 ?p0))" by (simp add: start_def ThreadPool_new_def)
  have "pool_step ?p0 (the (start 1 ?p0))"
    by (rule pool_step.restart [OF _ _ _ s]) (simp_all add: ThreadPool_new_def)
  then have r: "pool_reachable 1 32 (the (start 1 ?p0))" by (rule pool_reachable.step [OF created])
  have "pool_step (the (start 1 ?p0)) busy_pool"
    unfolding busy_pool_def by (rule pool_step.try_run)
      (simp add: notify_choice_def some_asleep_def start_def ThreadPool_new_def)
  then show ?thesis by (rule pool_reachable.step [OF r])
qed

lemma stopped_pool_reachable: "pool_reachable 1 32 stopped_pool"
proof -
  have "pool_reachable 1 32 (stop_flag busy_pool)"
    by (rule pool_reachable.step [OF busy_pool_reachable pool_step.stop1])
  moreover have "notifying (stop_flag busy_pool)"
    by (simp add: stop_flag_def busy_pool_def tryRun_def start_def ThreadPool_new_def push_task_def isFull_def)
  ultimately show ?thesis unfolding stopped_pool_def by (rule pool_reachable.step [OF _ pool_step.stop2])
qed

text \<open>
  C9: At every moment the accepted tasks are exactly those waiting in the queue, those a worker holds and
  those that have run, each once; tasks leave the queue in the order they were accepted; and a bounded
  queue never holds more than its bound. This holds for every interleaving of workers, producers and
  \<^verbatim>\<open>stop\<close>, and after a restart.
\<close>

theorem pool_keeps_tasks:
  assumes "pool_reachable bound batch p"
  shows "mset (accepted p) = mset (queue p) + in_workers (workers p) + mset (executed p) \<and>
         (\<exists>taken. accepted p = taken @ queue p) \<and> (bound > 0 \<longrightarrow> queueSize p \<le> bound)"
  using reachable_inv [OF assms] reachable_fifo [OF assms]
  by (auto simp: pool_inv_def tasks_kept_def fifo_def queueSize_def)

theorem pool_keeps_tasks_witness:
  "pool_reachable 1 32 busy_pool \<and> accepted busy_pool = [7] \<and> queue busy_pool = [7] \<and> queueSize busy_pool \<le> 1"
  using pool_keeps_tasks [OF busy_pool_reachable] busy_pool_reachable
  by (simp add: busy_pool_def tryRun_def start_def ThreadPool_new_def push_task_def isFull_def)

text \<open>
  C10: No wake-up is lost. While tasks wait in the queue some worker can take its next step, and a producer
  sleeps in \<^verbatim>\<open>run\<close> only while the queue is full and the pool runs, so a worker that frees a slot exists, or while
  \<^verbatim>\<open>stop\<close> is about to notify it.
\<close>

theorem pool_no_lost_wakeup:
  assumes "pool_reachable bound batch p"
  shows "(queue p \<noteq> [] \<longrightarrow> (\<exists>p'. worker_step p p')) \<and>
         (\<forall>i t. producers p i = Some (Blocked t) \<longrightarrow>
            notifying p \<or> (isFull p \<and> running p \<and> (\<exists>p'. worker_step p p')))"
proof -
  have inv: "pool_inv bound p" using assms by (rule reachable_inv)
  have 1: "queue p \<noteq> [] \<longrightarrow> (\<exists>p'. worker_step p p')"
    using pool_invD(4) [OF inv] active_worker_moves by blast
  moreover have "isFull p \<Longrightarrow> queue p \<noteq> []" by (auto simp: isFull_def)
  ultimately show ?thesis using pool_invD(10) [OF inv] by blast
qed

theorem pool_no_lost_wakeup_witness:
  "pool_reachable 1 32 busy_pool \<and> queue busy_pool = [7] \<and> (\<exists>p'. worker_step busy_pool p')"
  using pool_no_lost_wakeup [OF busy_pool_reachable] busy_pool_reachable
  by (simp add: busy_pool_def tryRun_def start_def ThreadPool_new_def push_task_def isFull_def)

text \<open>
  C38: A stopped pool drains. Once \<^verbatim>\<open>stop\<close> has notified, the workers cannot step forever, and when none of them
  can step any more every worker has left, so the joins return, and every accepted task has run.
\<close>

theorem stopped_pool_drains:
  assumes "pool_reachable bound batch p" "\<not> running p" "\<not> notifying p"
  shows "(\<forall>f. f 0 = p \<longrightarrow> (\<exists>k. \<not> worker_step (f k) (f (Suc k)))) \<and>
         (\<forall>p'. worker_step\<^sup>*\<^sup>* p p' \<and> (\<forall>q. \<not> worker_step p' q) \<longrightarrow>
            (\<forall>w \<in> set (workers p'). w = Exited) \<and> mset (accepted p') = mset (executed p'))"
proof -
  have "\<exists>k. \<not> worker_step (f k) (f (Suc k))" if "f 0 = p" for f
    using no_infinite_descent [of f] that assms(2) by simp
  moreover have "(\<forall>w \<in> set (workers p'). w = Exited) \<and> mset (accepted p') = mset (executed p')"
    if "worker_step\<^sup>*\<^sup>* p p'" "\<forall>q. \<not> worker_step p' q" for p'
    using stopped_path [OF that(1) reachable_inv [OF assms(1)] assms(2,3)] stuck_stopped that(2) by blast
  ultimately show ?thesis by blast
qed

theorem stopped_pool_drains_witness:
  "pool_reachable 1 32 stopped_pool \<and> executed stopped_pool = [] \<and>
   (let q = (runInThread 0 ^^ 4) stopped_pool in workers q = [Exited] \<and> mset (accepted q) = mset (executed q) \<and> executed q = [7])"
proof -
  let ?q = "runInThread 0 (runInThread 0 (runInThread 0 (runInThread 0 stopped_pool)))"
  have e: "\<not> running stopped_pool" "\<not> notifying stopped_pool" "workers stopped_pool = [Ready]"
    "queue stopped_pool = [7]" "executed stopped_pool = []" "take_batch_size stopped_pool = 32"
    by (simp_all add: stopped_pool_def stop_notify_def stop_flag_def notify_producers_def notify_workers_def wake_worker_def
        busy_pool_def tryRun_def start_def ThreadPool_new_def push_task_def isFull_def notify_worker_def)
  have b: "batch_count stopped_pool = 1" by (simp add: batch_count_def e)
  have 1: "workers (runInThread 0 stopped_pool) = [Running [7]]" "queue (runInThread 0 stopped_pool) = []"
    "executed (runInThread 0 stopped_pool) = []" "\<not> running (runInThread 0 stopped_pool)"
    using e b by (simp_all add: runInThread_def takeBatch_def Let_def notify_producers_def)
  have 2: "workers (runInThread 0 (runInThread 0 stopped_pool)) = [Running []]"
    "workers (runInThread 0 (runInThread 0 (runInThread 0 stopped_pool))) = [Ready]"
    "workers ?q = [Exited]" "executed ?q = [7]"
    using 1 by (simp_all add: runInThread_def takeBatch_def)
  have m: "worker_step p (runInThread 0 p)" if "workers p = [w]" "active w" for p w
    using worker_step.move [of 0 p] that by (simp add: active_def)
  have "worker_step\<^sup>*\<^sup>* stopped_pool ?q"
    using m [OF e(3)] m [OF 1(1)] m [OF 2(1)] m [OF 2(2)] by (simp add: active_def)
  moreover have "\<forall>q. \<not> worker_step ?q q" using 2(3) by (auto elim: worker_step.cases)
  ultimately have "mset (accepted ?q) = mset (executed ?q)"
    using stopped_pool_drains [OF stopped_pool_reachable e(1,2)] by blast
  then show ?thesis using 2(3,4) e(5) stopped_pool_reachable by (simp add: eval_nat_numeral Let_def)
qed

end
