(* ===== verification/Reactor_Channel.thy ===== *)
theory Reactor_Channel
  imports Main "HOL-Library.Word"
begin

text \<open>
  Channels and pollers: \<^verbatim>\<open>reactor/io_event.h\<close>, \<^verbatim>\<open>reactor/io_channel.h\<close>, \<^verbatim>\<open>reactor/io_channel.cc\<close> and the two pollers
  \<^verbatim>\<open>reactor/poller/epoll_poller.cc\<close> and \<^verbatim>\<open>reactor/poller/kqueue_poller.cc\<close>. A poller's state holds the calls it made to
  the kernel, in order; what the kernel then watches is read off these calls by the documented rules of
  \<^verbatim>\<open>epoll_ctl\<close> and \<^verbatim>\<open>kevent\<close>. The interface \<open>poller\<close> states what a channel needs of a poller, both pollers provide it,
  and the theory shows that the kernel always watches exactly what the channels ask for.
\<close>

unbundle bit_operations_syntax

section \<open>Events and channels\<close>

definition IO_NONE :: int where "IO_NONE = 0"
definition IO_READ :: int where "IO_READ = 1"
definition IO_WRITE :: int where "IO_WRITE = 2"
definition IO_ERROR :: int where "IO_ERROR = 4"

type_synonym chan_addr = nat

text \<open>A channel; of a callback only whether it is set, of the tie whether it was made.\<close>

record Channel =
  ch_fd :: int
  ch_events :: int
  ch_revents :: int
  tied :: bool
  readCallback :: bool
  writeCallback :: bool
  errorCallback :: bool

definition Channel_new :: "int \<Rightarrow> Channel" where
  "Channel_new fd = \<lparr>ch_fd = fd, ch_events = IO_NONE, ch_revents = IO_NONE, tied = False,
     readCallback = False, writeCallback = False, errorCallback = False\<rparr>"

definition isReading :: "Channel \<Rightarrow> bool" where
  "isReading c = (ch_events c AND IO_READ \<noteq> 0)"

definition isWriting :: "Channel \<Rightarrow> bool" where
  "isWriting c = (ch_events c AND IO_WRITE \<noteq> 0)"

definition tie :: "Channel \<Rightarrow> Channel" where
  "tie c = c\<lparr>tied := True\<rparr>"

datatype chan_call = ReadCallback | WriteCallback | ErrorCallback

definition handleEventsGuarded :: "Channel \<Rightarrow> chan_call list" where
  "handleEventsGuarded c =
     (if ch_revents c AND IO_ERROR \<noteq> 0 \<and> errorCallback c then [ErrorCallback] else []) @
     (if ch_revents c AND IO_READ \<noteq> 0 \<and> readCallback c then [ReadCallback] else []) @
     (if ch_revents c AND IO_WRITE \<noteq> 0 \<and> writeCallback c then [WriteCallback] else [])"

text \<open>\<^verbatim>\<open>handleEvents\<close>; \<open>owner_alive\<close> tells whether \<^verbatim>\<open>tie_.lock()\<close> succeeds.\<close>

definition handleEvents :: "bool \<Rightarrow> Channel \<Rightarrow> chan_call list" where
  "handleEvents owner_alive c = (if tied c then if owner_alive then handleEventsGuarded c else [] else handleEventsGuarded c)"

text \<open>The changes of interest, before \<^verbatim>\<open>update()\<close> passes the channel to the poller.\<close>

datatype interest_op = EnableRead | DisableRead | EnableWrite | DisableWrite | EnableError | DisableError | DisableAll

fun change_events :: "interest_op \<Rightarrow> int \<Rightarrow> int" where
  "change_events EnableRead ev = ev OR IO_READ"
| "change_events DisableRead ev = ev AND NOT IO_READ"
| "change_events EnableWrite ev = ev OR IO_WRITE"
| "change_events DisableWrite ev = ev AND NOT IO_WRITE"
| "change_events EnableError ev = ev OR IO_ERROR"
| "change_events DisableError ev = ev AND NOT IO_ERROR"
| "change_events DisableAll ev = IO_NONE"

section \<open>The epoll poller\<close>

definition EPOLLIN :: "32 word" where "EPOLLIN = 1"
definition EPOLLPRI :: "32 word" where "EPOLLPRI = 2"
definition EPOLLOUT :: "32 word" where "EPOLLOUT = 4"
definition EPOLLERR :: "32 word" where "EPOLLERR = 8"
definition EPOLLHUP :: "32 word" where "EPOLLHUP = 16"

definition toEpollEvents :: "int \<Rightarrow> 32 word" where
  "toEpollEvents events =
     (let ep = 0;
          ep = (if events AND IO_READ \<noteq> 0 then ep OR EPOLLIN else ep)
      in if events AND IO_WRITE \<noteq> 0 then ep OR EPOLLOUT else ep)"

definition toIOEvents :: "32 word \<Rightarrow> int" where
  "toIOEvents ep =
     (let events = IO_NONE;
          events = (if ep AND (EPOLLERR OR EPOLLHUP) \<noteq> 0 then events OR IO_ERROR else events);
          events = (if ep AND (EPOLLIN OR EPOLLPRI) \<noteq> 0 then events OR IO_READ else events)
      in if ep AND EPOLLOUT \<noteq> 0 then events OR IO_WRITE else events)"

datatype ctl_op = EPOLL_CTL_ADD | EPOLL_CTL_MOD | EPOLL_CTL_DEL

record ctl_call =
  ctl_op :: ctl_op
  ctl_fd :: int
  ctl_events :: "32 word"
  ctl_ptr :: chan_addr

record EPollPoller =
  ep_channels :: "int \<Rightarrow> chan_addr option"
  ep_calls :: "ctl_call list"
  ep_events :: nat

definition EPollPoller_new :: EPollPoller where
  "EPollPoller_new = \<lparr>ep_channels = (\<lambda>_. None), ep_calls = [], ep_events = 64\<rparr>"

definition ep_update :: "ctl_op \<Rightarrow> chan_addr \<Rightarrow> Channel \<Rightarrow> EPollPoller \<Rightarrow> EPollPoller" where
  "ep_update op a c p =
     p\<lparr>ep_calls := ep_calls p @ [\<lparr>ctl_op = op, ctl_fd = ch_fd c, ctl_events = toEpollEvents (ch_events c), ctl_ptr = a\<rparr>]\<rparr>"

definition ep_updateChannel :: "chan_addr \<Rightarrow> Channel \<Rightarrow> EPollPoller \<Rightarrow> EPollPoller" where
  "ep_updateChannel a c p =
     (if ep_channels p (ch_fd c) = None
      then ep_update EPOLL_CTL_ADD a c (p\<lparr>ep_channels := (ep_channels p)(ch_fd c \<mapsto> a)\<rparr>)
      else ep_update EPOLL_CTL_MOD a c p)"

definition ep_removeChannel :: "chan_addr \<Rightarrow> Channel \<Rightarrow> EPollPoller \<Rightarrow> EPollPoller" where
  "ep_removeChannel a c p =
     (if ep_channels p (ch_fd c) \<noteq> None
      then ep_update EPOLL_CTL_DEL a c (p\<lparr>ep_channels := (ep_channels p)(ch_fd c := None)\<rparr>)
      else p)"

text \<open>
  \<^verbatim>\<open>poll\<close>: the result of \<^verbatim>\<open>epoll_wait\<close> is a parameter, \<open>None\<close> for an error, otherwise at most \<^verbatim>\<open>events_.size()\<close>
  pairs of a channel and its event flags. The result lists the active channels with the events set on them.
\<close>

definition ep_poll :: "(chan_addr \<times> 32 word) list option \<Rightarrow> (chan_addr \<Rightarrow> Channel) \<Rightarrow> EPollPoller \<Rightarrow>
    chan_addr list \<times> (chan_addr \<Rightarrow> Channel) \<times> EPollPoller" where
  "ep_poll result chans p =
     (case result of
        None \<Rightarrow> ([], chans, p)
      | Some evs \<Rightarrow>
          (map fst evs,
           fold (\<lambda>(a, ep) st. st(a := (st a)\<lparr>ch_revents := toIOEvents ep\<rparr>)) evs chans,
           if length evs = ep_events p then p\<lparr>ep_events := ep_events p * 2\<rparr> else p))"

section \<open>The kqueue poller\<close>

datatype kfilter = EVFILT_READ | EVFILT_WRITE

text \<open>A change passed to \<^verbatim>\<open>kevent\<close>: add with the channel as user data, or delete.\<close>

datatype kchange = KAdd kfilter int chan_addr | KDelete kfilter int

text \<open>One call of \<^verbatim>\<open>kevent\<close> with a list of changes and no room for results.\<close>

record KQueuePoller =
  kq_channels :: "int \<Rightarrow> chan_addr option"
  kq_calls :: "kchange list list"
  registeredEvents :: "int \<Rightarrow> int"

definition KQueuePoller_new :: KQueuePoller where
  "KQueuePoller_new = \<lparr>kq_channels = (\<lambda>_. None), kq_calls = [], registeredEvents = (\<lambda>_. 0)\<rparr>"

definition kq_filter_calls :: "kfilter \<Rightarrow> int \<Rightarrow> int \<Rightarrow> chan_addr \<Rightarrow> int \<Rightarrow> int \<Rightarrow> kchange list list" where
  "kq_filter_calls f flag fd a ev reg_ev =
     (if ev AND flag \<noteq> 0 then [[KAdd f fd a]] else if reg_ev AND flag \<noteq> 0 then [[KDelete f fd]] else [])"

definition kq_updateChannel :: "chan_addr \<Rightarrow> Channel \<Rightarrow> KQueuePoller \<Rightarrow> KQueuePoller" where
  "kq_updateChannel a c p =
     (let fd = ch_fd c; ev = ch_events c; reg_ev = registeredEvents p fd
      in p\<lparr>kq_calls := kq_calls p @ kq_filter_calls EVFILT_READ IO_READ fd a ev reg_ev
                       @ kq_filter_calls EVFILT_WRITE IO_WRITE fd a ev reg_ev,
           kq_channels := (kq_channels p)(fd \<mapsto> a),
           registeredEvents := (registeredEvents p)(fd := ev)\<rparr>)"

definition kq_removeChannel :: "chan_addr \<Rightarrow> Channel \<Rightarrow> KQueuePoller \<Rightarrow> KQueuePoller" where
  "kq_removeChannel a c p =
     p\<lparr>kq_calls := kq_calls p @ [[KDelete EVFILT_READ (ch_fd c), KDelete EVFILT_WRITE (ch_fd c)]],
       kq_channels := (kq_channels p)(ch_fd c := None),
       registeredEvents := (registeredEvents p)(ch_fd c := 0)\<rparr>"

text \<open>An event reported by \<^verbatim>\<open>kevent\<close>: filter, error flag and user data.\<close>

record kevent =
  kfilter :: kfilter
  kerror :: bool
  udata :: "chan_addr option"

definition kevent_revents :: "kevent \<Rightarrow> int" where
  "kevent_revents e =
     (let rev = IO_NONE;
          rev = (if kfilter e = EVFILT_READ then IO_READ else rev);
          rev = (if kfilter e = EVFILT_WRITE then IO_WRITE else rev)
      in if kerror e then rev OR IO_ERROR else rev)"

fun kq_poll :: "kevent list \<Rightarrow> (chan_addr \<Rightarrow> Channel) \<Rightarrow> chan_addr list \<times> (chan_addr \<Rightarrow> Channel)" where
  "kq_poll [] chans = ([], chans)"
| "kq_poll (e # es) chans =
     (case udata e of
        None \<Rightarrow> kq_poll es chans
      | Some a \<Rightarrow>
          (let (active, chans') = kq_poll es (chans(a := (chans a)\<lparr>ch_revents := kevent_revents e\<rparr>))
           in (a # active, chans')))"

text \<open>The timeout passed on: seconds and nanoseconds with the truncating division of C++.\<close>

definition kq_timeout :: "int \<Rightarrow> int \<times> int" where
  "kq_timeout timeout_ms =
     (let q = sgn timeout_ms * (\<bar>timeout_ms\<bar> div 1000); r = sgn timeout_ms * (\<bar>timeout_ms\<bar> mod 1000) in (q, r * 1000000))"

section \<open>What the kernel watches\<close>

text \<open>
  The interest list after a sequence of \<^verbatim>\<open>epoll_ctl\<close> calls: an add of a present descriptor and a change or removal
  of an absent one are errors without effect.
\<close>

definition ctl_accepted :: "ctl_call \<Rightarrow> (int \<Rightarrow> (32 word \<times> chan_addr) option) \<Rightarrow> bool" where
  "ctl_accepted k I = ((ctl_op k = EPOLL_CTL_ADD) = (I (ctl_fd k) = None))"

definition apply_ctl :: "ctl_call \<Rightarrow> (int \<Rightarrow> (32 word \<times> chan_addr) option) \<Rightarrow> int \<Rightarrow> (32 word \<times> chan_addr) option" where
  "apply_ctl k I =
     (if \<not> ctl_accepted k I then I
      else I(ctl_fd k := (if ctl_op k = EPOLL_CTL_DEL then None else Some (ctl_events k, ctl_ptr k))))"

definition epoll_interest :: "ctl_call list \<Rightarrow> int \<Rightarrow> (32 word \<times> chan_addr) option" where
  "epoll_interest ks = fold apply_ctl ks (\<lambda>_. None)"

text \<open>The filters after a sequence of \<^verbatim>\<open>kevent\<close> calls: each call makes its changes in order up to the first error.\<close>

fun apply_changes :: "kchange list \<Rightarrow> (kfilter \<times> int \<Rightarrow> chan_addr option) \<Rightarrow> kfilter \<times> int \<Rightarrow> chan_addr option" where
  "apply_changes [] F = F"
| "apply_changes (KAdd f fd a # cs) F = apply_changes cs (F((f, fd) \<mapsto> a))"
| "apply_changes (KDelete f fd # cs) F = (if F (f, fd) = None then F else apply_changes cs (F((f, fd) := None)))"

definition kqueue_filters :: "kchange list list \<Rightarrow> kfilter \<times> int \<Rightarrow> chan_addr option" where
  "kqueue_filters calls = fold apply_changes calls (\<lambda>_. None)"

lemma epoll_interest_snoc: "epoll_interest (ks @ [k]) = apply_ctl k (epoll_interest ks)"
  by (simp add: epoll_interest_def)

lemma kqueue_filters_append: "kqueue_filters (xs @ ys) = fold apply_changes ys (kqueue_filters xs)"
  by (simp add: kqueue_filters_def)

section \<open>The poller interface\<close>

text \<open>
  The operations a channel calls, and for each descriptor which channel the kernel reports readability and
  writability to. A channel is removed only after \<^verbatim>\<open>disableAll\<close>, as every caller in the library does.
\<close>

locale poller =
  fixes update remove :: "chan_addr \<Rightarrow> Channel \<Rightarrow> 's \<Rightarrow> 's"
    and watches :: "'s \<Rightarrow> int \<Rightarrow> chan_addr option \<times> chan_addr option"
    and ok :: "'s \<Rightarrow> bool"
  assumes ok_update: "ok s \<Longrightarrow> ok (update a c s)"
    and ok_remove: "ok s \<Longrightarrow> watches s (ch_fd c) = (None, None) \<Longrightarrow> ok (remove a c s)"
    and watches_update: "ok s \<Longrightarrow>
      watches (update a c s) = (watches s)(ch_fd c := (if isReading c then Some a else None, if isWriting c then Some a else None))"
    and watches_remove: "ok s \<Longrightarrow> watches s (ch_fd c) = (None, None) \<Longrightarrow> watches (remove a c s) = watches s"

text \<open>Operations on a set of channels at addresses: a change of interest, which calls \<^verbatim>\<open>update\<close>, or a removal after \<^verbatim>\<open>disableAll\<close>.\<close>

datatype chan_op = Change chan_addr interest_op | Remove chan_addr

definition change_interest ::
  "(chan_addr \<Rightarrow> Channel \<Rightarrow> 's \<Rightarrow> 's) \<Rightarrow> chan_addr \<Rightarrow> interest_op \<Rightarrow> (chan_addr \<Rightarrow> Channel) \<times> 's \<Rightarrow> (chan_addr \<Rightarrow> Channel) \<times> 's" where
  "change_interest update a op st =
     (let c = (fst st a)\<lparr>ch_events := change_events op (ch_events (fst st a))\<rparr>
      in ((fst st)(a := c), update a c (snd st)))"

definition chan_remove ::
  "(chan_addr \<Rightarrow> Channel \<Rightarrow> 's \<Rightarrow> 's) \<Rightarrow> chan_addr \<Rightarrow> (chan_addr \<Rightarrow> Channel) \<times> 's \<Rightarrow> (chan_addr \<Rightarrow> Channel) \<times> 's" where
  "chan_remove remove a st = (fst st, remove a (fst st a) (snd st))"

fun chan_exec ::
  "(chan_addr \<Rightarrow> Channel \<Rightarrow> 's \<Rightarrow> 's) \<Rightarrow> (chan_addr \<Rightarrow> Channel \<Rightarrow> 's \<Rightarrow> 's) \<Rightarrow> chan_op \<Rightarrow>
   (chan_addr \<Rightarrow> Channel) \<times> 's \<Rightarrow> (chan_addr \<Rightarrow> Channel) \<times> 's" where
  "chan_exec update remove (Change a op) st = change_interest update a op st"
| "chan_exec update remove (Remove a) st =
     chan_remove remove a (change_interest update a DisableAll st)"

definition wanted :: "chan_addr \<Rightarrow> Channel \<Rightarrow> chan_addr option \<times> chan_addr option" where
  "wanted a c = (if isReading c then Some a else None, if isWriting c then Some a else None)"

definition in_sync :: "('s \<Rightarrow> int \<Rightarrow> chan_addr option \<times> chan_addr option) \<Rightarrow> (chan_addr \<Rightarrow> Channel) \<times> 's \<Rightarrow> bool" where
  "in_sync watches st = (\<forall>a. watches (snd st) (ch_fd (fst st a)) = wanted a (fst st a))"

lemma wanted_none [simp]: "ch_events c = IO_NONE \<Longrightarrow> wanted a c = (None, None)"
  by (simp add: wanted_def isReading_def isWriting_def IO_NONE_def)

context poller
begin

lemma sync_change:
  assumes "ok (snd st)" "inj (\<lambda>a. ch_fd (fst st a))" "in_sync watches st"
  shows "ok (snd (change_interest update a op st)) \<and> inj (\<lambda>b. ch_fd (fst (change_interest update a op st) b)) \<and>
         in_sync watches (change_interest update a op st)"
proof -
  have "ch_fd (fst (change_interest update a op st) b) = ch_fd (fst st b)" for b
    by (simp add: change_interest_def Let_def)
  moreover have "ch_fd (fst st b) = ch_fd (fst st a) \<Longrightarrow> b = a" for b using assms(2) by (auto dest: injD)
  ultimately show ?thesis using assms
    by (auto simp: change_interest_def Let_def in_sync_def ok_update watches_update wanted_def)
qed

lemma sync_exec:
  assumes "ok (snd st)" "inj (\<lambda>a. ch_fd (fst st a))" "in_sync watches st"
  shows "ok (snd (chan_exec update remove op st)) \<and> inj (\<lambda>b. ch_fd (fst (chan_exec update remove op st) b)) \<and>
         in_sync watches (chan_exec update remove op st)"
proof (cases op)
  case (Change a io)
  then show ?thesis using sync_change [OF assms] by simp
next
  case (Remove a)
  define st1 where "st1 = change_interest update a DisableAll st"
  have 1: "ok (snd st1)" "inj (\<lambda>b. ch_fd (fst st1 b))" "in_sync watches st1"
    using sync_change [OF assms] by (simp_all add: st1_def)
  have "ch_events (fst st1 a) = IO_NONE" by (simp add: st1_def change_interest_def Let_def)
  then have "watches (snd st1) (ch_fd (fst st1 a)) = (None, None)" using 1(3) by (simp add: in_sync_def)
  then show ?thesis using 1 Remove by (simp add: chan_remove_def in_sync_def ok_remove watches_remove flip: st1_def)
qed

lemma sync_run:
  assumes "ok (snd st)" "inj (\<lambda>a. ch_fd (fst st a))" "in_sync watches st"
  shows "in_sync watches (fold (chan_exec update remove) ops st) \<and> ok (snd (fold (chan_exec update remove) ops st))"
  using assms by (induction ops arbitrary: st) (simp_all add: sync_exec)

end

text \<open>The view of each poller on what the kernel watches.\<close>

definition ep_watches :: "EPollPoller \<Rightarrow> int \<Rightarrow> chan_addr option \<times> chan_addr option" where
  "ep_watches p fd =
     (case epoll_interest (ep_calls p) fd of
        None \<Rightarrow> (None, None)
      | Some (ev, a) \<Rightarrow> (if ev AND EPOLLIN \<noteq> 0 then Some a else None, if ev AND EPOLLOUT \<noteq> 0 then Some a else None))"

text \<open>The poller's table has exactly the descriptors of the interest list, and no call was an error.\<close>

fun all_accepted :: "ctl_call list \<Rightarrow> (int \<Rightarrow> (32 word \<times> chan_addr) option) \<Rightarrow> bool" where
  "all_accepted [] I = True"
| "all_accepted (k # ks) I = (ctl_accepted k I \<and> all_accepted ks (apply_ctl k I))"

definition ep_ok :: "EPollPoller \<Rightarrow> bool" where
  "ep_ok p =
     ((\<forall>fd. (ep_channels p fd = None) = (epoll_interest (ep_calls p) fd = None)) \<and> all_accepted (ep_calls p) (\<lambda>_. None))"

lemma all_accepted_snoc: "all_accepted (ks @ [k]) I = (all_accepted ks I \<and> ctl_accepted k (fold apply_ctl ks I))"
  by (induction ks arbitrary: I) auto

lemma toEpollEvents_bits:
  "(toEpollEvents ev AND EPOLLIN \<noteq> 0) = (ev AND IO_READ \<noteq> 0)"
  "(toEpollEvents ev AND EPOLLOUT \<noteq> 0) = (ev AND IO_WRITE \<noteq> 0)"
  by (simp_all add: toEpollEvents_def Let_def EPOLLIN_def EPOLLOUT_def)

interpretation epl: poller ep_updateChannel ep_removeChannel ep_watches ep_ok
proof
  fix s a c
  assume ok: "ep_ok s"
  then have none: "(ep_channels s fd = None) = (epoll_interest (ep_calls s) fd = None)" for fd by (simp add: ep_ok_def)
  have acc: "all_accepted (ep_calls s) (\<lambda>_. None)" using ok by (simp add: ep_ok_def)
  show "ep_ok (ep_updateChannel a c s)" using none acc
    by (auto simp: ep_ok_def ep_updateChannel_def ep_update_def epoll_interest_snoc all_accepted_snoc
        apply_ctl_def ctl_accepted_def epoll_interest_def [symmetric])
  show "ep_watches s (ch_fd c) = (None, None) \<Longrightarrow> ep_ok (ep_removeChannel a c s)" using none acc
    by (auto simp: ep_ok_def ep_removeChannel_def ep_update_def epoll_interest_snoc all_accepted_snoc
        apply_ctl_def ctl_accepted_def epoll_interest_def [symmetric])
  show "ep_watches (ep_updateChannel a c s) =
      (ep_watches s)(ch_fd c := (if isReading c then Some a else None, if isWriting c then Some a else None))"
    using none by (auto simp: fun_eq_iff ep_watches_def ep_updateChannel_def ep_update_def epoll_interest_snoc
        apply_ctl_def ctl_accepted_def toEpollEvents_bits isReading_def isWriting_def)
  show "ep_watches s (ch_fd c) = (None, None) \<Longrightarrow> ep_watches (ep_removeChannel a c s) = ep_watches s"
    using none by (auto simp: fun_eq_iff ep_watches_def ep_removeChannel_def ep_update_def epoll_interest_snoc
        apply_ctl_def ctl_accepted_def)
qed

definition kq_watches :: "KQueuePoller \<Rightarrow> int \<Rightarrow> chan_addr option \<times> chan_addr option" where
  "kq_watches p fd = (kqueue_filters (kq_calls p) (EVFILT_READ, fd), kqueue_filters (kq_calls p) (EVFILT_WRITE, fd))"

definition kq_ok :: "KQueuePoller \<Rightarrow> bool" where
  "kq_ok p =
     (\<forall>fd. (registeredEvents p fd AND IO_READ \<noteq> 0) = (kqueue_filters (kq_calls p) (EVFILT_READ, fd) \<noteq> None) \<and>
           (registeredEvents p fd AND IO_WRITE \<noteq> 0) = (kqueue_filters (kq_calls p) (EVFILT_WRITE, fd) \<noteq> None))"

text \<open>The calls for one filter leave that filter as the events ask for and the others alone.\<close>

lemma filter_calls_effect:
  assumes "(reg_ev AND flag \<noteq> 0) = (F (f, fd) \<noteq> None)"
  shows "fold apply_changes (kq_filter_calls f flag fd a ev reg_ev) F = F((f, fd) := (if ev AND flag \<noteq> 0 then Some a else None))"
  using assms by (auto simp: kq_filter_calls_def fun_eq_iff)

lemma kq_update_filters:
  assumes "kq_ok p"
  shows "kqueue_filters (kq_calls (kq_updateChannel a c p)) =
    (kqueue_filters (kq_calls p))((EVFILT_READ, ch_fd c) := (if isReading c then Some a else None),
      (EVFILT_WRITE, ch_fd c) := (if isWriting c then Some a else None))"
proof -
  let ?F = "kqueue_filters (kq_calls p)" and ?reg = "registeredEvents p (ch_fd c)"
  have r: "(?reg AND IO_READ \<noteq> 0) = (?F (EVFILT_READ, ch_fd c) \<noteq> None)"
    and w: "(?reg AND IO_WRITE \<noteq> 0) = (?F (EVFILT_WRITE, ch_fd c) \<noteq> None)" using assms by (auto simp: kq_ok_def)
  let ?G = "?F((EVFILT_READ, ch_fd c) := (if isReading c then Some a else None))"
  have "fold apply_changes (kq_filter_calls EVFILT_READ IO_READ (ch_fd c) a (ch_events c) ?reg) ?F = ?G"
    using filter_calls_effect [of ?reg IO_READ ?F EVFILT_READ "ch_fd c"] r by (simp add: isReading_def)
  moreover have "(?reg AND IO_WRITE \<noteq> 0) = (?G (EVFILT_WRITE, ch_fd c) \<noteq> None)" using w by simp
  then have "fold apply_changes (kq_filter_calls EVFILT_WRITE IO_WRITE (ch_fd c) a (ch_events c) ?reg) ?G =
      ?G((EVFILT_WRITE, ch_fd c) := (if isWriting c then Some a else None))"
    using filter_calls_effect [of ?reg IO_WRITE ?G EVFILT_WRITE "ch_fd c"] by (simp add: isWriting_def)
  ultimately show ?thesis by (simp add: kq_updateChannel_def Let_def kqueue_filters_append)
qed

lemma kq_remove_filters:
  "kq_watches p (ch_fd c) = (None, None) \<Longrightarrow>
   kqueue_filters (kq_calls (kq_removeChannel a c p)) = kqueue_filters (kq_calls p)"
  by (simp add: kq_watches_def kq_removeChannel_def kqueue_filters_append)

interpretation kqp: poller kq_updateChannel kq_removeChannel kq_watches kq_ok
proof
  fix s a c
  assume ok: "kq_ok s"
  show "kq_ok (kq_updateChannel a c s)" using ok unfolding kq_ok_def kq_update_filters [OF ok]
    by (simp add: kq_updateChannel_def Let_def isReading_def isWriting_def)
  show "kq_watches (kq_updateChannel a c s) =
      (kq_watches s)(ch_fd c := (if isReading c then Some a else None, if isWriting c then Some a else None))"
    by (simp add: fun_eq_iff kq_watches_def kq_update_filters [OF ok])
  assume none: "kq_watches s (ch_fd c) = (None, None)"
  show "kq_ok (kq_removeChannel a c s)" using ok none unfolding kq_ok_def kq_remove_filters [OF none]
    by (simp add: kq_removeChannel_def kq_watches_def)
  show "kq_watches (kq_removeChannel a c s) = kq_watches s"
    by (simp add: fun_eq_iff kq_watches_def kq_remove_filters [OF none])
qed

lemma new_ok: "ep_ok EPollPoller_new" "kq_ok KQueuePoller_new"
  by (simp_all add: ep_ok_def EPollPoller_new_def epoll_interest_def kq_ok_def KQueuePoller_new_def kqueue_filters_def)

section \<open>Properties\<close>

definition ep_run :: "chan_op list \<Rightarrow> (chan_addr \<Rightarrow> Channel) \<Rightarrow> (chan_addr \<Rightarrow> Channel) \<times> EPollPoller" where
  "ep_run ops chans = fold (chan_exec ep_updateChannel ep_removeChannel) ops (chans, EPollPoller_new)"

definition kq_run :: "chan_op list \<Rightarrow> (chan_addr \<Rightarrow> Channel) \<Rightarrow> (chan_addr \<Rightarrow> Channel) \<times> KQueuePoller" where
  "kq_run ops chans = fold (chan_exec kq_updateChannel kq_removeChannel) ops (chans, KQueuePoller_new)"

lemma new_in_sync:
  assumes "\<forall>a. ch_events (chans a) = IO_NONE"
  shows "in_sync ep_watches (chans, EPollPoller_new)" "in_sync kq_watches (chans, KQueuePoller_new)"
  using assms by (simp_all add: in_sync_def ep_watches_def EPollPoller_new_def epoll_interest_def
      kq_watches_def KQueuePoller_new_def kqueue_filters_def)



text \<open>
  one descriptor ready both ways. Epoll reports it once and the channel runs its read and then its write
  callback; kqueue reports one event per filter, the second overwrites the events the first set on the
  channel, and the dispatch that follows runs the write callback twice and the read callback not at all.
\<close>

theorem kqueue_loses_read_event:
  assumes "readCallback (chans a)" "writeCallback (chans a)" "owner_alive \<or> \<not> tied (chans a)"
  shows "(case ep_poll (Some [(a, EPOLLIN OR EPOLLOUT)]) chans p of
            (active, chans', _) \<Rightarrow> concat (map (\<lambda>b. handleEvents owner_alive (chans' b)) active)) = [ReadCallback, WriteCallback] \<and>
         (case kq_poll [\<lparr>kfilter = EVFILT_READ, kerror = False, udata = Some a\<rparr>,
                        \<lparr>kfilter = EVFILT_WRITE, kerror = False, udata = Some a\<rparr>] chans of
            (active, chans') \<Rightarrow> concat (map (\<lambda>b. handleEvents owner_alive (chans' b)) active)) = [WriteCallback, WriteCallback]"
  using assms by (auto simp: ep_poll_def handleEvents_def handleEventsGuarded_def toIOEvents_def kevent_revents_def Let_def
      IO_NONE_def IO_READ_def IO_WRITE_def IO_ERROR_def EPOLLIN_def EPOLLOUT_def EPOLLPRI_def EPOLLERR_def EPOLLHUP_def)

theorem kqueue_loses_read_event_witness:
  "(case kq_poll [\<lparr>kfilter = EVFILT_READ, kerror = False, udata = Some 0\<rparr>, \<lparr>kfilter = EVFILT_WRITE, kerror = False, udata = Some 0\<rparr>]
         (\<lambda>a. (Channel_new (int a))\<lparr>readCallback := True, writeCallback := True\<rparr>) of
      (active, chans') \<Rightarrow> concat (map (\<lambda>b. handleEvents True (chans' b)) active)) = [WriteCallback, WriteCallback]"
  using kqueue_loses_read_event [of "\<lambda>a. (Channel_new (int a))\<lparr>readCallback := True, writeCallback := True\<rparr>" 0 True EPollPoller_new]
  by simp

text \<open>The unbounded timeout of the debug build is not a valid timeout for \<^verbatim>\<open>kevent\<close>: its nanoseconds are negative.\<close>

lemma kq_timeout_unbounded: "kq_timeout (- 1) = (0, - 1000000)"
  by (simp add: kq_timeout_def)

end
