(* ===== verification/Reactor_Loop.thy ===== *)
theory Reactor_Loop
  imports Reactor_Timer Reactor_Channel
begin

text \<open>
  The event loop, \<^verbatim>\<open>reactor/event_loop.h\<close> and \<^verbatim>\<open>reactor/event_loop.cc\<close>, and the round-robin pool of loops,
  \<^verbatim>\<open>reactor/event_loop_thread_pool.cc\<close>. The loop thread and any number of other threads interleave: one step is one
  critical section, one access to an atomic, or one call made by a handler or task. The theory shows that
  tasks run exactly once and in the order they were queued, that a wake-up from another thread is never
  lost, and that the wake-up of a task queued by another pending task is.
\<close>

section \<open>Tasks\<close>

text \<open>
  A task is one the user wrote, known by a number, or one the loop made to carry a timer operation into
  its thread. What a user's task or a channel's handler does to the loop is a sequence of calls.
\<close>

datatype task = User nat | AddTimerTask tq_call | CancelTask TimerId

datatype act =
    QueueInLoop task
  | RunInLoop task
  | RunTimer tq_call
  | CancelTimer TimerId
  | RemoveChannel chan_addr
  | HandleWakeup
  | QuitLoop
  | Throw

text \<open>Pending tasks carry a mark, used only in statements, whether another thread queued them.\<close>

record EventLoop =
  quit :: bool
  wakeup_fd :: int
  wakeup_count :: nat
  pending_tasks :: "(task \<times> bool) list"
  processing_channel :: "chan_addr option"
  iterations :: nat
  timer_calls :: "tq_call list"
  removed_channels :: "chan_addr list"

definition EventLoop_new :: "int \<Rightarrow> EventLoop" where
  "EventLoop_new fd = \<lparr>quit = False, wakeup_fd = fd, wakeup_count = 0, pending_tasks = [], processing_channel = None,
     iterations = 0, timer_calls = [], removed_channels = []\<rparr>"

section \<open>Operations\<close>

text \<open>\<^verbatim>\<open>write\<close> and \<^verbatim>\<open>read\<close> on the eventfd add to its counter and reset it.\<close>

definition wakeup :: "EventLoop \<Rightarrow> EventLoop" where
  "wakeup el = (if wakeup_fd el < 0 then el else el\<lparr>wakeup_count := wakeup_count el + 1\<rparr>)"

definition handleWakeup :: "EventLoop \<Rightarrow> EventLoop" where
  "handleWakeup el = el\<lparr>wakeup_count := 0\<rparr>"

definition enqueue :: "bool \<Rightarrow> task \<Rightarrow> EventLoop \<Rightarrow> EventLoop" where
  "enqueue in_loop t el = el\<lparr>pending_tasks := pending_tasks el @ [(t, \<not> in_loop)]\<rparr>"

definition needs_wakeup :: "bool \<Rightarrow> EventLoop \<Rightarrow> bool" where
  "needs_wakeup in_loop el = (\<not> in_loop \<or> processing_channel el \<noteq> None)"

definition wakeup_if_needed :: "bool \<Rightarrow> EventLoop \<Rightarrow> EventLoop" where
  "wakeup_if_needed in_loop el = (if needs_wakeup in_loop el then wakeup el else el)"

definition queueInLoop :: "bool \<Rightarrow> task \<Rightarrow> EventLoop \<Rightarrow> EventLoop" where
  "queueInLoop in_loop t el = wakeup_if_needed in_loop (enqueue in_loop t el)"

text \<open>\<^verbatim>\<open>runAt\<close>, \<^verbatim>\<open>runAfter\<close>, \<^verbatim>\<open>runEvery\<close> and \<^verbatim>\<open>cancel\<close>: directly on the queue in the loop thread, otherwise as a task.
  The result tells whether a usable handle is returned.\<close>

definition add_timer :: "bool \<Rightarrow> tq_call \<Rightarrow> EventLoop \<Rightarrow> bool \<times> EventLoop" where
  "add_timer in_loop call el =
     (if in_loop then (True, el\<lparr>timer_calls := timer_calls el @ [call]\<rparr>)
      else (False, queueInLoop False (AddTimerTask call) el))"

definition runAt :: "bool \<Rightarrow> addr \<Rightarrow> timestamp \<Rightarrow> callback \<Rightarrow> EventLoop \<Rightarrow> bool \<times> EventLoop" where
  "runAt in_loop a at cb el = add_timer in_loop (TqAdd a cb at 0) el"

definition runAfter :: "bool \<Rightarrow> addr \<Rightarrow> timestamp \<Rightarrow> 64 word \<Rightarrow> callback \<Rightarrow> EventLoop \<Rightarrow> bool \<times> EventLoop" where
  "runAfter in_loop a now delay_ms cb el = runAt in_loop a (addMilliseconds now delay_ms) cb el"

definition runEvery :: "bool \<Rightarrow> addr \<Rightarrow> timestamp \<Rightarrow> 64 word \<Rightarrow> callback \<Rightarrow> EventLoop \<Rightarrow> bool \<times> EventLoop" where
  "runEvery in_loop a now every_ms cb el =
     add_timer in_loop (TqAdd a cb (addMilliseconds now every_ms) every_ms) el"

definition el_cancel :: "bool \<Rightarrow> TimerId \<Rightarrow> EventLoop \<Rightarrow> EventLoop" where
  "el_cancel in_loop tid el =
     (if in_loop then el\<lparr>timer_calls := timer_calls el @ [TqCancel tid]\<rparr> else queueInLoop False (CancelTask tid) el)"

text \<open>\<^verbatim>\<open>removeChannel\<close> and \<^verbatim>\<open>updateChannel\<close> throw outside the loop thread.\<close>

definition assertInLoopThread :: "bool \<Rightarrow> unit option" where
  "assertInLoopThread in_loop = (if in_loop then Some () else None)"

definition el_removeChannel :: "bool \<Rightarrow> chan_addr option \<Rightarrow> EventLoop \<Rightarrow> EventLoop option" where
  "el_removeChannel in_loop c el =
     (case assertInLoopThread in_loop of
        None \<Rightarrow> None
      | Some _ \<Rightarrow>
          (case c of
             None \<Rightarrow> Some el
           | Some a \<Rightarrow>
               (let el1 = (if processing_channel el = Some a then el\<lparr>processing_channel := None\<rparr> else el)
                in Some (el1\<lparr>removed_channels := removed_channels el1 @ [a]\<rparr>))))"

definition set_quit :: "EventLoop \<Rightarrow> EventLoop" where
  "set_quit el = el\<lparr>quit := True\<rparr>"

definition el_quit :: "bool \<Rightarrow> EventLoop \<Rightarrow> EventLoop" where
  "el_quit in_loop el = (if in_loop then set_quit el else wakeup (set_quit el))"

text \<open>The first critical section of \<^verbatim>\<open>doPendingTasks\<close>.\<close>

definition swap_pending :: "EventLoop \<Rightarrow> task list \<times> EventLoop" where
  "swap_pending el = (map fst (pending_tasks el), el\<lparr>pending_tasks := []\<rparr>)"

text \<open>The destructor's last part: the descriptor is invalidated under the lock.\<close>

definition EventLoop_destroy :: "EventLoop \<Rightarrow> EventLoop option" where
  "EventLoop_destroy el = (if quit el then Some (el\<lparr>wakeup_fd := - 1\<rparr>) else None)"

section \<open>The loop thread and the others\<close>

text \<open>
  Where the loop thread is: at the loop condition, blocked in \<^verbatim>\<open>poll\<close>, dispatching the rest of a handler's calls
  and further active channels, running the rest of a task's calls and further tasks of the batch,
  out of the loop, or unwound by an exception from a handler.
\<close>

datatype phase =
    Checking
  | Polling
  | Dispatching "act list" "(chan_addr \<times> act list) list"
  | Draining "act list" "task list"
  | Ended
  | Unwound

text \<open>
  The system: the loop, the phase of its thread, the number of other threads inside \<^verbatim>\<open>queueInLoop\<close> or \<^verbatim>\<open>quit\<close> that
  have still to write the eventfd, and the tasks queued and started so far, in order.
\<close>

record sys =
  the_loop :: EventLoop
  phase :: phase
  entering :: nat
  quitting :: nat
  queued :: "task list"
  started :: "task list"

definition sys_new :: "int \<Rightarrow> sys" where
  "sys_new fd = \<lparr>the_loop = EventLoop_new fd, phase = Checking, entering = 0, quitting = 0, queued = [], started = []\<rparr>"

text \<open>The calls a task makes; \<open>beh\<close> tells those of the user's tasks.\<close>

fun task_acts :: "(nat \<Rightarrow> act list) \<Rightarrow> task \<Rightarrow> act list" where
  "task_acts beh (User n) = beh n"
| "task_acts beh (AddTimerTask call) = [RunTimer call]"
| "task_acts beh (CancelTask tid) = [CancelTimer tid]"

text \<open>
  One call made on the loop thread. The result holds the calls still to make, \<open>None\<close> when an exception leaves
  the handler or task. \<^verbatim>\<open>runInLoop\<close> runs its task at once.
\<close>

fun run_act :: "(nat \<Rightarrow> act list) \<Rightarrow> act \<Rightarrow> act list \<Rightarrow> sys \<Rightarrow> act list option \<times> sys" where
  "run_act beh (QueueInLoop t) more_acts s =
     (Some more_acts, s\<lparr>the_loop := queueInLoop True t (the_loop s), queued := queued s @ [t]\<rparr>)"
| "run_act beh (RunInLoop t) more_acts s = (Some (task_acts beh t @ more_acts), s)"
| "run_act beh (RunTimer call) more_acts s = (Some more_acts, s\<lparr>the_loop := snd (add_timer True call (the_loop s))\<rparr>)"
| "run_act beh (CancelTimer tid) more_acts s = (Some more_acts, s\<lparr>the_loop := el_cancel True tid (the_loop s)\<rparr>)"
| "run_act beh (RemoveChannel a) more_acts s =
     (Some more_acts, s\<lparr>the_loop := the (el_removeChannel True (Some a) (the_loop s))\<rparr>)"
| "run_act beh HandleWakeup more_acts s = (Some more_acts, s\<lparr>the_loop := handleWakeup (the_loop s)\<rparr>)"
| "run_act beh QuitLoop more_acts s = (Some more_acts, s\<lparr>the_loop := el_quit True (the_loop s)\<rparr>)"
| "run_act beh Throw more_acts s = (None, s)"

text \<open>
  The next step of the loop thread in \<^verbatim>\<open>loop\<close> and \<^verbatim>\<open>doPendingTasks\<close>; \<open>active\<close> is what \<^verbatim>\<open>poll\<close> reports, with the
  calls each channel's handlers make. Exceptions of pending tasks are caught, those of handlers are not.
\<close>

fun loop_next :: "(nat \<Rightarrow> act list) \<Rightarrow> (chan_addr \<times> act list) list \<Rightarrow> phase \<Rightarrow> sys \<Rightarrow> sys" where
  "loop_next beh active Checking s = s\<lparr>phase := (if quit (the_loop s) then Ended else Polling)\<rparr>"
| "loop_next beh active Polling s =
     s\<lparr>the_loop := (the_loop s)\<lparr>iterations := iterations (the_loop s) + 1\<rparr>, phase := Dispatching [] active\<rparr>"
| "loop_next beh active (Dispatching (a # as) rest) s =
     (case run_act beh a as s of
        (None, s') \<Rightarrow> s'\<lparr>phase := Unwound\<rparr>
      | (Some as', s') \<Rightarrow> s'\<lparr>phase := Dispatching as' rest\<rparr>)"
| "loop_next beh active (Dispatching [] ((c, as) # rest)) s =
     s\<lparr>the_loop := (the_loop s)\<lparr>processing_channel := Some c\<rparr>, phase := Dispatching as rest\<rparr>"
| "loop_next beh active (Dispatching [] []) s =
     (let (tasks, el) = swap_pending ((the_loop s)\<lparr>processing_channel := None\<rparr>)
      in s\<lparr>the_loop := el, phase := Draining [] tasks\<rparr>)"
| "loop_next beh active (Draining (a # as) tasks) s =
     (case run_act beh a as s of
        (None, s') \<Rightarrow> s'\<lparr>phase := Draining [] tasks\<rparr>
      | (Some as', s') \<Rightarrow> s'\<lparr>phase := Draining as' tasks\<rparr>)"
| "loop_next beh active (Draining [] (t # tasks)) s = s\<lparr>started := started s @ [t], phase := Draining (task_acts beh t) tasks\<rparr>"
| "loop_next beh active (Draining [] []) s = s\<lparr>phase := Checking\<rparr>"
| "loop_next beh active Ended s = s"
| "loop_next beh active Unwound s = s"

text \<open>
  Steps of the system. A call of \<^verbatim>\<open>queueInLoop\<close> or \<^verbatim>\<open>quit\<close> from another thread is two steps, the change and the
  wake-up; \<^verbatim>\<open>runInLoop\<close> from another thread is \<^verbatim>\<open>queueInLoop\<close>. Only the wake-up channel's handler reads the
  eventfd, so pending tasks never do.
\<close>

inductive loop_step :: "(nat \<Rightarrow> act list) \<Rightarrow> sys \<Rightarrow> sys \<Rightarrow> bool" for beh where
  thread: "loop_step beh s (loop_next beh active (phase s) s)"
| foreign_queue: "loop_step beh s
    (s\<lparr>the_loop := enqueue False t (the_loop s), entering := entering s + 1, queued := queued s @ [t]\<rparr>)"
| foreign_quit: "loop_step beh s (s\<lparr>the_loop := set_quit (the_loop s), quitting := quitting s + 1\<rparr>)"
| foreign_wakeup: "entering s > 0 \<Longrightarrow> loop_step beh s (s\<lparr>the_loop := wakeup_if_needed False (the_loop s), entering := entering s - 1\<rparr>)"
| foreign_quit_wakeup: "quitting s > 0 \<Longrightarrow> loop_step beh s (s\<lparr>the_loop := wakeup (the_loop s), quitting := quitting s - 1\<rparr>)"

inductive loop_reachable :: "(nat \<Rightarrow> act list) \<Rightarrow> int \<Rightarrow> sys \<Rightarrow> bool" for beh fd where
  new: "loop_reachable beh fd (sys_new fd)"
| step: "\<lbrakk> loop_reachable beh fd s; loop_step beh s s' \<rbrakk> \<Longrightarrow> loop_reachable beh fd s'"

section \<open>Order of tasks\<close>

fun batch :: "phase \<Rightarrow> task list" where
  "batch (Draining _ tasks) = tasks"
| "batch _ = []"

definition in_order :: "sys \<Rightarrow> bool" where
  "in_order s = (queued s = started s @ batch (phase s) @ map fst (pending_tasks (the_loop s)))"

lemma needs_wakeup_foreign [simp]: "needs_wakeup False el"
  by (simp add: needs_wakeup_def)

lemmas loop_ops = wakeup_def handleWakeup_def enqueue_def queueInLoop_def wakeup_if_needed_def add_timer_def el_cancel_def
  el_removeChannel_def assertInLoopThread_def set_quit_def el_quit_def swap_pending_def Let_def

text \<open>A call on the loop thread keeps the phase and the tasks started, and appends the same tasks to both logs.\<close>

lemma run_act_frame:
  assumes "run_act beh a as s = (r, s')"
  shows "phase s' = phase s" "started s' = started s" "entering s' = entering s" "quitting s' = quitting s"
    "wakeup_fd (the_loop s') = wakeup_fd (the_loop s)"
    "\<exists>ts. queued s' = queued s @ ts \<and> pending_tasks (the_loop s') = pending_tasks (the_loop s) @ map (\<lambda>t. (t, False)) ts"
  using assms by (cases a; auto simp: loop_ops split: if_splits)+

lemma in_order_next:
  assumes "in_order s"
  shows "in_order (loop_next beh active (phase s) s)"
proof (cases "(beh, active, phase s, s)" rule: loop_next.cases)
  case (3 b act a as rest s')
  obtain r s1 where r: "run_act beh a as s = (r, s1)" by (cases "run_act beh a as s")
  show ?thesis using 3 r run_act_frame [OF r] assms by (cases r) (auto simp: in_order_def comp_def)
next
  case (6 b act a as tasks s')
  obtain r s1 where r: "run_act beh a as s = (r, s1)" by (cases "run_act beh a as s")
  show ?thesis using 6 r run_act_frame [OF r] assms by (cases r) (auto simp: in_order_def comp_def)
qed (use assms in \<open>auto simp: in_order_def loop_ops\<close>)

lemma in_order_step:
  assumes "loop_step beh s s'" "in_order s"
  shows "in_order s'"
  using assms(1)
proof cases
  case (thread active)
  then show ?thesis using in_order_next [OF assms(2)] by simp
qed (use assms(2) in \<open>auto simp: in_order_def loop_ops\<close>)

section \<open>Wake-ups\<close>

text \<open>The eventfd is readable, or another thread is about to make it so.\<close>

definition signalled :: "sys \<Rightarrow> bool" where
  "signalled s = (wakeup_count (the_loop s) > 0 \<or> entering s > 0 \<or> quitting s > 0)"

definition foreign_pending :: "sys \<Rightarrow> bool" where
  "foreign_pending s = (\<exists>t. (t, True) \<in> set (pending_tasks (the_loop s)))"

text \<open>\<^verbatim>\<open>handleWakeup\<close> is private: no task calls it.\<close>

definition user_tasks :: "(nat \<Rightarrow> act list) \<Rightarrow> bool" where
  "user_tasks beh = (\<forall>n. HandleWakeup \<notin> set (beh n))"

fun after_swap :: "phase \<Rightarrow> bool" where
  "after_swap Checking = True"
| "after_swap Polling = True"
| "after_swap (Draining as _) = True"
| "after_swap _ = False"

fun phase_acts :: "phase \<Rightarrow> act list" where
  "phase_acts (Draining as _) = as"
| "phase_acts _ = []"

definition wake_inv :: "sys \<Rightarrow> bool" where
  "wake_inv s =
     (0 \<le> wakeup_fd (the_loop s) \<and> HandleWakeup \<notin> set (phase_acts (phase s)) \<and>
      (after_swap (phase s) \<and> foreign_pending s \<longrightarrow> signalled s) \<and>
      (phase s = Polling \<and> quit (the_loop s) \<longrightarrow> signalled s))"

lemma task_acts_user: "user_tasks beh \<Longrightarrow> HandleWakeup \<notin> set (task_acts beh t)"
  by (cases t) (simp_all add: user_tasks_def)

text \<open>A call other than the wake-up handler's keeps the eventfd readable.\<close>

lemma run_act_signalled:
  assumes "run_act beh a as s = (r, s')" "a \<noteq> HandleWakeup"
  shows "signalled s \<Longrightarrow> signalled s'" "foreign_pending s' = foreign_pending s"
  using assms by (cases a; auto simp: signalled_def foreign_pending_def loop_ops split: if_splits)+

lemma run_act_acts:
  assumes "run_act beh a as s = (Some as', s')" "user_tasks beh" "HandleWakeup \<notin> set as"
  shows "HandleWakeup \<notin> set as'"
  using assms task_acts_user by (cases a) auto

lemma wake_inv_next:
  assumes "wake_inv s" "user_tasks beh"
  shows "wake_inv (loop_next beh active (phase s) s)"
proof (cases "(beh, active, phase s, s)" rule: loop_next.cases)
  case (3 b act a as rest s')
  obtain r s1 where r: "run_act beh a as s = (r, s1)" by (cases "run_act beh a as s")
  show ?thesis using 3 r run_act_frame(5) [OF r] assms by (cases r) (auto simp: wake_inv_def)
next
  case (6 b act a as tasks s')
  obtain r s1 where r: "run_act beh a as s = (r, s1)" by (cases "run_act beh a as s")
  have "a \<noteq> HandleWakeup" "HandleWakeup \<notin> set as" using 6 assms(1) by (auto simp: wake_inv_def)
  then show ?thesis
    using 6 r run_act_frame(5) [OF r] run_act_signalled [OF r] run_act_acts [of beh a as s _ s1] assms
    by (cases r) (auto simp: wake_inv_def signalled_def foreign_pending_def)
next
  case (7 b act t tasks s')
  then show ?thesis using assms task_acts_user by (auto simp: wake_inv_def signalled_def foreign_pending_def)
qed (use assms in \<open>auto simp: wake_inv_def signalled_def foreign_pending_def loop_ops\<close>)

lemma wake_inv_step:
  assumes "loop_step beh s s'" "user_tasks beh" "wake_inv s"
  shows "wake_inv s'"
  using assms(1)
proof cases
  case (thread active)
  then show ?thesis using wake_inv_next [OF assms(3,2)] by simp
qed (use assms(3) in \<open>auto simp: wake_inv_def signalled_def foreign_pending_def loop_ops\<close>)

lemma reachable_loop_inv:
  assumes "loop_reachable beh fd s"
  shows "in_order s" "user_tasks beh \<Longrightarrow> 0 \<le> fd \<Longrightarrow> wake_inv s"
  using assms
proof (induction rule: loop_reachable.induct)
  case new
  { case 1 show ?case by (simp add: in_order_def sys_new_def EventLoop_new_def) }
  { case 2 then show ?case by (simp add: wake_inv_def sys_new_def EventLoop_new_def foreign_pending_def) }
next
  case (step s s')
  { case 1 show ?case using in_order_step step by blast }
  { case 2 show ?case using wake_inv_step step 2 by blast }
qed

text \<open>Several steps of the loop thread in a row, with what \<^verbatim>\<open>poll\<close> reports at each.\<close>

definition thread_steps :: "(nat \<Rightarrow> act list) \<Rightarrow> (chan_addr \<times> act list) list list \<Rightarrow> sys \<Rightarrow> sys" where
  "thread_steps beh actives s = fold (\<lambda>active s. loop_next beh active (phase s) s) actives s"

lemma reachable_thread_steps:
  "loop_reachable beh fd s \<Longrightarrow> loop_reachable beh fd (thread_steps beh actives s)"
  unfolding thread_steps_def
  by (induction actives arbitrary: s) (auto intro: loop_reachable.step [OF _ loop_step.thread])

text \<open>A task queued and announced by another thread.\<close>

definition announced :: "task \<Rightarrow> sys \<Rightarrow> sys" where
  "announced t s = s\<lparr>queued := queued s @ [t], the_loop := wakeup (enqueue False t (the_loop s))\<rparr>"

lemma reachable_announced:
  assumes "loop_reachable beh fd s"
  shows "loop_reachable beh fd (announced t s)"
proof -
  let ?s1 = "s\<lparr>the_loop := enqueue False t (the_loop s), entering := entering s + 1, queued := queued s @ [t]\<rparr>"
  have "loop_reachable beh fd ?s1" using assms loop_step.foreign_queue by (rule loop_reachable.step)
  then have "loop_reachable beh fd (?s1\<lparr>the_loop := wakeup_if_needed False (the_loop ?s1), entering := entering ?s1 - 1\<rparr>)"
    by (rule loop_reachable.step) (rule loop_step.foreign_wakeup, simp)
  then show ?thesis by (simp add: announced_def wakeup_if_needed_def)
qed

text \<open>One round of the loop woken by the eventfd alone, up to the next block in \<^verbatim>\<open>poll\<close>, with \<open>k\<close> steps for the tasks.\<close>

definition woken_round :: "nat \<Rightarrow> (chan_addr \<times> act list) list list" where
  "woken_round k = [[], [(0, [HandleWakeup])], [], [], []] @ replicate k [] @ [[], []]"

section \<open>Properties of the loop\<close>

text \<open>
  C7: pending tasks run exactly once and in the order they were queued, from whatever thread, also when tasks
  queue tasks, throw, or quit the loop: at every moment the tasks queued so far are, in this order,
  the ones already started, the rest of the current batch and the ones pending.
\<close>

theorem tasks_run_in_order:
  assumes "loop_reachable beh fd s"
  shows "queued s = started s @ batch (phase s) @ map fst (pending_tasks (the_loop s))"
  using reachable_loop_inv(1) [OF assms] by (simp add: in_order_def)

theorem tasks_run_in_order_witness:
  "queued (thread_steps (\<lambda>n. [Throw]) (woken_round 4) (announced (User 2) (announced (User 1) (sys_new 5)))) = [User 1, User 2] \<and>
   started (thread_steps (\<lambda>n. [Throw]) (woken_round 4) (announced (User 2) (announced (User 1) (sys_new 5)))) = [User 1, User 2]"
  using tasks_run_in_order [OF reachable_thread_steps [OF reachable_announced [OF reachable_announced [OF loop_reachable.new]]],
      of "\<lambda>n. [Throw]" "woken_round 4" "User 2" "User 1" 5]
  by (simp add: thread_steps_def woken_round_def announced_def sys_new_def EventLoop_new_def loop_ops eval_nat_numeral)

text \<open>
  C8: a wake-up from another thread is never lost. Whenever the loop thread is blocked in \<^verbatim>\<open>poll\<close> while a task
  queued by another thread is pending, or while the loop has been told to quit, the eventfd is readable
  or the calling thread is still inside its call and about to write it.
\<close>

theorem foreign_wakeup_never_lost:
  assumes "loop_reachable beh fd s" "user_tasks beh" "0 \<le> fd" "phase s = Polling"
    and "quit (the_loop s) \<or> (\<exists>t. (t, True) \<in> set (pending_tasks (the_loop s)))"
  shows "wakeup_count (the_loop s) > 0 \<or> entering s > 0 \<or> quitting s > 0"
  using reachable_loop_inv(2) [OF assms(1-3)] assms(4,5)
  by (auto simp: wake_inv_def signalled_def foreign_pending_def)

theorem foreign_wakeup_never_lost_witness:
  "phase (announced (User 1) (thread_steps (\<lambda>n. []) [[]] (sys_new 5))) = Polling \<and>
   wakeup_count (the_loop (announced (User 1) (thread_steps (\<lambda>n. []) [[]] (sys_new 5)))) > 0"
proof -
  let ?s = "announced (User 1) (thread_steps (\<lambda>n. []) [[]] (sys_new 5))"
  have "loop_reachable (\<lambda>n. []) 5 ?s"
    by (intro reachable_announced reachable_thread_steps loop_reachable.new)
  moreover have e: "phase ?s = Polling" "(User 1, True) \<in> set (pending_tasks (the_loop ?s))" "entering ?s = 0" "quitting ?s = 0"
    by (simp_all add: announced_def thread_steps_def sys_new_def EventLoop_new_def loop_ops)
  ultimately show ?thesis using foreign_wakeup_never_lost [of "\<lambda>n. []" 5 ?s] by (auto simp: user_tasks_def)
qed

text \<open>
  The wake-up of a task queued by a pending task is lost. When a task queues another one, the loop reaches
  \<^verbatim>\<open>poll\<close> with that task pending, the eventfd not readable and no thread about to write it: the task waits
  until something unrelated happens or the poll times out.
\<close>

theorem pending_task_wakeup_lost:
  assumes "beh n = [QueueInLoop (User m)]" "0 \<le> fd"
  shows "\<exists>s. loop_reachable beh fd s \<and> phase s = Polling \<and> \<not> quit (the_loop s) \<and>
             pending_tasks (the_loop s) = [(User m, False)] \<and> wakeup_count (the_loop s) = 0 \<and> entering s = 0 \<and> quitting s = 0"
proof -
  let ?s = "thread_steps beh (woken_round 2) (announced (User n) (sys_new fd))"
  have "loop_reachable beh fd ?s" by (intro reachable_announced reachable_thread_steps loop_reachable.new)
  moreover have "phase ?s = Polling \<and> \<not> quit (the_loop ?s) \<and> pending_tasks (the_loop ?s) = [(User m, False)] \<and>
      wakeup_count (the_loop ?s) = 0 \<and> entering ?s = 0 \<and> quitting ?s = 0"
    using assms by (simp add: thread_steps_def woken_round_def announced_def sys_new_def EventLoop_new_def loop_ops
        needs_wakeup_def eval_nat_numeral)
  ultimately show ?thesis by blast
qed

theorem pending_task_wakeup_lost_witness:
  "\<exists>s. loop_reachable (\<lambda>n. if n = 0 then [QueueInLoop (User 1)] else []) 5 s \<and> phase s = Polling \<and> \<not> quit (the_loop s) \<and>
       pending_tasks (the_loop s) = [(User 1, False)] \<and> wakeup_count (the_loop s) = 0 \<and> entering s = 0 \<and> quitting s = 0"
  by (rule pending_task_wakeup_lost [of _ 0]) simp_all

section \<open>A loop in its own thread\<close>

text \<open>
  \<^verbatim>\<open>EventLoopThread\<close>: the pointer to the loop on the thread's stack, whether \<^verbatim>\<open>thread_\<close> is joinable, and how far the
  thread is. The init callback runs before the pointer is published.
\<close>

datatype thread_state = NotCreated | Initialising | InLoop | Returned

record EventLoopThread =
  loop_ptr :: "nat option"
  exiting :: bool
  joinable :: bool
  thread_state :: thread_state
  quit_requested :: bool

definition EventLoopThread_new :: EventLoopThread where
  "EventLoopThread_new = \<lparr>loop_ptr = None, exiting = False, joinable = False, thread_state = NotCreated, quit_requested = False\<rparr>"

definition startLoop_spawn :: "EventLoopThread \<Rightarrow> EventLoopThread" where
  "startLoop_spawn t = t\<lparr>joinable := True, thread_state := Initialising\<rparr>"

text \<open>\<^verbatim>\<open>startLoop\<close> returns when the pointer is published.\<close>

definition startLoop_wait :: "EventLoopThread \<Rightarrow> nat option" where
  "startLoop_wait t = loop_ptr t"

definition threadFunc_publish :: "nat \<Rightarrow> EventLoopThread \<Rightarrow> EventLoopThread" where
  "threadFunc_publish l t = t\<lparr>loop_ptr := Some l, thread_state := InLoop\<rparr>"

text \<open>The end of \<^verbatim>\<open>threadFunc\<close>, after \<^verbatim>\<open>loop()\<close> has returned because the loop was told to quit.\<close>

definition threadFunc_end :: "EventLoopThread \<Rightarrow> EventLoopThread" where
  "threadFunc_end t = t\<lparr>loop_ptr := None, thread_state := Returned\<rparr>"

text \<open>
  The destructor, ending with the destructor of \<^verbatim>\<open>thread_\<close>, which terminates the program when the thread is still
  joinable (\<open>None\<close>). The join waits for the thread to end.
\<close>

definition EventLoopThread_destroy :: "EventLoopThread \<Rightarrow> EventLoopThread option" where
  "EventLoopThread_destroy t =
     (let t1 = t\<lparr>exiting := True\<rparr>;
          t2 = (if loop_ptr t1 \<noteq> None
                then let t' = t1\<lparr>quit_requested := True\<rparr>
                     in if joinable t' then (threadFunc_end t')\<lparr>joinable := False\<rparr> else t'
                else t1)
      in if joinable t2 then None else Some t2)"

text \<open>
  Destroying the object of a running loop joins its thread; when the loop was told to quit before, the
  pointer is already cleared, nothing joins the thread, and the destructor terminates the program.
\<close>

lemma event_loop_thread_destroy:
  "EventLoopThread_destroy (threadFunc_publish l (startLoop_spawn EventLoopThread_new)) \<noteq> None"
  "EventLoopThread_destroy (threadFunc_end (threadFunc_publish l (startLoop_spawn EventLoopThread_new))) = None"
  by (simp_all add: EventLoopThread_destroy_def threadFunc_publish_def threadFunc_end_def startLoop_spawn_def
      EventLoopThread_new_def Let_def)

section \<open>The pool of loops\<close>

record EventLoopThreadPool =
  base_loop :: nat
  pool_started :: bool
  num_threads :: nat
  next_loop :: nat
  loops :: "nat list"

definition EventLoopThreadPool_new :: "nat \<Rightarrow> EventLoopThreadPool" where
  "EventLoopThreadPool_new base = \<lparr>base_loop = base, pool_started = False, num_threads = 0, next_loop = 0, loops = []\<rparr>"

definition setThreadNum :: "nat \<Rightarrow> EventLoopThreadPool \<Rightarrow> EventLoopThreadPool" where
  "setThreadNum n p = p\<lparr>num_threads := n\<rparr>"

text \<open>
  \<^verbatim>\<open>start\<close>: \<open>startLoop i\<close> is the loop the \<open>i\<close>-th thread created and has already passed to the init callback. The
  result also lists the loops on which \<^verbatim>\<open>start\<close> itself runs the callback.
\<close>

definition pool_start :: "bool \<Rightarrow> bool \<Rightarrow> (nat \<Rightarrow> nat) \<Rightarrow> EventLoopThreadPool \<Rightarrow> (nat list \<times> EventLoopThreadPool) option" where
  "pool_start in_loop has_cb startLoop p =
     (if pool_started p \<or> \<not> in_loop then None
      else Some (if num_threads p = 0 \<and> has_cb then [base_loop p] else [],
                 p\<lparr>pool_started := True, loops := loops p @ map startLoop [0..<num_threads p]\<rparr>))"

definition getNextLoop :: "bool \<Rightarrow> EventLoopThreadPool \<Rightarrow> (nat \<times> EventLoopThreadPool) option" where
  "getNextLoop in_loop p =
     (if \<not> in_loop \<or> \<not> pool_started p then None
      else if loops p = [] then Some (base_loop p, p)
      else if next_loop p < length (loops p)
           then Some (loops p ! next_loop p, p\<lparr>next_loop := (next_loop p + 1) mod length (loops p)\<rparr>)
           else None)"

definition getAllLoops :: "EventLoopThreadPool \<Rightarrow> nat list option" where
  "getAllLoops p = (if \<not> pool_started p then None else if loops p = [] then Some [base_loop p] else Some (loops p))"

fun take_loops :: "nat \<Rightarrow> EventLoopThreadPool \<Rightarrow> (nat list \<times> EventLoopThreadPool) option" where
  "take_loops 0 p = Some ([], p)"
| "take_loops (Suc k) p =
     (case getNextLoop True p of
        None \<Rightarrow> None
      | Some (l, p') \<Rightarrow> (case take_loops k p' of None \<Rightarrow> None | Some (ls, p'') \<Rightarrow> Some (l # ls, p'')))"

text \<open>The loops handed out are the pool's loops in turn, starting at the cursor.\<close>

lemma round_robin:
  assumes "pool_started p" "loops p \<noteq> []" "next_loop p < length (loops p)"
  shows "take_loops k p = Some (map (\<lambda>i. loops p ! ((next_loop p + i) mod length (loops p))) [0..<k],
           p\<lparr>next_loop := (next_loop p + k) mod length (loops p)\<rparr>)"
  using assms
proof (induction k arbitrary: p)
  case (Suc k)
  let ?n = "length (loops p)" and ?p = "p\<lparr>next_loop := (next_loop p + 1) mod length (loops p)\<rparr>"
  have g: "getNextLoop True p = Some (loops p ! next_loop p, ?p)" using Suc.prems by (simp add: getNextLoop_def)
  have m: "((next_loop p + 1) mod ?n + i) mod ?n = (next_loop p + Suc i) mod ?n" for i by (simp add: mod_add_left_eq)
  have "take_loops k ?p = Some (map (\<lambda>i. loops p ! ((next_loop p + Suc i) mod ?n)) [0..<k],
      p\<lparr>next_loop := (next_loop p + Suc k) mod ?n\<rparr>)"
    using Suc.IH [of ?p] Suc.prems m [of k] m by simp
  then show ?case using Suc.prems(3) by (simp add: g map_upt_Suc del: upt_Suc)
qed simp

end
