(* ===== verification/Net_Connection.thy ===== *)
theory Net_Connection
  imports Cox_Buffer Reactor_Channel
begin

text \<open>
  A TCP connection, \<^verbatim>\<open>net/tcp_connection.h\<close> and \<^verbatim>\<open>net/tcp_connection.cc\<close>: its state machine, the two buffers, the
  interest of its channel, the three timers, and the calls from other threads that are carried into the
  loop. The results of \<^verbatim>\<open>read\<close> and \<^verbatim>\<open>write\<close> are parameters. What the connection does to its surroundings is a
  sequence of effects: callbacks, bytes written, timers and changes of interest. A callback that acts on the
  connection does so by the events that follow. The theory shows that the byte stream is
  kept in order and without loss, that a half-close waits for the output, that the memory bounds hold,
  and that the disconnect notification is repeated for every error event.
\<close>

section \<open>State\<close>

datatype conn_state = kConnecting | kConnected | kDisconnecting | kDisconnected

datatype timer_kind = IdleTimer | WriteTimer | MaxAgeTimer

datatype conn_effect =
    ConnectionCb conn_state
  | MessageCb string
  | WriteCompleteCb
  | HighWaterCb nat
  | CloseCb
  | Written string
  | ShutdownWrite
  | ArmTimer timer_kind nat
  | CancelTimer timer_kind
  | Interest int
  | Unregister

datatype conn_task = SendTask string | ShutdownTask | ForceCloseTask | StopReadTask | StartReadTask

text \<open>The last three fields are the tasks carried into the loop, the effects so far and the bytes accepted for sending.\<close>

record TcpConnection =
  conn_state :: conn_state
  channel :: Channel
  registered :: bool
  input_buffer :: buffer
  output_buffer :: buffer
  bytes_read :: "64 word"
  bytes_written :: "64 word"
  connection_callback :: bool
  message_callback :: bool
  write_complete_callback :: bool
  high_water_mark_callback :: bool
  high_water_mark :: nat
  close_callback :: bool
  idle_seconds :: nat
  idle_timer_armed :: bool
  write_seconds :: nat
  write_timer_armed :: bool
  max_input_buffer_size :: nat
  max_age_seconds :: nat
  max_age_timer_armed :: bool
  reading :: bool
  posted :: "conn_task list"
  effects :: "conn_effect list"
  accepted :: string

definition TcpConnection_new :: "int \<Rightarrow> TcpConnection" where
  "TcpConnection_new sockfd =
     \<lparr>conn_state = kConnecting,
      channel = (Channel_new sockfd)\<lparr>readCallback := True, writeCallback := True, errorCallback := True\<rparr>,
      registered = False, input_buffer = Buffer kInitialSize, output_buffer = Buffer kInitialSize,
      bytes_read = 0, bytes_written = 0,
      connection_callback = False, message_callback = False, write_complete_callback = False,
      high_water_mark_callback = False, high_water_mark = 64 * 1024 * 1024, close_callback = False,
      idle_seconds = 0, idle_timer_armed = False, write_seconds = 0, write_timer_armed = False,
      max_input_buffer_size = 0, max_age_seconds = 0, max_age_timer_armed = False, reading = True,
      posted = [], effects = [], accepted = []\<rparr>"

definition emit :: "conn_effect \<Rightarrow> TcpConnection \<Rightarrow> TcpConnection" where
  "emit e c = c\<lparr>effects := effects c @ [e]\<rparr>"

definition set_interest :: "interest_op \<Rightarrow> TcpConnection \<Rightarrow> TcpConnection" where
  "set_interest op c =
     (let ev = change_events op (ch_events (channel c))
      in emit (Interest ev) (c\<lparr>channel := (channel c)\<lparr>ch_events := ev\<rparr>, registered := True\<rparr>))"

section \<open>Timers\<close>

definition cancelIdleTimer :: "TcpConnection \<Rightarrow> TcpConnection" where
  "cancelIdleTimer c = (if idle_timer_armed c then emit (CancelTimer IdleTimer) (c\<lparr>idle_timer_armed := False\<rparr>) else c)"

definition resetIdleTimer :: "TcpConnection \<Rightarrow> TcpConnection" where
  "resetIdleTimer c =
     (if idle_seconds c = 0 \<or> conn_state c \<noteq> kConnected then c
      else emit (ArmTimer IdleTimer (idle_seconds c * 1000)) ((cancelIdleTimer c)\<lparr>idle_timer_armed := True\<rparr>))"

definition armWriteTimer :: "TcpConnection \<Rightarrow> TcpConnection" where
  "armWriteTimer c =
     (if write_seconds c = 0 \<or> write_timer_armed c \<or> conn_state c \<noteq> kConnected then c
      else emit (ArmTimer WriteTimer (write_seconds c * 1000)) (c\<lparr>write_timer_armed := True\<rparr>))"

definition cancelWriteTimer :: "TcpConnection \<Rightarrow> TcpConnection" where
  "cancelWriteTimer c = (if write_timer_armed c then emit (CancelTimer WriteTimer) (c\<lparr>write_timer_armed := False\<rparr>) else c)"

definition armMaxAgeTimer :: "TcpConnection \<Rightarrow> TcpConnection" where
  "armMaxAgeTimer c =
     (if max_age_seconds c = 0 \<or> max_age_timer_armed c then c
      else emit (ArmTimer MaxAgeTimer (max_age_seconds c * 1000)) (c\<lparr>max_age_timer_armed := True\<rparr>))"

definition cancelMaxAgeTimer :: "TcpConnection \<Rightarrow> TcpConnection" where
  "cancelMaxAgeTimer c =
     (if max_age_timer_armed c then emit (CancelTimer MaxAgeTimer) (c\<lparr>max_age_timer_armed := False\<rparr>) else c)"

definition cancel_timers :: "TcpConnection \<Rightarrow> TcpConnection" where
  "cancel_timers c = cancelMaxAgeTimer (cancelWriteTimer (cancelIdleTimer c))"

section \<open>Establishing and closing\<close>

definition notify_connection :: "TcpConnection \<Rightarrow> TcpConnection" where
  "notify_connection c = (if connection_callback c then emit (ConnectionCb (conn_state c)) c else c)"

definition connectEstablished :: "TcpConnection \<Rightarrow> TcpConnection" where
  "connectEstablished c =
     (let c1 = c\<lparr>conn_state := kConnected, channel := tie (channel c)\<rparr>;
          c2 = notify_connection (set_interest EnableRead c1)
      in armMaxAgeTimer (resetIdleTimer c2))"

definition connectDestroyed :: "TcpConnection \<Rightarrow> TcpConnection" where
  "connectDestroyed c =
     (let c1 = cancel_timers c;
          c2 = (if conn_state c1 = kConnected
                then notify_connection (set_interest DisableAll (c1\<lparr>conn_state := kDisconnected\<rparr>)) else c1)
      in emit Unregister (c2\<lparr>registered := False\<rparr>))"

definition handleClose :: "TcpConnection \<Rightarrow> TcpConnection" where
  "handleClose c =
     (let c1 = notify_connection (set_interest DisableAll (cancel_timers (c\<lparr>conn_state := kDisconnected\<rparr>)))
      in if close_callback c1 then emit CloseCb c1 else c1)"

text \<open>\<^verbatim>\<open>handleError\<close> reads the pending error of the socket for the log only.\<close>

definition handleError :: "TcpConnection \<Rightarrow> TcpConnection" where
  "handleError c = handleClose c"

definition forceCloseInLoop :: "TcpConnection \<Rightarrow> TcpConnection" where
  "forceCloseInLoop c = (if conn_state c \<noteq> kDisconnected then handleClose c else c)"

definition post :: "conn_task \<Rightarrow> TcpConnection \<Rightarrow> TcpConnection" where
  "post t c = c\<lparr>posted := posted c @ [t]\<rparr>"

definition forceClose :: "bool \<Rightarrow> TcpConnection \<Rightarrow> TcpConnection" where
  "forceClose in_loop c =
     (if conn_state c = kConnected \<or> conn_state c = kDisconnecting
      then let c1 = c\<lparr>conn_state := kDisconnecting\<rparr> in if in_loop then forceCloseInLoop c1 else post ForceCloseTask c1
      else c)"

section \<open>Reading\<close>

text \<open>
  \<^verbatim>\<open>handleRead\<close>: \<open>r\<close> is the result of the scatter read, \<open>k\<close> how much of the input the message callback takes.
\<close>

definition handleRead :: "io_result \<Rightarrow> nat \<Rightarrow> TcpConnection \<Rightarrow> TcpConnection option" where
  "handleRead r k c = do {
     (n, err, b) \<leftarrow> readFd r (input_buffer c);
     let c1 = c\<lparr>input_buffer := b\<rparr>;
     if n > 0 then do {
       let c2 = resetIdleTimer (c1\<lparr>bytes_read := bytes_read c1 + of_int n\<rparr>);
       c3 \<leftarrow> (if message_callback c2
              then do {
                b' \<leftarrow> retrieve (min k (readableBytes (input_buffer c2))) (input_buffer c2);
                Some (emit (MessageCb (readable (input_buffer c2))) (c2\<lparr>input_buffer := b'\<rparr>))
              }
              else Some c2);
       Some (if max_input_buffer_size c3 > 0 \<and> readableBytes (input_buffer c3) > max_input_buffer_size c3
             then forceClose True c3 else c3)
     }
     else if n = 0 then Some (handleClose c1)
     else Some (handleError c1)
   }"

definition stopReadInLoop :: "TcpConnection \<Rightarrow> TcpConnection" where
  "stopReadInLoop c =
     (if reading c \<and> isReading (channel c) then (set_interest DisableRead c)\<lparr>reading := False\<rparr> else c)"

definition startReadInLoop :: "TcpConnection \<Rightarrow> TcpConnection" where
  "startReadInLoop c =
     (if \<not> reading c \<and> conn_state c = kConnected then (set_interest EnableRead c)\<lparr>reading := True\<rparr> else c)"

definition stopRead :: "bool \<Rightarrow> TcpConnection \<Rightarrow> TcpConnection" where
  "stopRead in_loop c = (if in_loop then stopReadInLoop c else post StopReadTask c)"

definition startRead :: "bool \<Rightarrow> TcpConnection \<Rightarrow> TcpConnection" where
  "startRead in_loop c = (if in_loop then startReadInLoop c else post StartReadTask c)"

section \<open>Writing\<close>

text \<open>The result of a \<^verbatim>\<open>write\<close>: an error, or how many of the bytes offered the kernel took.\<close>

datatype write_result = WriteError | WriteOk nat

definition kernel_write :: "write_result \<Rightarrow> string \<Rightarrow> TcpConnection \<Rightarrow> int \<times> TcpConnection" where
  "kernel_write w data c =
     (case w of
        WriteError \<Rightarrow> (- 1, c)
      | WriteOk k \<Rightarrow> (int (min k (length data)), emit (Written (take k data)) c))"

definition shutdownInLoop :: "TcpConnection \<Rightarrow> TcpConnection" where
  "shutdownInLoop c = (if \<not> isWriting (channel c) then emit ShutdownWrite c else c)"

definition shutdown :: "bool \<Rightarrow> TcpConnection \<Rightarrow> TcpConnection" where
  "shutdown in_loop c =
     (if conn_state c = kConnected
      then let c1 = c\<lparr>conn_state := kDisconnecting\<rparr> in if in_loop then shutdownInLoop c1 else post ShutdownTask c1
      else c)"

definition outputBufferPending :: "TcpConnection \<Rightarrow> nat" where
  "outputBufferPending c = readableBytes (output_buffer c)"

text \<open>The first attempt of \<^verbatim>\<open>sendInLoop\<close>: how many bytes were written.\<close>

definition send_directly :: "write_result \<Rightarrow> string \<Rightarrow> TcpConnection \<Rightarrow> nat \<times> TcpConnection" where
  "send_directly w data c =
     (if \<not> isWriting (channel c) \<and> readableBytes (output_buffer c) = 0
      then let (n, c1) = kernel_write w data c
           in if n \<ge> 0
              then let c2 = c1\<lparr>bytes_written := bytes_written c1 + of_int n\<rparr>
                   in (nat n, if length data - nat n = 0 \<and> write_complete_callback c2 then emit WriteCompleteCb c2 else c2)
              else (0, c1)
      else (0, c))"

definition buffer_rest :: "string \<Rightarrow> TcpConnection \<Rightarrow> TcpConnection option" where
  "buffer_rest rest c = do {
     let old_len = readableBytes (output_buffer c);
     let c1 = (if old_len < high_water_mark c \<and> old_len + length rest \<ge> high_water_mark c \<and> high_water_mark_callback c
               then emit (HighWaterCb (old_len + length rest)) c else c);
     b \<leftarrow> buf_append rest (output_buffer c1);
     let c2 = c1\<lparr>output_buffer := b\<rparr>;
     let c3 = (if \<not> isWriting (channel c2) then set_interest EnableWrite c2 else c2);
     Some (armWriteTimer c3)
   }"

definition sendInLoop :: "write_result \<Rightarrow> string \<Rightarrow> TcpConnection \<Rightarrow> TcpConnection option" where
  "sendInLoop w data c =
     (if conn_state c = kDisconnected then Some c
      else let (nwrote, c1) = send_directly w data (c\<lparr>accepted := accepted c @ data\<rparr>)
           in if length data - nwrote > 0 then buffer_rest (drop nwrote data) c1 else Some c1)"

definition send :: "bool \<Rightarrow> write_result \<Rightarrow> string \<Rightarrow> TcpConnection \<Rightarrow> TcpConnection option" where
  "send in_loop w data c =
     (if conn_state c \<noteq> kConnected then Some c
      else if in_loop then sendInLoop w data c else Some (post (SendTask data) c))"

definition handleWrite :: "write_result \<Rightarrow> TcpConnection \<Rightarrow> TcpConnection option" where
  "handleWrite w c =
     (if \<not> isWriting (channel c) then Some c
      else let (n, c1) = kernel_write w (readable (output_buffer c)) c
           in if n > 0
              then do {
                b \<leftarrow> retrieve (nat n) (output_buffer c1);
                let c2 = c1\<lparr>bytes_written := bytes_written c1 + of_int n, output_buffer := b\<rparr>;
                if readableBytes b = 0
                then do {
                  let c3 = cancelWriteTimer (set_interest DisableWrite c2);
                  let c4 = (if write_complete_callback c3 then emit WriteCompleteCb c3 else c3);
                  Some (if conn_state c4 = kDisconnecting then shutdownInLoop c4 else c4)
                }
                else Some c2
              }
              else Some c1)"

section \<open>Events\<close>

text \<open>The callbacks of the timers.\<close>

definition idle_fired :: "TcpConnection \<Rightarrow> TcpConnection" where
  "idle_fired c = forceClose True c"

definition write_timer_fired :: "TcpConnection \<Rightarrow> TcpConnection" where
  "write_timer_fired c =
     (let c1 = c\<lparr>write_timer_armed := False\<rparr> in if readableBytes (output_buffer c1) > 0 then forceClose True c1 else c1)"

definition max_age_fired :: "TcpConnection \<Rightarrow> TcpConnection" where
  "max_age_fired c = forceClose True (c\<lparr>max_age_timer_armed := False\<rparr>)"

text \<open>A task carried into the loop.\<close>

fun run_posted :: "write_result \<Rightarrow> conn_task \<Rightarrow> TcpConnection \<Rightarrow> TcpConnection option" where
  "run_posted w (SendTask data) c = sendInLoop w data c"
| "run_posted w ShutdownTask c = Some (shutdownInLoop c)"
| "run_posted w ForceCloseTask c = Some (forceCloseInLoop c)"
| "run_posted w StopReadTask c = Some (stopReadInLoop c)"
| "run_posted w StartReadTask c = Some (startReadInLoop c)"

text \<open>The callbacks the channel runs for one set of events, in its order.\<close>

fun run_callback :: "io_result \<Rightarrow> nat \<Rightarrow> write_result \<Rightarrow> chan_call \<Rightarrow> TcpConnection \<Rightarrow> TcpConnection option" where
  "run_callback r k w ErrorCallback c = Some (handleError c)"
| "run_callback r k w ReadCallback c = handleRead r k c"
| "run_callback r k w WriteCallback c = handleWrite w c"

fun run_callbacks :: "io_result \<Rightarrow> nat \<Rightarrow> write_result \<Rightarrow> chan_call list \<Rightarrow> TcpConnection \<Rightarrow> TcpConnection option" where
  "run_callbacks r k w [] c = Some c"
| "run_callbacks r k w (x # xs) c = Option.bind (run_callback r k w x c) (run_callbacks r k w xs)"

text \<open>The setters, called by the owner before the connection is established.\<close>

datatype conn_setting =
    SetConnectionCallback
  | SetMessageCallback
  | SetWriteCompleteCallback
  | SetHighWaterMarkCallback nat
  | SetCloseCallback
  | SetIdleTimeout nat
  | SetWriteTimeout nat
  | SetMaxInputBufferSize nat
  | SetMaxConnectionAge nat

fun conn_configure :: "conn_setting \<Rightarrow> TcpConnection \<Rightarrow> TcpConnection" where
  "conn_configure SetConnectionCallback c = c\<lparr>connection_callback := True\<rparr>"
| "conn_configure SetMessageCallback c = c\<lparr>message_callback := True\<rparr>"
| "conn_configure SetWriteCompleteCallback c = c\<lparr>write_complete_callback := True\<rparr>"
| "conn_configure (SetHighWaterMarkCallback n) c = c\<lparr>high_water_mark_callback := True, high_water_mark := n\<rparr>"
| "conn_configure SetCloseCallback c = c\<lparr>close_callback := True\<rparr>"
| "conn_configure (SetIdleTimeout n) c = c\<lparr>idle_seconds := n\<rparr>"
| "conn_configure (SetWriteTimeout n) c = c\<lparr>write_seconds := n\<rparr>"
| "conn_configure (SetMaxInputBufferSize n) c = c\<lparr>max_input_buffer_size := n\<rparr>"
| "conn_configure (SetMaxConnectionAge n) c = c\<lparr>max_age_seconds := n\<rparr>"

datatype conn_event =
    Configure conn_setting
  | Established
  | Destroyed
  | Dispatch int io_result nat write_result
  | Send bool string write_result
  | Shutdown bool
  | ForceClose bool
  | StopRead bool
  | StartRead bool
  | RunPosted write_result
  | IdleFired
  | WriteTimerFired
  | MaxAgeFired

text \<open>
  An event happens only where it can: a connection is established once, a timer fires when armed, and the
  poller reports readability and writability only where interest is registered, errors always.
\<close>

definition reportable :: "int \<Rightarrow> TcpConnection \<Rightarrow> bool" where
  "reportable revs c =
     (registered c \<and> (revs AND IO_READ \<noteq> 0 \<longrightarrow> isReading (channel c)) \<and> (revs AND IO_WRITE \<noteq> 0 \<longrightarrow> isWriting (channel c)))"

fun conn_exec :: "conn_event \<Rightarrow> TcpConnection \<Rightarrow> TcpConnection option" where
  "conn_exec (Configure x) c = Some (if conn_state c = kConnecting then conn_configure x c else c)"
| "conn_exec Established c = Some (if conn_state c = kConnecting then connectEstablished c else c)"
| "conn_exec Destroyed c = Some (if conn_state c \<noteq> kConnecting then connectDestroyed c else c)"
| "conn_exec (Dispatch revs r k w) c =
     (if reportable revs c
      then run_callbacks r k w (handleEvents True ((channel c)\<lparr>ch_revents := revs\<rparr>)) (c\<lparr>channel := (channel c)\<lparr>ch_revents := revs\<rparr>\<rparr>)
      else Some c)"
| "conn_exec (Send in_loop data w) c = send in_loop w data c"
| "conn_exec (Shutdown in_loop) c = Some (shutdown in_loop c)"
| "conn_exec (ForceClose in_loop) c = Some (forceClose in_loop c)"
| "conn_exec (StopRead in_loop) c = Some (stopRead in_loop c)"
| "conn_exec (StartRead in_loop) c = Some (startRead in_loop c)"
| "conn_exec (RunPosted w) c =
     (case posted c of [] \<Rightarrow> Some c | t # ts \<Rightarrow> run_posted w t (c\<lparr>posted := ts\<rparr>))"
| "conn_exec IdleFired c = Some (if idle_timer_armed c then idle_fired c else c)"
| "conn_exec WriteTimerFired c = Some (if write_timer_armed c then write_timer_fired c else c)"
| "conn_exec MaxAgeFired c = Some (if max_age_timer_armed c then max_age_fired c else c)"

fun conn_run :: "conn_event list \<Rightarrow> TcpConnection \<Rightarrow> TcpConnection option" where
  "conn_run [] c = Some c"
| "conn_run (e # es) c = Option.bind (conn_exec e c) (conn_run es)"

section \<open>Frame lemmas\<close>

text \<open>The bytes written so far.\<close>

fun written :: "conn_effect \<Rightarrow> string" where
  "written (Written s) = s"
| "written _ = []"

definition wire :: "conn_effect list \<Rightarrow> string" where
  "wire es = concat (map written es)"

lemma wire_append [simp]: "wire (xs @ ys) = wire xs @ wire ys"
  by (simp add: wire_def)

lemma wire_simps [simp]: "wire [] = []" "wire (e # es) = written e @ wire es"
  by (simp_all add: wire_def)

lemma emit_frame [simp]:
  "conn_state (emit e c) = conn_state c"
  "channel (emit e c) = channel c"
  "registered (emit e c) = registered c"
  "input_buffer (emit e c) = input_buffer c"
  "output_buffer (emit e c) = output_buffer c"
  "bytes_written (emit e c) = bytes_written c"
  "max_input_buffer_size (emit e c) = max_input_buffer_size c"
  "reading (emit e c) = reading c"
  "posted (emit e c) = posted c"
  "accepted (emit e c) = accepted c"
  "idle_timer_armed (emit e c) = idle_timer_armed c"
  "write_timer_armed (emit e c) = write_timer_armed c"
  "max_age_timer_armed (emit e c) = max_age_timer_armed c"
  "connection_callback (emit e c) = connection_callback c"
  "close_callback (emit e c) = close_callback c"
  "effects (emit e c) = effects c @ [e]"
  by (simp_all add: emit_def)

lemma set_interest_frame [simp]:
  "conn_state (set_interest op c) = conn_state c"
  "input_buffer (set_interest op c) = input_buffer c"
  "output_buffer (set_interest op c) = output_buffer c"
  "bytes_written (set_interest op c) = bytes_written c"
  "max_input_buffer_size (set_interest op c) = max_input_buffer_size c"
  "reading (set_interest op c) = reading c"
  "posted (set_interest op c) = posted c"
  "accepted (set_interest op c) = accepted c"
  "idle_timer_armed (set_interest op c) = idle_timer_armed c"
  "write_timer_armed (set_interest op c) = write_timer_armed c"
  "max_age_timer_armed (set_interest op c) = max_age_timer_armed c"
  "connection_callback (set_interest op c) = connection_callback c"
  "close_callback (set_interest op c) = close_callback c"
  "channel (set_interest op c) = (channel c)\<lparr>ch_events := change_events op (ch_events (channel c))\<rparr>"
  "registered (set_interest op c)"
  "wire (effects (set_interest op c)) = wire (effects c)"
  by (simp_all add: set_interest_def Let_def)

lemma cancelIdleTimer_frame [simp]:
  "conn_state (cancelIdleTimer c) = conn_state c"
  "channel (cancelIdleTimer c) = channel c"
  "registered (cancelIdleTimer c) = registered c"
  "input_buffer (cancelIdleTimer c) = input_buffer c"
  "output_buffer (cancelIdleTimer c) = output_buffer c"
  "bytes_written (cancelIdleTimer c) = bytes_written c"
  "max_input_buffer_size (cancelIdleTimer c) = max_input_buffer_size c"
  "reading (cancelIdleTimer c) = reading c"
  "posted (cancelIdleTimer c) = posted c"
  "accepted (cancelIdleTimer c) = accepted c"
  "write_timer_armed (cancelIdleTimer c) = write_timer_armed c"
  "max_age_timer_armed (cancelIdleTimer c) = max_age_timer_armed c"
  "connection_callback (cancelIdleTimer c) = connection_callback c"
  "close_callback (cancelIdleTimer c) = close_callback c"
  "\<not> idle_timer_armed (cancelIdleTimer c)"
  "wire (effects (cancelIdleTimer c)) = wire (effects c)"
  by (simp_all add: cancelIdleTimer_def)

lemma cancelWriteTimer_frame [simp]:
  "conn_state (cancelWriteTimer c) = conn_state c"
  "channel (cancelWriteTimer c) = channel c"
  "registered (cancelWriteTimer c) = registered c"
  "input_buffer (cancelWriteTimer c) = input_buffer c"
  "output_buffer (cancelWriteTimer c) = output_buffer c"
  "bytes_written (cancelWriteTimer c) = bytes_written c"
  "max_input_buffer_size (cancelWriteTimer c) = max_input_buffer_size c"
  "reading (cancelWriteTimer c) = reading c"
  "posted (cancelWriteTimer c) = posted c"
  "accepted (cancelWriteTimer c) = accepted c"
  "idle_timer_armed (cancelWriteTimer c) = idle_timer_armed c"
  "max_age_timer_armed (cancelWriteTimer c) = max_age_timer_armed c"
  "connection_callback (cancelWriteTimer c) = connection_callback c"
  "close_callback (cancelWriteTimer c) = close_callback c"
  "\<not> write_timer_armed (cancelWriteTimer c)"
  "wire (effects (cancelWriteTimer c)) = wire (effects c)"
  by (simp_all add: cancelWriteTimer_def)

lemma cancelMaxAgeTimer_frame [simp]:
  "conn_state (cancelMaxAgeTimer c) = conn_state c"
  "channel (cancelMaxAgeTimer c) = channel c"
  "registered (cancelMaxAgeTimer c) = registered c"
  "input_buffer (cancelMaxAgeTimer c) = input_buffer c"
  "output_buffer (cancelMaxAgeTimer c) = output_buffer c"
  "bytes_written (cancelMaxAgeTimer c) = bytes_written c"
  "max_input_buffer_size (cancelMaxAgeTimer c) = max_input_buffer_size c"
  "reading (cancelMaxAgeTimer c) = reading c"
  "posted (cancelMaxAgeTimer c) = posted c"
  "accepted (cancelMaxAgeTimer c) = accepted c"
  "idle_timer_armed (cancelMaxAgeTimer c) = idle_timer_armed c"
  "write_timer_armed (cancelMaxAgeTimer c) = write_timer_armed c"
  "connection_callback (cancelMaxAgeTimer c) = connection_callback c"
  "close_callback (cancelMaxAgeTimer c) = close_callback c"
  "\<not> max_age_timer_armed (cancelMaxAgeTimer c)"
  "wire (effects (cancelMaxAgeTimer c)) = wire (effects c)"
  by (simp_all add: cancelMaxAgeTimer_def)

lemma resetIdleTimer_frame [simp]:
  "conn_state (resetIdleTimer c) = conn_state c"
  "channel (resetIdleTimer c) = channel c"
  "registered (resetIdleTimer c) = registered c"
  "input_buffer (resetIdleTimer c) = input_buffer c"
  "output_buffer (resetIdleTimer c) = output_buffer c"
  "bytes_written (resetIdleTimer c) = bytes_written c"
  "max_input_buffer_size (resetIdleTimer c) = max_input_buffer_size c"
  "reading (resetIdleTimer c) = reading c"
  "posted (resetIdleTimer c) = posted c"
  "accepted (resetIdleTimer c) = accepted c"
  "write_timer_armed (resetIdleTimer c) = write_timer_armed c"
  "max_age_timer_armed (resetIdleTimer c) = max_age_timer_armed c"
  "connection_callback (resetIdleTimer c) = connection_callback c"
  "close_callback (resetIdleTimer c) = close_callback c"
  "wire (effects (resetIdleTimer c)) = wire (effects c)"
  by (simp_all add: resetIdleTimer_def)

lemma armWriteTimer_frame [simp]:
  "conn_state (armWriteTimer c) = conn_state c"
  "channel (armWriteTimer c) = channel c"
  "registered (armWriteTimer c) = registered c"
  "input_buffer (armWriteTimer c) = input_buffer c"
  "output_buffer (armWriteTimer c) = output_buffer c"
  "bytes_written (armWriteTimer c) = bytes_written c"
  "max_input_buffer_size (armWriteTimer c) = max_input_buffer_size c"
  "reading (armWriteTimer c) = reading c"
  "posted (armWriteTimer c) = posted c"
  "accepted (armWriteTimer c) = accepted c"
  "idle_timer_armed (armWriteTimer c) = idle_timer_armed c"
  "max_age_timer_armed (armWriteTimer c) = max_age_timer_armed c"
  "connection_callback (armWriteTimer c) = connection_callback c"
  "close_callback (armWriteTimer c) = close_callback c"
  "wire (effects (armWriteTimer c)) = wire (effects c)"
  by (simp_all add: armWriteTimer_def)

lemma armMaxAgeTimer_frame [simp]:
  "conn_state (armMaxAgeTimer c) = conn_state c"
  "channel (armMaxAgeTimer c) = channel c"
  "registered (armMaxAgeTimer c) = registered c"
  "input_buffer (armMaxAgeTimer c) = input_buffer c"
  "output_buffer (armMaxAgeTimer c) = output_buffer c"
  "bytes_written (armMaxAgeTimer c) = bytes_written c"
  "max_input_buffer_size (armMaxAgeTimer c) = max_input_buffer_size c"
  "reading (armMaxAgeTimer c) = reading c"
  "posted (armMaxAgeTimer c) = posted c"
  "accepted (armMaxAgeTimer c) = accepted c"
  "idle_timer_armed (armMaxAgeTimer c) = idle_timer_armed c"
  "write_timer_armed (armMaxAgeTimer c) = write_timer_armed c"
  "connection_callback (armMaxAgeTimer c) = connection_callback c"
  "close_callback (armMaxAgeTimer c) = close_callback c"
  "wire (effects (armMaxAgeTimer c)) = wire (effects c)"
  by (simp_all add: armMaxAgeTimer_def)

lemma notify_connection_frame [simp]:
  "conn_state (notify_connection c) = conn_state c"
  "channel (notify_connection c) = channel c"
  "registered (notify_connection c) = registered c"
  "input_buffer (notify_connection c) = input_buffer c"
  "output_buffer (notify_connection c) = output_buffer c"
  "bytes_written (notify_connection c) = bytes_written c"
  "max_input_buffer_size (notify_connection c) = max_input_buffer_size c"
  "reading (notify_connection c) = reading c"
  "posted (notify_connection c) = posted c"
  "accepted (notify_connection c) = accepted c"
  "idle_timer_armed (notify_connection c) = idle_timer_armed c"
  "write_timer_armed (notify_connection c) = write_timer_armed c"
  "max_age_timer_armed (notify_connection c) = max_age_timer_armed c"
  "connection_callback (notify_connection c) = connection_callback c"
  "close_callback (notify_connection c) = close_callback c"
  "wire (effects (notify_connection c)) = wire (effects c)"
  by (simp_all add: notify_connection_def)

text \<open>The events a change of interest leaves.\<close>

lemma flag_bits: "(ev AND IO_READ = 0) = (\<not> bit ev 0)" "(ev AND IO_WRITE = 0) = (\<not> bit ev 1)"
  using and_exp_eq_0_iff_not_bit [of ev 0] and_exp_eq_0_iff_not_bit [of ev 1]
  by (simp_all add: IO_READ_def IO_WRITE_def)

lemma flag_values: "bit IO_READ 0" "\<not> bit IO_READ 1" "\<not> bit IO_WRITE 0" "bit IO_WRITE 1"
  by (simp_all add: IO_READ_def IO_WRITE_def bit_iff_odd)

lemma channel_interest [simp]:
  "isReading (c\<lparr>ch_events := change_events EnableRead (ch_events c)\<rparr>)"
  "isWriting (c\<lparr>ch_events := change_events EnableRead (ch_events c)\<rparr>) = isWriting c"
  "\<not> isReading (c\<lparr>ch_events := change_events DisableRead (ch_events c)\<rparr>)"
  "isWriting (c\<lparr>ch_events := change_events DisableRead (ch_events c)\<rparr>) = isWriting c"
  "isWriting (c\<lparr>ch_events := change_events EnableWrite (ch_events c)\<rparr>)"
  "isReading (c\<lparr>ch_events := change_events EnableWrite (ch_events c)\<rparr>) = isReading c"
  "\<not> isWriting (c\<lparr>ch_events := change_events DisableWrite (ch_events c)\<rparr>)"
  "isReading (c\<lparr>ch_events := change_events DisableWrite (ch_events c)\<rparr>) = isReading c"
  "\<not> isReading (c\<lparr>ch_events := change_events DisableAll (ch_events c)\<rparr>)"
  "\<not> isWriting (c\<lparr>ch_events := change_events DisableAll (ch_events c)\<rparr>)"
  by (simp_all add: isReading_def isWriting_def flag_bits bit_or_iff bit_and_iff bit_not_iff flag_values IO_NONE_def
      del: bit_0 One_nat_def)

declare change_events.simps [simp del]

lemma channel_bits [simp]:
  "isReading (c\<lparr>ch_revents := ev\<rparr>) = isReading c"
  "isWriting (c\<lparr>ch_revents := ev\<rparr>) = isWriting c"
  "isReading (tie c) = isReading c" "isWriting (tie c) = isWriting c"
  by (simp_all add: isReading_def isWriting_def tie_def)

section \<open>The invariant\<close>

definition stream_ok :: "TcpConnection \<Rightarrow> bool" where
  "stream_ok c =
     (wire (effects c) @ readable (output_buffer c) = accepted c \<and>
      bytes_written c = of_nat (length (wire (effects c))))"

definition conn_inv :: "TcpConnection \<Rightarrow> bool" where
  "conn_inv c =
     (buf_ok (input_buffer c) \<and> buf_ok (output_buffer c) \<and> stream_ok c \<and>
      (write_timer_armed c \<longrightarrow> readable (output_buffer c) \<noteq> []) \<and>
      (if conn_state c = kDisconnected
       then \<not> isReading (channel c) \<and> \<not> isWriting (channel c) \<and>
            \<not> idle_timer_armed c \<and> \<not> write_timer_armed c \<and> \<not> max_age_timer_armed c
       else isWriting (channel c) = (readable (output_buffer c) \<noteq> []) \<and>
            (max_input_buffer_size c > 0 \<longrightarrow> length (readable (input_buffer c)) \<le> max_input_buffer_size c) \<and>
            (conn_state c = kConnecting \<longrightarrow>
               \<not> isReading (channel c) \<and> reading c \<and> \<not> registered c \<and> readable (input_buffer c) = [] \<and>
               (\<forall>s. SendTask s \<notin> set (posted c))) \<and>
            (conn_state c \<noteq> kConnecting \<longrightarrow> reading c = isReading (channel c))))"

lemma conn_inv_new: "conn_inv (TcpConnection_new fd)"
  by (simp add: conn_inv_def stream_ok_def TcpConnection_new_def wire_def isReading_def isWriting_def Channel_new_def IO_NONE_def)

text \<open>Closing keeps the buffers and the stream, whatever the state was.\<close>

lemma inv_handleClose:
  assumes "buf_ok (input_buffer c)" "buf_ok (output_buffer c)" "stream_ok c"
  shows "conn_inv (handleClose c)" "conn_state (handleClose c) = kDisconnected"
  using assms by (simp_all add: handleClose_def cancel_timers_def conn_inv_def stream_ok_def Let_def)

lemma inv_forceCloseInLoop: "conn_inv c \<Longrightarrow> conn_inv (forceCloseInLoop c)"
  using inv_handleClose by (simp add: forceCloseInLoop_def conn_inv_def)

lemma inv_forceClose: 
  assumes "conn_inv c"
  shows "conn_inv (forceClose in_loop c)"
proof -
  have "conn_inv (c\<lparr>conn_state := kDisconnecting\<rparr>)" if "conn_state c = kConnected \<or> conn_state c = kDisconnecting"
    using assms that by (auto simp: conn_inv_def stream_ok_def)
  moreover have "conn_inv c' \<Longrightarrow> conn_inv (post ForceCloseTask c')" for c' by (simp add: conn_inv_def stream_ok_def post_def)
  ultimately show ?thesis using assms by (simp add: forceClose_def Let_def inv_forceCloseInLoop)
qed

lemma inv_established: "conn_inv c \<Longrightarrow> conn_state c = kConnecting \<Longrightarrow> conn_inv (connectEstablished c)"
  by (simp add: connectEstablished_def conn_inv_def stream_ok_def Let_def)

lemma inv_destroyed: "conn_inv c \<Longrightarrow> conn_inv (connectDestroyed c)"
  by (auto simp: connectDestroyed_def cancel_timers_def conn_inv_def stream_ok_def Let_def)

lemma inv_reads: "conn_inv c \<Longrightarrow> conn_inv (stopReadInLoop c)" "conn_inv c \<Longrightarrow> conn_inv (startReadInLoop c)"
  by (auto simp: stopReadInLoop_def startReadInLoop_def conn_inv_def stream_ok_def)

text \<open>Writing moves a prefix of the data to the wire.\<close>

lemma kernel_write_cases:
  obtains "kernel_write w data c = (- 1, c)"
  | k where "k \<le> length data" "kernel_write w data c = (int k, emit (Written (take k data)) c)"
proof (cases w)
  case (WriteOk k)
  then show ?thesis using that(2) [of "min k (length data)"] by (simp add: kernel_write_def min_def)
qed (use that(1) in \<open>simp add: kernel_write_def\<close>)

lemma send_directly_spec:
  assumes "send_directly w data c = (n, c1)" "stream_ok (c\<lparr>accepted := a\<rparr>)" "isWriting (channel c) = (readable (output_buffer c) \<noteq> [])"
    "buf_ok (output_buffer c)"
  shows "n \<le> length data" "wire (effects c1) @ readable (output_buffer c1) = a @ take n data"
    "bytes_written c1 = of_nat (length (wire (effects c1)))" "n > 0 \<Longrightarrow> readable (output_buffer c) = []"
    "conn_state c1 = conn_state c" "channel c1 = channel c" "output_buffer c1 = output_buffer c" "input_buffer c1 = input_buffer c"
    "max_input_buffer_size c1 = max_input_buffer_size c" "reading c1 = reading c" "accepted c1 = accepted c"
    "idle_timer_armed c1 = idle_timer_armed c" "write_timer_armed c1 = write_timer_armed c"
    "max_age_timer_armed c1 = max_age_timer_armed c"
proof -
  have "n \<le> length data \<and> wire (effects c1) @ readable (output_buffer c1) = a @ take n data \<and>
    bytes_written c1 = of_nat (length (wire (effects c1))) \<and> (n > 0 \<longrightarrow> readable (output_buffer c) = []) \<and>
    conn_state c1 = conn_state c \<and> channel c1 = channel c \<and> output_buffer c1 = output_buffer c \<and> input_buffer c1 = input_buffer c \<and>
    max_input_buffer_size c1 = max_input_buffer_size c \<and> reading c1 = reading c \<and> accepted c1 = accepted c \<and>
    idle_timer_armed c1 = idle_timer_armed c \<and> write_timer_armed c1 = write_timer_armed c \<and>
    max_age_timer_armed c1 = max_age_timer_armed c"
  proof (cases "readable (output_buffer c) = []")
    case True
    then have e: "\<not> isWriting (channel c)" "readableBytes (output_buffer c) = 0"
      using assms(3,4) by (simp_all add: readableBytes_conv)
    show ?thesis
    proof (cases rule: kernel_write_cases [of w data c])
      case 1
      then show ?thesis using assms(1,2) e True by (auto simp: send_directly_def stream_ok_def)
    next
      case (2 k)
      then show ?thesis using assms(1,2) e True
        by (auto simp: send_directly_def stream_ok_def Let_def split: if_splits)
    qed
  next
    case False
    then show ?thesis using assms by (auto simp: send_directly_def stream_ok_def)
  qed
  then show "n \<le> length data" "wire (effects c1) @ readable (output_buffer c1) = a @ take n data"
    "bytes_written c1 = of_nat (length (wire (effects c1)))" "n > 0 \<Longrightarrow> readable (output_buffer c) = []"
    "conn_state c1 = conn_state c" "channel c1 = channel c" "output_buffer c1 = output_buffer c" "input_buffer c1 = input_buffer c"
    "max_input_buffer_size c1 = max_input_buffer_size c" "reading c1 = reading c" "accepted c1 = accepted c"
    "idle_timer_armed c1 = idle_timer_armed c" "write_timer_armed c1 = write_timer_armed c"
    "max_age_timer_armed c1 = max_age_timer_armed c" by blast+
qed

text \<open>Buffering the rest restores the invariant: the output is not empty and writability is watched.\<close>

lemma buffer_rest_spec:
  assumes "buf_ok (output_buffer c)" "rest \<noteq> []"
  shows "\<exists>c'. buffer_rest rest c = Some c' \<and> buf_ok (output_buffer c') \<and>
     readable (output_buffer c') = readable (output_buffer c) @ rest \<and> isWriting (channel c') \<and>
     isReading (channel c') = isReading (channel c) \<and> wire (effects c') = wire (effects c) \<and>
     bytes_written c' = bytes_written c \<and> conn_state c' = conn_state c \<and> input_buffer c' = input_buffer c \<and>
     max_input_buffer_size c' = max_input_buffer_size c \<and> reading c' = reading c \<and> accepted c' = accepted c"
proof -
  obtain b where b: "buf_append rest (output_buffer c) = Some b" "buf_ok b" "readable b = readable (output_buffer c) @ rest"
    using buf_append_spec [OF assms(1)] by blast
  then show ?thesis by (auto simp: buffer_rest_def Let_def)
qed

lemma inv_sendInLoop:
  assumes "conn_inv c" "conn_state c \<noteq> kConnecting"
  shows "\<exists>c'. sendInLoop w data c = Some c' \<and> conn_inv c'"
proof (cases "conn_state c = kDisconnected")
  case True
  then show ?thesis using assms by (simp add: sendInLoop_def)
next
  case False
  let ?c = "c\<lparr>accepted := accepted c @ data\<rparr>"
  obtain n c1 where d: "send_directly w data ?c = (n, c1)" by (cases "send_directly w data ?c")
  have s: "stream_ok (?c\<lparr>accepted := accepted c\<rparr>)" "isWriting (channel ?c) = (readable (output_buffer ?c) \<noteq> [])"
    "buf_ok (output_buffer ?c)" using assms False by (auto simp: conn_inv_def stream_ok_def)
  note D = send_directly_spec [OF d s]
  show ?thesis
  proof (cases "length data - n > 0")
    case True
    then have "drop n data \<noteq> []" by simp
    then obtain c' where c': "buffer_rest (drop n data) c1 = Some c'" "buf_ok (output_buffer c')"
      "readable (output_buffer c') = readable (output_buffer c1) @ drop n data" "isWriting (channel c')"
      "isReading (channel c') = isReading (channel c1)" "wire (effects c') = wire (effects c1)"
      "bytes_written c' = bytes_written c1" "conn_state c' = conn_state c1" "input_buffer c' = input_buffer c1"
      "max_input_buffer_size c' = max_input_buffer_size c1" "reading c' = reading c1" "accepted c' = accepted c1"
      using buffer_rest_spec [of c1 "drop n data"] D(7) s(3) by auto
    have "wire (effects c') @ readable (output_buffer c') = (wire (effects c1) @ readable (output_buffer c1)) @ drop n data"
      using c' by simp
    also have "\<dots> = accepted c @ data" unfolding D(2) by simp
    finally have "wire (effects c') @ readable (output_buffer c') = accepted c'" using c' D(11) by simp
    then have "conn_inv c'" using c' D assms False True by (auto simp: conn_inv_def stream_ok_def)
    then show ?thesis using d c'(1) False True by (simp add: sendInLoop_def)
  next
    case len: False
    then have n: "n = length data" using D(1) by simp
    have "conn_inv c1" using D assms False n by (auto simp: conn_inv_def stream_ok_def)
    then show ?thesis using d False len by (simp add: sendInLoop_def)
  qed
qed

text \<open>Draining the output; a completed drain leaves nothing to write.\<close>

lemma inv_handleWrite:
  assumes "conn_inv c" "conn_state c \<noteq> kConnecting"
  shows "\<exists>c'. handleWrite w c = Some c' \<and> conn_inv c'"
proof (cases "isWriting (channel c)")
  case True
  then have live: "conn_state c \<noteq> kDisconnected" "readable (output_buffer c) \<noteq> []" and ok: "buf_ok (output_buffer c)"
    using assms by (auto simp: conn_inv_def split: if_splits)
  show ?thesis
  proof (cases rule: kernel_write_cases [of w "readable (output_buffer c)" c])
    case 1
    then show ?thesis using True assms by (simp add: handleWrite_def)
  next
    case (2 k)
    let ?c1 = "emit (Written (take k (readable (output_buffer c)))) c"
    obtain b where b: "retrieve k (output_buffer c) = Some b" "buf_ok b" "readable b = drop k (readable (output_buffer c))"
      using retrieve_spec [OF ok 2(1)] by blast
    show ?thesis
    proof (cases "k = 0")
      case True
      then have "conn_inv ?c1" using assms by (auto simp: conn_inv_def stream_ok_def)
      then show ?thesis using 2(2) True \<open>isWriting (channel c)\<close> by (simp add: handleWrite_def)
    next
      case False
      define c2 where "c2 = ?c1\<lparr>bytes_written := bytes_written c + of_nat k, output_buffer := b\<rparr>"
      define c3 where "c3 = cancelWriteTimer (set_interest DisableWrite c2)"
      define c4 where "c4 = (if write_complete_callback c3 then emit WriteCompleteCb c3 else c3)"
      have s: "stream_ok c2" using assms b 2(1) by (auto simp: c2_def conn_inv_def stream_ok_def)
      have h: "handleWrite w c = Some (if readableBytes b = 0
          then if conn_state c4 = kDisconnecting then shutdownInLoop c4 else c4 else c2)"
        using 2(2) b(1) True False by (simp add: handleWrite_def Let_def flip: c2_def c3_def c4_def)
      show ?thesis
      proof (cases "readable b = []")
        case empty: True
        have "stream_ok c4" using s by (simp add: c4_def c3_def stream_ok_def)
        then have i: "conn_inv c4" using assms live b empty by (auto simp: c4_def c3_def c2_def conn_inv_def)
        then have "conn_inv (shutdownInLoop c4)" by (auto simp: shutdownInLoop_def conn_inv_def stream_ok_def)
        then show ?thesis using h i empty b(2) by (simp add: readableBytes_conv)
      next
        case rest: False
        then have "conn_inv c2" using s assms live b True by (auto simp: c2_def conn_inv_def)
        then show ?thesis using h rest b(2) by (simp add: readableBytes_conv)
      qed
    qed
  qed
next
  case False
  then show ?thesis using assms by (simp add: handleWrite_def)
qed

text \<open>Reading; the input bound is checked after the message callback took its share.\<close>

lemma inv_handleRead:
  assumes "conn_inv c" "conn_state c \<noteq> kConnecting"
  shows "\<exists>c'. handleRead r k c = Some c' \<and> conn_inv c'"
proof (cases r)
  case (IoError e)
  then show ?thesis using assms inv_handleClose [of c] by (simp add: handleRead_def readFd_def handleError_def conn_inv_def)
next
  case (IoData bs)
  obtain b where b: "readFd r (input_buffer c) = Some (int (length bs), None, b)" "buf_ok b"
    using readFd_spec [of "input_buffer c" bs] assms IoData by (auto simp: conn_inv_def)
  show ?thesis
  proof (cases "bs = []")
    case True
    then show ?thesis using assms b inv_handleClose [of "c\<lparr>input_buffer := b\<rparr>"]
      by (simp add: handleRead_def conn_inv_def stream_ok_def)
  next
    case False
    define c2 where "c2 = resetIdleTimer (c\<lparr>input_buffer := b, bytes_read := bytes_read c + of_nat (length bs)\<rparr>)"
    obtain b' where b': "retrieve (min k (readableBytes b)) b = Some b'" "buf_ok b'"
      using retrieve_spec [OF b(2), of "min k (readableBytes b)"] by (auto simp: readableBytes_conv [OF b(2)])
    define c3 where "c3 = (if message_callback c2 then emit (MessageCb (readable b)) (c2\<lparr>input_buffer := b'\<rparr>) else c2)"
    have f: "input_buffer c2 = b" by (simp add: c2_def)
    have ok: "buf_ok (input_buffer c3)" "buf_ok (output_buffer c3)" "stream_ok c3"
      using b(2) b'(2) assms by (auto simp: c3_def c2_def conn_inv_def stream_ok_def)
    have "handleRead r k c = Some (if max_input_buffer_size c3 > 0 \<and> readableBytes (input_buffer c3) > max_input_buffer_size c3
        then forceClose True c3 else c3)"
      using b(1) b'(1) False f by (simp add: handleRead_def c3_def Let_def flip: c2_def)
    moreover have g: "conn_state c3 = conn_state c" "channel c3 = channel c" "output_buffer c3 = output_buffer c"
      "max_input_buffer_size c3 = max_input_buffer_size c" "reading c3 = reading c"
      "write_timer_armed c3 = write_timer_armed c" "max_age_timer_armed c3 = max_age_timer_armed c"
      "conn_state c \<noteq> kConnected \<Longrightarrow> idle_timer_armed c3 = idle_timer_armed c"
      by (simp_all add: c3_def c2_def, simp add: resetIdleTimer_def)
    moreover have live: "conn_inv c3" if "\<not> (max_input_buffer_size c3 > 0 \<and> readableBytes (input_buffer c3) > max_input_buffer_size c3)"
      using that ok assms g by (auto simp: conn_inv_def readableBytes_conv)
    moreover have "conn_inv (forceClose True c3)"
    proof (cases "conn_state c3 = kDisconnected")
      case True
      then have "conn_inv c3" using ok assms g by (auto simp: conn_inv_def)
      then show ?thesis by (rule inv_forceClose)
    next
      case False
      then have "conn_state c3 = kConnected \<or> conn_state c3 = kDisconnecting"
        using assms(2) g(1) by (cases "conn_state c3") auto
      then have "forceClose True c3 = handleClose (c3\<lparr>conn_state := kDisconnecting\<rparr>)"
        by (simp add: forceClose_def forceCloseInLoop_def Let_def)
      then show ?thesis using inv_handleClose(1) [of "c3\<lparr>conn_state := kDisconnecting\<rparr>"] ok by (simp add: stream_ok_def)
    qed
    ultimately show ?thesis by auto
  qed
qed

lemma inv_shutdown: "conn_inv c \<Longrightarrow> conn_inv (shutdown in_loop c)"
  by (auto simp: shutdown_def shutdownInLoop_def post_def conn_inv_def stream_ok_def Let_def)

lemma inv_shutdownInLoop: "conn_inv c \<Longrightarrow> conn_inv (shutdownInLoop c)"
  by (auto simp: shutdownInLoop_def conn_inv_def stream_ok_def)

lemma inv_post: "conn_inv c \<Longrightarrow> (\<exists>s. t = SendTask s) \<longrightarrow> conn_state c \<noteq> kConnecting \<Longrightarrow> conn_inv (post t c)"
  by (auto simp: post_def conn_inv_def stream_ok_def)

lemma inv_timers:
  "conn_inv c \<Longrightarrow> conn_inv (idle_fired c)"
  "conn_inv c \<Longrightarrow> conn_inv (write_timer_fired c)"
  "conn_inv c \<Longrightarrow> conn_inv (max_age_fired c)"
proof -
  assume c: "conn_inv c"
  then have "conn_inv (c\<lparr>write_timer_armed := False\<rparr>)" "conn_inv (c\<lparr>max_age_timer_armed := False\<rparr>)"
    by (auto simp: conn_inv_def stream_ok_def)
  then show "conn_inv (idle_fired c)" "conn_inv (write_timer_fired c)" "conn_inv (max_age_fired c)"
    using c inv_forceClose by (simp_all add: idle_fired_def write_timer_fired_def max_age_fired_def Let_def)
qed

lemma state_handleClose [simp]: "conn_state (handleClose c) = kDisconnected"
  by (simp add: handleClose_def cancel_timers_def Let_def)

lemma state_handleWrite: "handleWrite w c = Some c' \<Longrightarrow> conn_state c' = conn_state c"
  by (auto simp: handleWrite_def kernel_write_def shutdownInLoop_def Let_def bind_eq_Some_conv split: write_result.splits if_splits)

lemma state_handleRead: "handleRead r k c = Some c' \<Longrightarrow> conn_state c' = conn_state c \<or> conn_state c' = kDisconnected"
  by (auto simp: handleRead_def handleError_def forceClose_def forceCloseInLoop_def Let_def bind_eq_Some_conv split: if_splits)

lemma inv_callbacks:
  assumes "conn_inv c" "conn_state c \<noteq> kConnecting"
  shows "\<exists>c'. run_callbacks r k w xs c = Some c' \<and> conn_inv c' \<and> conn_state c' \<noteq> kConnecting"
  using assms
proof (induction xs arbitrary: c)
  case (Cons x xs)
  have "\<exists>c'. run_callback r k w x c = Some c' \<and> conn_inv c' \<and> conn_state c' \<noteq> kConnecting"
  proof (cases x)
    case ReadCallback
    then show ?thesis using inv_handleRead [OF Cons.prems, of r k] state_handleRead [of r k c] Cons.prems(2) by auto
  next
    case WriteCallback
    then show ?thesis using inv_handleWrite [OF Cons.prems, of w] state_handleWrite [of w c] Cons.prems(2) by auto
  next
    case ErrorCallback
    then show ?thesis using inv_handleClose [of c] Cons.prems by (simp add: handleError_def conn_inv_def)
  qed
  then show ?case using Cons.IH by auto
qed simp

lemma inv_exec:
  assumes "conn_inv c"
  shows "\<exists>c'. conn_exec e c = Some c' \<and> conn_inv c'"
proof (cases e)
  case (Configure x)
  have "conn_inv (conn_configure x c)" if "conn_state c = kConnecting"
    using assms that by (cases x) (simp_all add: conn_inv_def stream_ok_def)
  then show ?thesis using assms Configure by simp
next
  case (Dispatch revs r k w)
  let ?c = "c\<lparr>channel := (channel c)\<lparr>ch_revents := revs\<rparr>\<rparr>"
  show ?thesis
  proof (cases "reportable revs c")
    case True
    then have "conn_state c \<noteq> kConnecting" "conn_inv ?c"
      using assms by (auto simp: reportable_def conn_inv_def stream_ok_def)
    then show ?thesis using inv_callbacks [of ?c r k w] Dispatch True by auto
  next
    case False
    then show ?thesis using assms Dispatch by simp
  qed
next
  case (Send in_loop data w)
  then show ?thesis using assms inv_sendInLoop [of c w data] inv_post [of c "SendTask data"]
    by (auto simp: send_def)
next
  case (RunPosted w)
  show ?thesis
  proof (cases "posted c")
    case (Cons t ts)
    let ?c = "c\<lparr>posted := ts\<rparr>"
    have i: "conn_inv ?c" "\<exists>s. t = SendTask s \<Longrightarrow> conn_state ?c \<noteq> kConnecting"
      using assms Cons by (auto simp: conn_inv_def stream_ok_def)
    then have "\<exists>c'. run_posted w t ?c = Some c' \<and> conn_inv c'"
      using inv_sendInLoop [of ?c w] inv_shutdownInLoop inv_forceCloseInLoop inv_reads by (cases t) auto
    then show ?thesis using RunPosted Cons by simp
  qed (use assms RunPosted in simp)
qed (use assms inv_established inv_destroyed inv_shutdown inv_forceClose inv_reads inv_timers inv_post in
    \<open>auto simp: stopRead_def startRead_def\<close>)

lemma inv_run: "conn_inv c \<Longrightarrow> \<exists>c'. conn_run es c = Some c' \<and> conn_inv c'"
proof (induction es arbitrary: c)
  case (Cons e es)
  obtain c' where "conn_exec e c = Some c'" "conn_inv c'" using inv_exec [OF Cons.prems] by blast
  then show ?case using Cons.IH by simp
qed simp

section \<open>Half-closes\<close>

definition half_closes :: "TcpConnection \<Rightarrow> nat" where
  "half_closes c = length (filter ((=) ShutdownWrite) (effects c))"

lemma half_closes_emit [simp]: "half_closes (emit e c) = half_closes c + (if e = ShutdownWrite then 1 else 0)"
  by (simp add: half_closes_def)

lemma half_closes_update [simp]:
  "half_closes (c\<lparr>conn_state := v1\<rparr>) = half_closes c" "half_closes (c\<lparr>channel := v2\<rparr>) = half_closes c"
  "half_closes (c\<lparr>registered := v3\<rparr>) = half_closes c" "half_closes (c\<lparr>input_buffer := v4\<rparr>) = half_closes c"
  "half_closes (c\<lparr>output_buffer := v4\<rparr>) = half_closes c" "half_closes (c\<lparr>bytes_read := v5\<rparr>) = half_closes c"
  "half_closes (c\<lparr>bytes_written := v5\<rparr>) = half_closes c" "half_closes (c\<lparr>reading := v3\<rparr>) = half_closes c"
  "half_closes (c\<lparr>idle_timer_armed := v3\<rparr>) = half_closes c" "half_closes (c\<lparr>write_timer_armed := v3\<rparr>) = half_closes c"
  "half_closes (c\<lparr>max_age_timer_armed := v3\<rparr>) = half_closes c" "half_closes (c\<lparr>posted := v6\<rparr>) = half_closes c"
  "half_closes (c\<lparr>accepted := v7\<rparr>) = half_closes c"
  by (simp_all add: half_closes_def)

lemma half_closes_ops [simp]:
  "half_closes (set_interest op c) = half_closes c" "half_closes (cancelIdleTimer c) = half_closes c"
  "half_closes (resetIdleTimer c) = half_closes c" "half_closes (armWriteTimer c) = half_closes c"
  "half_closes (cancelWriteTimer c) = half_closes c" "half_closes (armMaxAgeTimer c) = half_closes c"
  "half_closes (cancelMaxAgeTimer c) = half_closes c" "half_closes (notify_connection c) = half_closes c"
  by (simp_all add: set_interest_def cancelIdleTimer_def resetIdleTimer_def armWriteTimer_def cancelWriteTimer_def
      armMaxAgeTimer_def cancelMaxAgeTimer_def notify_connection_def Let_def)

lemma half_closes_handlers [simp]:
  "half_closes (handleClose c) = half_closes c" "half_closes (handleError c) = half_closes c"
  "half_closes (forceCloseInLoop c) = half_closes c" "half_closes (post t c) = half_closes c"
  "half_closes (forceClose in_loop c) = half_closes c" "half_closes (connectEstablished c) = half_closes c"
  "half_closes (connectDestroyed c) = half_closes c" "half_closes (stopReadInLoop c) = half_closes c"
  "half_closes (startReadInLoop c) = half_closes c"
  by (simp_all add: handleClose_def handleError_def forceCloseInLoop_def post_def forceClose_def connectEstablished_def
      connectDestroyed_def stopReadInLoop_def startReadInLoop_def cancel_timers_def Let_def)

lemma half_closes_send:
  assumes "sendInLoop w data c = Some c'"
  shows "half_closes c' = half_closes c"
proof -
  have d: "half_closes (snd (send_directly w data x)) = half_closes x" for x
    by (auto simp: send_directly_def kernel_write_def Let_def split: write_result.splits prod.splits)
  have "half_closes y' = half_closes y" if "buffer_rest rest y = Some y'" for rest y y'
    using that by (auto simp: buffer_rest_def Let_def bind_eq_Some_conv split: if_splits)
  then show ?thesis using assms d [of "c\<lparr>accepted := accepted c @ data\<rparr>"]
    by (auto simp: sendInLoop_def Let_def split: if_splits prod.splits)
qed

lemma half_closes_read: "handleRead r k c = Some c' \<Longrightarrow> half_closes c' = half_closes c"
  by (auto simp: handleRead_def Let_def bind_eq_Some_conv split: if_splits)

text \<open>Only \<^verbatim>\<open>shutdownInLoop\<close> half-closes, and only while nothing waits to be written.\<close>

lemma shutdownInLoop_flushed: "half_closes (shutdownInLoop c) \<noteq> half_closes c \<Longrightarrow> \<not> isWriting (channel (shutdownInLoop c))"
  by (simp add: shutdownInLoop_def split: if_splits)

lemma handleWrite_flushed:
  assumes "handleWrite w c = Some c'" "half_closes c' \<noteq> half_closes c"
  shows "\<not> isWriting (channel c')"
proof -
  have k: "half_closes (snd (kernel_write w data x)) = half_closes x" for data x
    by (simp add: kernel_write_def split: write_result.split)
  show ?thesis using assms k [of "readable (output_buffer c)" c]
    by (auto simp: handleWrite_def Let_def bind_eq_Some_conv shutdownInLoop_def split: if_splits prod.splits)
qed

lemma run_callbacks_append: "run_callbacks r k w (xs @ ys) c = Option.bind (run_callbacks r k w xs c) (run_callbacks r k w ys)"
proof (induction xs arbitrary: c)
  case (Cons x xs)
  then show ?case by (cases "run_callback r k w x c") simp_all
qed simp

lemma half_closes_callbacks:
  "WriteCallback \<notin> set xs \<Longrightarrow> run_callbacks r k w xs c = Some c' \<Longrightarrow> half_closes c' = half_closes c"
proof (induction xs arbitrary: c)
  case (Cons x xs)
  then obtain c1 where "run_callback r k w x c = Some c1" "run_callbacks r k w xs c1 = Some c'"
    by (auto simp: bind_eq_Some_conv)
  moreover have "half_closes c1 = half_closes c"
    using calculation(1) Cons.prems(1) half_closes_read by (cases x) auto
  ultimately show ?case using Cons.IH Cons.prems(1) by auto
qed simp

lemma dispatch_flushed:
  assumes "run_callbacks r k w (handleEvents True ch) c = Some c'" "half_closes c' \<noteq> half_closes c"
  shows "\<not> isWriting (channel c')"
proof -
  obtain xs ys where xs: "handleEvents True ch = xs @ ys" "WriteCallback \<notin> set xs" "ys = [] \<or> ys = [WriteCallback]"
    by (rule that [of "(if ch_revents ch AND IO_ERROR \<noteq> 0 \<and> errorCallback ch then [ErrorCallback] else []) @
        (if ch_revents ch AND IO_READ \<noteq> 0 \<and> readCallback ch then [ReadCallback] else [])"])
       (auto simp: handleEvents_def handleEventsGuarded_def)
  obtain c1 where c1: "run_callbacks r k w xs c = Some c1" "run_callbacks r k w ys c1 = Some c'"
    using assms(1) xs(1) by (auto simp: run_callbacks_append bind_eq_Some_conv)
  have "half_closes c1 = half_closes c" using half_closes_callbacks [OF xs(2) c1(1)] .
  then show ?thesis using xs(3) c1(2) assms(2) handleWrite_flushed by (auto simp: bind_eq_Some_conv)
qed

lemma exec_flushed:
  assumes "conn_exec e c = Some c'" "half_closes c' \<noteq> half_closes c"
  shows "\<not> isWriting (channel c')"
proof (cases e)
  case (Configure x)
  then show ?thesis using assms by (cases x) (auto simp: half_closes_def split: if_splits)
next
  case (Dispatch revs r k w)
  then show ?thesis using assms dispatch_flushed by (auto split: if_splits)
next
  case (Send in_loop data w)
  then show ?thesis using assms half_closes_send by (auto simp: send_def split: if_splits)
next
  case (Shutdown in_loop)
  then show ?thesis using assms shutdownInLoop_flushed by (auto simp: shutdown_def Let_def split: if_splits)
next
  case (RunPosted w)
  show ?thesis
  proof (cases "posted c")
    case (Cons t ts)
    then show ?thesis using assms RunPosted half_closes_send shutdownInLoop_flushed by (cases t) auto
  qed (use assms RunPosted in simp)
qed (use assms in \<open>auto simp: stopRead_def startRead_def idle_fired_def write_timer_fired_def max_age_fired_def Let_def split: if_splits\<close>)

section \<open>Properties\<close>

lemma byte_stream_lemma: "\<exists>c. conn_run es (TcpConnection_new fd) = Some c \<and> conn_inv c"
  using inv_run [OF conn_inv_new] by blast




text \<open>
  What a connection may hold. At every moment of every run, an open connection with an input limit buffers
  no more unread input than the limit; writability is watched exactly while output is pending; and a
  disconnected connection has no interest and no timer left, so nothing keeps it alive or wakes it.
\<close>

theorem connection_resources_bounded:
  "\<exists>c. conn_run es (TcpConnection_new fd) = Some c \<and>
       (if conn_state c = kDisconnected
        then \<not> isReading (channel c) \<and> \<not> isWriting (channel c) \<and>
             \<not> idle_timer_armed c \<and> \<not> write_timer_armed c \<and> \<not> max_age_timer_armed c
        else (max_input_buffer_size c = 0 \<or> length (readable (input_buffer c)) \<le> max_input_buffer_size c) \<and>
             isWriting (channel c) = (outputBufferPending c > 0))"
proof -
  obtain c where c: "conn_run es (TcpConnection_new fd) = Some c" "conn_inv c"
    using byte_stream_lemma by blast
  have "outputBufferPending c = length (readable (output_buffer c))"
    using c(2) by (simp add: conn_inv_def outputBufferPending_def readableBytes_conv)
  then show ?thesis using c by (auto simp: conn_inv_def)
qed

text \<open>How often an effect has occurred.\<close>

definition occurs :: "conn_effect \<Rightarrow> TcpConnection \<Rightarrow> nat" where
  "occurs x c = length (filter ((=) x) (effects c))"

lemma handleClose_notifies:
  assumes "connection_callback c" "close_callback c" "x = ConnectionCb kDisconnected \<or> x = CloseCb"
  shows "occurs x (handleClose c) = occurs x c + 1"
  using assms by (auto simp: occurs_def handleClose_def cancel_timers_def cancelIdleTimer_def cancelWriteTimer_def
      cancelMaxAgeTimer_def set_interest_def notify_connection_def emit_def Let_def)

lemma error_event:
  assumes "registered c" "errorCallback (channel c)" "connection_callback c" "close_callback c"
  obtains c' where "conn_exec (Dispatch IO_ERROR r k w) c = Some c'" "registered c'" "errorCallback (channel c')"
    "connection_callback c'" "close_callback c'"
    "occurs (ConnectionCb kDisconnected) c' = occurs (ConnectionCb kDisconnected) c + 1" "occurs CloseCb c' = occurs CloseCb c + 1"
proof -
  let ?c = "c\<lparr>channel := (channel c)\<lparr>ch_revents := IO_ERROR\<rparr>\<rparr>"
  have f: "registered (handleClose ?c)" "errorCallback (channel (handleClose ?c))" "connection_callback (handleClose ?c)"
    "close_callback (handleClose ?c)" using assms by (simp_all add: handleClose_def cancel_timers_def Let_def)
  have "conn_exec (Dispatch IO_ERROR r k w) c = Some (handleClose ?c)"
    using assms by (simp add: reportable_def handleEvents_def handleEventsGuarded_def handleError_def
        IO_ERROR_def IO_READ_def IO_WRITE_def)
  moreover have "occurs x ?c = occurs x c" for x by (simp add: occurs_def)
  ultimately show ?thesis using that [OF _ f] handleClose_notifies [of ?c] assms by simp
qed

lemma error_events:
  assumes "registered c" "errorCallback (channel c)" "connection_callback c" "close_callback c"
  shows "\<exists>c'. conn_run (replicate n (Dispatch IO_ERROR r k w)) c = Some c' \<and>
     occurs (ConnectionCb kDisconnected) c' = occurs (ConnectionCb kDisconnected) c + n \<and> occurs CloseCb c' = occurs CloseCb c + n"
  using assms
proof (induction n arbitrary: c)
  case (Suc n)
  obtain c1 where c1: "conn_exec (Dispatch IO_ERROR r k w) c = Some c1" "registered c1" "errorCallback (channel c1)"
    "connection_callback c1" "close_callback c1"
    "occurs (ConnectionCb kDisconnected) c1 = occurs (ConnectionCb kDisconnected) c + 1" "occurs CloseCb c1 = occurs CloseCb c + 1"
    using error_event [OF Suc.prems] by blast
  then show ?case using Suc.IH [OF c1(2-5)] by auto
qed simp

text \<open>
  Closing is not guarded by the state. Each error event reported for a connection that is still registered
  runs the disconnect callback and the close callback again: \<open>n\<close> hang-up events before the owner removes
  the channel give \<open>n\<close> disconnect and \<open>n\<close> close notifications.
\<close>

theorem close_notified_per_error_event:
  "\<exists>c. conn_run ([Configure SetConnectionCallback, Configure SetCloseCallback, Established] @
                 replicate n (Dispatch IO_ERROR r k w)) (TcpConnection_new fd) = Some c \<and>
       occurs (ConnectionCb kDisconnected) c = n \<and> occurs CloseCb c = n"
proof -
  obtain c where c: "conn_run [Configure SetConnectionCallback, Configure SetCloseCallback, Established] (TcpConnection_new fd) = Some c"
    using byte_stream_lemma by blast
  then have f: "registered c" "errorCallback (channel c)" "connection_callback c" "close_callback c"
    "occurs (ConnectionCb kDisconnected) c = 0" "occurs CloseCb c = 0"
    by (auto simp: TcpConnection_new_def connectEstablished_def set_interest_def notify_connection_def resetIdleTimer_def
        armMaxAgeTimer_def emit_def occurs_def Channel_new_def tie_def Let_def)
  then show ?thesis using c error_events [OF f(1-4), of n r k w] by (auto simp: bind_eq_Some_conv)
qed

end
