(* ===== verification/Net_Connector.thy ===== *)
theory Net_Connector
  imports Flow_Backoff "HOL-Library.Multiset"
begin

text \<open>
  The connector, \<^verbatim>\<open>net/connector.h\<close> and \<^verbatim>\<open>net/connector.cc\<close>: it walks a list of candidate addresses, fails over to the
  next at once, backs off when the list is exhausted, and hands a connected socket over. Results of system
  calls are parameters of the events. The theory shows that every socket is closed or handed over
  exactly once and that no freed channel stays registered, as long as the connector is started when it is idle;
  the order of the walk; and that stopping and starting in one go destroys the channel of the new attempt.
\<close>

section \<open>State\<close>

datatype cn_state = kDisconnected | kConnecting | kConnected

text \<open>Tasks queued on the loop: destroy the channel, or try the current candidate.\<close>

datatype cn_task = ResetChannel | TryCandidate

datatype cn_effect =
    OpenSocket int string
  | CloseSocket int
  | HandOver int
  | ArmConnectTimer nat
  | CancelConnectTimer
  | ArmRetryTimer int
  | CancelRetryTimer

text \<open>
  Of the channel the descriptor is kept; \<open>watched\<close> are the descriptors whose channels the poller holds a pointer to.
\<close>

record Connector =
  candidates :: "string list"
  current :: nat
  backoff_key :: string
  connect_flag :: bool
  cn_state :: cn_state
  cn_channel :: "int option"
  new_connection_callback :: bool
  backoff :: Backoff
  retry_timer_armed :: bool
  connect_timeout_ms :: nat
  connect_timer_armed :: bool
  cn_queue :: "cn_task list"
  watched :: "int set"
  cn_effects :: "cn_effect list"

definition kInitRetryDelayMs :: int where "kInitRetryDelayMs = 500"
definition kMaxRetryDelayMs :: int where "kMaxRetryDelayMs = 30 * 1000"
definition kConnectTimeoutMs :: nat where "kConnectTimeoutMs = 1000"

definition Connector_new :: "string list \<Rightarrow> int \<Rightarrow> Connector" where
  "Connector_new addrs now =
     \<lparr>candidates = addrs, current = 0, backoff_key = (if addrs = [] then [] else hd addrs), connect_flag = False,
      cn_state = kDisconnected, cn_channel = None, new_connection_callback = False,
      backoff = Backoff_new kInitRetryDelayMs kMaxRetryDelayMs (1 / 2) now,
      retry_timer_armed = False, connect_timeout_ms = kConnectTimeoutMs, connect_timer_armed = False,
      cn_queue = [], watched = {}, cn_effects = []\<rparr>"

definition setNewConnectionCallback :: "Connector \<Rightarrow> Connector" where
  "setNewConnectionCallback c = c\<lparr>new_connection_callback := True\<rparr>"

definition cn_emit :: "cn_effect \<Rightarrow> Connector \<Rightarrow> Connector" where
  "cn_emit e c = c\<lparr>cn_effects := cn_effects c @ [e]\<rparr>"

section \<open>Operations\<close>

definition armConnectTimeout :: "Connector \<Rightarrow> Connector" where
  "armConnectTimeout c = cn_emit (ArmConnectTimer (connect_timeout_ms c)) (c\<lparr>connect_timer_armed := True\<rparr>)"

definition cancelConnectTimeout :: "Connector \<Rightarrow> Connector" where
  "cancelConnectTimeout c =
     (if connect_timer_armed c then cn_emit CancelConnectTimer (c\<lparr>connect_timer_armed := False\<rparr>) else c)"

text \<open>Assigning \<^verbatim>\<open>channel_\<close> frees the channel it held.\<close>

definition connecting :: "int \<Rightarrow> Connector \<Rightarrow> Connector" where
  "connecting sockfd c =
     armConnectTimeout (c\<lparr>cn_state := kConnecting, cn_channel := Some sockfd, watched := insert sockfd (watched c)\<rparr>)"

text \<open>\<^verbatim>\<open>removeAndResetChannel\<close>; \<open>None\<close> when there is no channel.\<close>

definition removeAndResetChannel :: "Connector \<Rightarrow> (int \<times> Connector) option" where
  "removeAndResetChannel c =
     (case cn_channel c of
        None \<Rightarrow> None
      | Some sockfd \<Rightarrow> Some (sockfd, c\<lparr>watched := watched c - {sockfd}, cn_queue := cn_queue c @ [ResetChannel]\<rparr>))"

definition resetChannel :: "Connector \<Rightarrow> Connector" where
  "resetChannel c = c\<lparr>cn_channel := None\<rparr>"

definition retry :: "(real \<Rightarrow> real) \<Rightarrow> int \<Rightarrow> int \<Rightarrow> Connector \<Rightarrow> Connector option" where
  "retry rnd now sockfd c =
     (let c1 = (cn_emit (CloseSocket sockfd) c)\<lparr>cn_state := kDisconnected\<rparr>
      in if \<not> connect_flag c1 then Some c1
         else if current c1 + 1 < length (candidates c1)
         then Some (c1\<lparr>current := current c1 + 1, cn_queue := cn_queue c1 @ [TryCandidate]\<rparr>)
         else do {
           (delay, bo) \<leftarrow> nextDelay rnd (backoff_key c1) now (backoff c1);
           Some (cn_emit (ArmRetryTimer delay) (c1\<lparr>current := 0, backoff := bo, retry_timer_armed := True\<rparr>))
         })"

text \<open>The error numbers \<^verbatim>\<open>connect\<close> tells apart.\<close>

datatype cn_errno =
    NoError | EINPROGRESS | EINTR | EISCONN
  | EAGAIN | EADDRINUSE | EADDRNOTAVAIL | ECONNREFUSED | ENETUNREACH | EAFNOSUPPORT | ENOENT | ECONNRESET
  | OtherErrno nat

fun in_progress :: "cn_errno \<Rightarrow> bool" where
  "in_progress NoError = True"
| "in_progress EINPROGRESS = True"
| "in_progress EINTR = True"
| "in_progress EISCONN = True"
| "in_progress _ = False"

fun retryable :: "cn_errno \<Rightarrow> bool" where
  "retryable EAGAIN = True"
| "retryable EADDRINUSE = True"
| "retryable EADDRNOTAVAIL = True"
| "retryable ECONNREFUSED = True"
| "retryable ENETUNREACH = True"
| "retryable EAFNOSUPPORT = True"
| "retryable ENOENT = True"
| "retryable ECONNRESET = True"
| "retryable _ = False"

text \<open>\<^verbatim>\<open>connect\<close>: the new socket and the error number of the attempt are given; \<open>None\<close> when there is no candidate.\<close>

definition connect :: "(real \<Rightarrow> real) \<Rightarrow> int \<Rightarrow> int \<times> cn_errno \<Rightarrow> Connector \<Rightarrow> Connector option" where
  "connect rnd now att c =
     (if \<not> current c < length (candidates c) then None
      else let (sockfd, err) = att;
               c1 = cn_emit (OpenSocket sockfd (candidates c ! current c)) c
           in if in_progress err then Some (connecting sockfd c1)
              else if retryable err then retry rnd now sockfd c1
              else Some (cn_emit (CloseSocket sockfd) c1))"

definition start_flag :: "Connector \<Rightarrow> Connector" where
  "start_flag c = c\<lparr>connect_flag := True\<rparr>"

definition startInLoop :: "(real \<Rightarrow> real) \<Rightarrow> int \<Rightarrow> int \<times> cn_errno \<Rightarrow> Connector \<Rightarrow> Connector option" where
  "startInLoop rnd now att c = (if connect_flag c then connect rnd now att c else Some c)"

definition stop_flag :: "Connector \<Rightarrow> Connector" where
  "stop_flag c = c\<lparr>connect_flag := False\<rparr>"

definition stopInLoop :: "Connector \<Rightarrow> Connector option" where
  "stopInLoop c =
     (let c1 = cancelConnectTimeout c;
          c2 = (if retry_timer_armed c1 then cn_emit CancelRetryTimer (c1\<lparr>retry_timer_armed := False\<rparr>) else c1)
      in if cn_state c2 = kConnecting
         then do {
           (sockfd, c3) \<leftarrow> removeAndResetChannel c2;
           Some ((cn_emit (CloseSocket sockfd) c3)\<lparr>cn_state := kDisconnected\<rparr>)
         }
         else Some c2)"

definition restart :: "(real \<Rightarrow> real) \<Rightarrow> int \<Rightarrow> int \<times> cn_errno \<Rightarrow> Connector \<Rightarrow> Connector option" where
  "restart rnd now att c =
     startInLoop rnd now att
       (c\<lparr>cn_state := kDisconnected, backoff := bo_reset (backoff_key c) (backoff c), current := 0, connect_flag := True\<rparr>)"

definition cn_handleWrite :: "(real \<Rightarrow> real) \<Rightarrow> int \<Rightarrow> nat \<Rightarrow> bool \<Rightarrow> Connector \<Rightarrow> Connector option" where
  "cn_handleWrite rnd now so_error self_connect c =
     (if cn_state c \<noteq> kConnecting then Some c
      else do {
        (sockfd, c1) \<leftarrow> removeAndResetChannel (cancelConnectTimeout c);
        if so_error \<noteq> 0 then retry rnd now sockfd c1
        else if self_connect then retry rnd now sockfd c1
        else let c2 = c1\<lparr>cn_state := kConnected\<rparr>
             in Some (cn_emit (if connect_flag c2 \<and> new_connection_callback c2 then HandOver sockfd else CloseSocket sockfd) c2)
      })"

definition cn_handleError :: "(real \<Rightarrow> real) \<Rightarrow> int \<Rightarrow> Connector \<Rightarrow> Connector option" where
  "cn_handleError rnd now c =
     (if cn_state c = kConnecting
      then do { (sockfd, c1) \<leftarrow> removeAndResetChannel (cancelConnectTimeout c); retry rnd now sockfd c1 }
      else Some c)"

definition onConnectTimeout :: "(real \<Rightarrow> real) \<Rightarrow> int \<Rightarrow> Connector \<Rightarrow> Connector option" where
  "onConnectTimeout rnd now c =
     (if cn_state c \<noteq> kConnecting then Some c
      else do { (sockfd, c1) \<leftarrow> removeAndResetChannel c; retry rnd now sockfd c1 })"

section \<open>Events\<close>

text \<open>
  \<^verbatim>\<open>start\<close> and \<^verbatim>\<open>stop\<close> set the flag in the calling thread and run their second part in the loop. Each attempt to
  connect gets the descriptor of its socket and the error number.
\<close>

datatype cn_event =
    StartFlag
  | StartInLoop "int \<times> cn_errno"
  | StopFlag
  | StopInLoop
  | Restart "int \<times> cn_errno"
  | Writable nat bool
  | ErrorEvent
  | ConnectTimer
  | RetryTimer "int \<times> cn_errno"
  | RunQueued "int \<times> cn_errno"

text \<open>Timers fire when armed, and the poller reports only a channel that is registered.\<close>

fun cn_exec :: "(real \<Rightarrow> real) \<Rightarrow> int \<Rightarrow> cn_event \<Rightarrow> Connector \<Rightarrow> Connector option" where
  "cn_exec rnd now StartFlag c = Some (start_flag c)"
| "cn_exec rnd now (StartInLoop att) c = startInLoop rnd now att c"
| "cn_exec rnd now StopFlag c = Some (stop_flag c)"
| "cn_exec rnd now StopInLoop c = stopInLoop c"
| "cn_exec rnd now (Restart att) c = restart rnd now att c"
| "cn_exec rnd now (Writable so_error self_connect) c =
     (if watched c \<noteq> {} then cn_handleWrite rnd now so_error self_connect c else Some c)"
| "cn_exec rnd now ErrorEvent c = (if watched c \<noteq> {} then cn_handleError rnd now c else Some c)"
| "cn_exec rnd now ConnectTimer c =
     (if connect_timer_armed c then onConnectTimeout rnd now (c\<lparr>connect_timer_armed := False\<rparr>) else Some c)"
| "cn_exec rnd now (RetryTimer att) c =
     (if retry_timer_armed c then startInLoop rnd now att (c\<lparr>retry_timer_armed := False\<rparr>) else Some c)"
| "cn_exec rnd now (RunQueued att) c =
     (case cn_queue c of
        [] \<Rightarrow> Some c
      | ResetChannel # q \<Rightarrow> Some (resetChannel (c\<lparr>cn_queue := q\<rparr>))
      | TryCandidate # q \<Rightarrow> startInLoop rnd now att (c\<lparr>cn_queue := q\<rparr>))"

fun cn_run :: "(real \<Rightarrow> real) \<Rightarrow> (int \<times> cn_event) list \<Rightarrow> Connector \<Rightarrow> Connector option" where
  "cn_run rnd [] c = Some c"
| "cn_run rnd ((now, e) # es) c = Option.bind (cn_exec rnd now e c) (cn_run rnd es)"

section \<open>Accounting of sockets\<close>

fun opened_fd :: "cn_effect \<Rightarrow> int list" where
  "opened_fd (OpenSocket fd _) = [fd]"
| "opened_fd _ = []"

fun closed_fd :: "cn_effect \<Rightarrow> int list" where
  "closed_fd (CloseSocket fd) = [fd]"
| "closed_fd _ = []"

fun handed_fd :: "cn_effect \<Rightarrow> int list" where
  "handed_fd (HandOver fd) = [fd]"
| "handed_fd _ = []"

definition opened :: "Connector \<Rightarrow> int list" where "opened c = concat (map opened_fd (cn_effects c))"
definition closed_fds :: "Connector \<Rightarrow> int list" where "closed_fds c = concat (map closed_fd (cn_effects c))"
definition handed_over :: "Connector \<Rightarrow> int list" where "handed_over c = concat (map handed_fd (cn_effects c))"

text \<open>Every socket opened was closed, handed over, or is one of \<open>X\<close>.\<close>

definition accounted :: "int multiset \<Rightarrow> Connector \<Rightarrow> bool" where
  "accounted X c = (mset (opened c) = mset (closed_fds c) + mset (handed_over c) + X)"

definition backoff_ok :: "Backoff \<Rightarrow> bool" where
  "backoff_ok bo =
     (\<exists>f. counted f \<and> config kInitRetryDelayMs kMaxRetryDelayMs bo \<and> entries bo = entries_of kInitRetryDelayMs kMaxRetryDelayMs f)"

definition cn_base :: "Connector \<Rightarrow> bool" where
  "cn_base c = (current c < length (candidates c) \<and> backoff_ok (backoff c))"

text \<open>No attempt is under way and nothing of the last one is registered; \<open>q\<close> tasks are queued.\<close>

definition at_rest :: "cn_task list \<Rightarrow> Connector \<Rightarrow> bool" where
  "at_rest q c = (cn_base c \<and> accounted {#} c \<and> watched c = {} \<and> \<not> connect_timer_armed c \<and> cn_state c \<noteq> kConnecting \<and> cn_queue c = q)"

definition cn_inv :: "Connector \<Rightarrow> bool" where
  "cn_inv c =
     (if cn_state c = kConnecting
      then cn_base c \<and> (\<exists>fd. cn_channel c = Some fd \<and> watched c = {fd} \<and> accounted {#fd#} c) \<and>
           connect_timer_armed c \<and> \<not> retry_timer_armed c \<and> cn_queue c = []
      else (at_rest [] c \<or> at_rest [ResetChannel] c) \<or>
           (at_rest [TryCandidate] c \<or> at_rest [ResetChannel, TryCandidate] c) \<and> \<not> retry_timer_armed c)"

lemma emit_fields [simp]:
  "candidates (cn_emit e c) = candidates c" "current (cn_emit e c) = current c" "backoff_key (cn_emit e c) = backoff_key c"
  "connect_flag (cn_emit e c) = connect_flag c" "cn_state (cn_emit e c) = cn_state c" "cn_channel (cn_emit e c) = cn_channel c"
  "new_connection_callback (cn_emit e c) = new_connection_callback c" "backoff (cn_emit e c) = backoff c"
  "retry_timer_armed (cn_emit e c) = retry_timer_armed c" "connect_timer_armed (cn_emit e c) = connect_timer_armed c"
  "cn_queue (cn_emit e c) = cn_queue c" "watched (cn_emit e c) = watched c" "cn_effects (cn_emit e c) = cn_effects c @ [e]"
  by (simp_all add: cn_emit_def)

lemma accounted_emit [simp]:
  "accounted X (cn_emit (OpenSocket fd a) c) = (mset (opened c) + {#fd#} = mset (closed_fds c) + mset (handed_over c) + X)"
  "accounted X (cn_emit (CloseSocket fd) c) = accounted (X + {#fd#}) c"
  "accounted X (cn_emit (HandOver fd) c) = accounted (X + {#fd#}) c"
  "accounted X (cn_emit (ArmConnectTimer n) c) = accounted X c" "accounted X (cn_emit CancelConnectTimer c) = accounted X c"
  "accounted X (cn_emit (ArmRetryTimer d) c) = accounted X c" "accounted X (cn_emit CancelRetryTimer c) = accounted X c"
  by (auto simp: accounted_def opened_def closed_fds_def handed_over_def)

lemma accounted_open: "accounted X c \<Longrightarrow> accounted (X + {#fd#}) (cn_emit (OpenSocket fd a) c)"
  by (subst accounted_emit(1)) (simp add: accounted_def)

lemma accounted_update [simp]:
  "accounted X (c\<lparr>current := v1\<rparr>) = accounted X c" "accounted X (c\<lparr>connect_flag := v2\<rparr>) = accounted X c"
  "accounted X (c\<lparr>cn_state := v3\<rparr>) = accounted X c" "accounted X (c\<lparr>cn_channel := v4\<rparr>) = accounted X c"
  "accounted X (c\<lparr>backoff := v5\<rparr>) = accounted X c" "accounted X (c\<lparr>retry_timer_armed := v2\<rparr>) = accounted X c"
  "accounted X (c\<lparr>connect_timer_armed := v2\<rparr>) = accounted X c" "accounted X (c\<lparr>cn_queue := v6\<rparr>) = accounted X c"
  "accounted X (c\<lparr>watched := v7\<rparr>) = accounted X c"
  by (simp_all add: accounted_def opened_def closed_fds_def handed_over_def)

lemma backoff_next:
  assumes "backoff_ok bo"
  shows "\<exists>d bo'. nextDelay rnd key now bo = Some (d, bo') \<and> backoff_ok bo'"
proof -
  have l: "0 < kInitRetryDelayMs" "kInitRetryDelayMs \<le> kMaxRetryDelayMs" "kMaxRetryDelayMs < 2 ^ 62"
    by (simp_all add: kInitRetryDelayMs_def kMaxRetryDelayMs_def)
  obtain f where f: "counted f" "config kInitRetryDelayMs kMaxRetryDelayMs bo"
    "entries bo = entries_of kInitRetryDelayMs kMaxRetryDelayMs f" using assms by (auto simp: backoff_ok_def)
  have "counted (record_failure key now f)" using counted_exec [OF f(1), of "BoNext key now"] by simp
  then show ?thesis using failure_step(2) [OF l f, of rnd key now] by (fastforce simp: backoff_ok_def)
qed

lemma backoff_reset_ok: "backoff_ok bo \<Longrightarrow> backoff_ok (bo_reset key bo)"
proof -
  assume "backoff_ok bo"
  then obtain f where f: "counted f" "config kInitRetryDelayMs kMaxRetryDelayMs bo"
    "entries bo = entries_of kInitRetryDelayMs kMaxRetryDelayMs f" by (auto simp: backoff_ok_def)
  have "entries (bo_reset key bo) = entries_of kInitRetryDelayMs kMaxRetryDelayMs (f(key := None))"
    by (rule ext) (simp add: bo_reset_def f(3) entries_of_def)
  moreover have "counted (f(key := None))" using f(1) by (simp add: counted_def)
  ultimately show ?thesis using f(2) by (auto simp: backoff_ok_def bo_reset_def config_def)
qed

text \<open>A failed attempt closes its socket and leaves the connector at rest, with the next attempt queued, timed or dropped.\<close>

lemma retry_inv:
  assumes "cn_base c" "accounted {#fd#} c" "watched c = {}" "\<not> connect_timer_armed c" "\<not> retry_timer_armed c"
    "cn_queue c = [] \<or> cn_queue c = [ResetChannel]"
  shows "\<exists>c'. retry rnd now fd c = Some c' \<and> cn_inv c'"
proof -
  obtain d bo where b: "nextDelay rnd (backoff_key c) now (backoff c) = Some (d, bo)" "backoff_ok bo"
    using backoff_next [of "backoff c"] assms(1) unfolding cn_base_def by blast
  show ?thesis using assms b by (auto simp: retry_def Let_def cn_inv_def at_rest_def cn_base_def)
qed

lemma connect_inv:
  assumes "at_rest [] c" "\<not> retry_timer_armed c"
  shows "\<exists>c'. connect rnd now att c = Some c' \<and> cn_inv c'"
proof -
  obtain fd err where att: "att = (fd, err)" by (cases att)
  let ?c = "cn_emit (OpenSocket fd (candidates c ! current c)) c"
  have 1: "cn_base ?c" "accounted {#fd#} ?c" "watched ?c = {}" "\<not> connect_timer_armed ?c" "\<not> retry_timer_armed ?c" "cn_queue ?c = []"
    using assms accounted_open [of "{#}" c fd] by (auto simp: at_rest_def cn_base_def simp del: accounted_emit)
  have "cn_inv (connecting fd ?c)"
    using 1 by (simp add: connecting_def armConnectTimeout_def cn_inv_def cn_base_def del: accounted_emit(1))
  moreover have "cn_inv (cn_emit (CloseSocket fd) ?c)"
    using 1 assms by (simp add: cn_inv_def at_rest_def cn_base_def del: accounted_emit(1))
  ultimately show ?thesis using assms(1) retry_inv [OF 1(1-5) disjI1 [OF 1(6)], of rnd now]
    by (auto simp: connect_def att at_rest_def cn_base_def Let_def)
qed

lemma cn_inv_flag [simp]: "cn_inv (c\<lparr>connect_flag := b\<rparr>) = cn_inv c"
  by (simp add: cn_inv_def at_rest_def cn_base_def)

lemma startInLoop_inv:
  assumes "at_rest [] c" "\<not> retry_timer_armed c"
  shows "\<exists>c'. startInLoop rnd now att c = Some c' \<and> cn_inv c'"
proof (cases "connect_flag c")
  case True
  then show ?thesis using connect_inv [OF assms] by (simp add: startInLoop_def)
next
  case False
  then show ?thesis using assms by (simp add: startInLoop_def cn_inv_def at_rest_def)
qed

text \<open>Giving up the attempt under way: its channel is unregistered and its socket is the one to account for.\<close>

definition abandoned :: "int \<Rightarrow> Connector \<Rightarrow> bool" where
  "abandoned fd c =
     (cn_base c \<and> accounted {#fd#} c \<and> watched c = {} \<and> \<not> connect_timer_armed c \<and> \<not> retry_timer_armed c \<and>
      cn_queue c = [ResetChannel] \<and> cn_state c = kConnecting)"

lemma abandon_attempt:
  assumes "cn_inv c" "cn_state c = kConnecting" "c1 = cancelConnectTimeout c \<or> c1 = c\<lparr>connect_timer_armed := False\<rparr>"
  obtains fd c2 where "removeAndResetChannel c1 = Some (fd, c2)" "abandoned fd c2"
proof -
  obtain fd where fd: "cn_channel c = Some fd" "watched c = {fd}" "accounted {#fd#} c" "current c < length (candidates c)"
    "backoff_ok (backoff c)" "cn_queue c = []" "\<not> retry_timer_armed c" "connect_timer_armed c"
    using assms(1,2) unfolding cn_inv_def cn_base_def by auto
  have c1: "cn_channel c1 = Some fd" "watched c1 = {fd}" "accounted {#fd#} c1" "cn_base c1" "cn_queue c1 = []"
    "\<not> retry_timer_armed c1" "\<not> connect_timer_armed c1" "cn_state c1 = kConnecting"
    using assms(3) by (elim disjE; simp add: cancelConnectTimeout_def cn_base_def fd assms(2))+
  show ?thesis by (rule that [of fd "c1\<lparr>watched := {}, cn_queue := [ResetChannel]\<rparr>"])
    (use c1 in \<open>simp_all add: removeAndResetChannel_def abandoned_def cn_base_def\<close>)
qed

lemma abandoned_retry: "abandoned fd c \<Longrightarrow> \<exists>c'. retry rnd now fd c = Some c' \<and> cn_inv c'"
  by (rule retry_inv) (simp_all add: abandoned_def)

lemma abandoned_settled:
  "abandoned fd c \<Longrightarrow> s \<noteq> kConnecting \<Longrightarrow> e = HandOver fd \<or> e = CloseSocket fd \<Longrightarrow> cn_inv (cn_emit e (c\<lparr>cn_state := s\<rparr>))"
  "abandoned fd c \<Longrightarrow> s \<noteq> kConnecting \<Longrightarrow> cn_inv ((cn_emit (CloseSocket fd) c)\<lparr>cn_state := s\<rparr>)"
  by (elim disjE; simp add: abandoned_def cn_inv_def at_rest_def cn_base_def)
    (simp add: abandoned_def cn_inv_def at_rest_def cn_base_def)

section \<open>Orderly use\<close>

text \<open>
  The connector is started, restarted or retried only when no attempt is under way, none is queued or timed,
  and the tasks of the last one have run. The loop runs queued tasks before a timer of the backoff fires.
\<close>

definition cn_idle :: "Connector \<Rightarrow> bool" where
  "cn_idle c = (cn_state c \<noteq> kConnecting \<and> \<not> retry_timer_armed c \<and> cn_queue c = [])"

fun event_ok :: "cn_event \<Rightarrow> Connector \<Rightarrow> bool" where
  "event_ok (StartInLoop att) c = cn_idle c"
| "event_ok (Restart att) c = cn_idle c"
| "event_ok (RetryTimer att) c = (cn_queue c = [])"
| "event_ok _ c = True"

fun orderly :: "(real \<Rightarrow> real) \<Rightarrow> (int \<times> cn_event) list \<Rightarrow> Connector \<Rightarrow> bool" where
  "orderly rnd [] c = True"
| "orderly rnd ((now, e) # es) c =
     (event_ok e c \<and> (case cn_exec rnd now e c of None \<Rightarrow> True | Some c' \<Rightarrow> orderly rnd es c'))"

lemma exec_inv:
  assumes "cn_inv c" "event_ok e c"
  shows "\<exists>c'. cn_exec rnd now e c = Some c' \<and> cn_inv c'"
proof (cases e)
  case (StartInLoop att)
  then show ?thesis using assms startInLoop_inv [of c rnd now att] by (auto simp: cn_inv_def cn_idle_def at_rest_def)
next
  case StopInLoop
  show ?thesis
  proof (cases "cn_state c = kConnecting")
    case True
    obtain fd c2 where c2: "removeAndResetChannel (cancelConnectTimeout c) = Some (fd, c2)" "abandoned fd c2"
      by (rule abandon_attempt [OF assms(1) True disjI1 [OF refl]])
    have "\<not> retry_timer_armed (cancelConnectTimeout c)" "cn_state (cancelConnectTimeout c) = kConnecting"
      using assms(1) True by (auto simp: cancelConnectTimeout_def cn_inv_def)
    then have "cn_exec rnd now e c = Some ((cn_emit (CloseSocket fd) c2)\<lparr>cn_state := kDisconnected\<rparr>)"
      using c2(1) StopInLoop by (simp add: stopInLoop_def Let_def)
    then show ?thesis using abandoned_settled(2) [OF c2(2)] by simp
  next
    case False
    then have "\<not> connect_timer_armed c" using assms(1) by (auto simp: cn_inv_def at_rest_def)
    then show ?thesis using False assms(1) StopInLoop
      by (auto simp: stopInLoop_def cancelConnectTimeout_def Let_def cn_inv_def at_rest_def cn_base_def)
  qed
next
  case (Restart att)
  let ?c = "c\<lparr>cn_state := kDisconnected, backoff := bo_reset (backoff_key c) (backoff c), current := 0, connect_flag := True\<rparr>"
  have "at_rest [] ?c" "\<not> retry_timer_armed ?c"
    using assms Restart by (auto simp: cn_inv_def cn_idle_def at_rest_def cn_base_def backoff_reset_ok)
  then show ?thesis using Restart startInLoop_inv [of ?c] by (simp add: restart_def)
next
  case (Writable so_error self_connect)
  show ?thesis
  proof (cases "cn_state c = kConnecting")
    case True
    obtain fd c2 where c2: "removeAndResetChannel (cancelConnectTimeout c) = Some (fd, c2)" "abandoned fd c2"
      by (rule abandon_attempt [OF assms(1) True disjI1 [OF refl]])
    show ?thesis using True c2(1) Writable assms(1) abandoned_retry [OF c2(2), of rnd now] abandoned_settled(1) [OF c2(2)]
      by (simp add: cn_handleWrite_def Let_def)
  qed (use Writable assms(1) in \<open>simp add: cn_handleWrite_def\<close>)
next
  case ErrorEvent
  show ?thesis
  proof (cases "cn_state c = kConnecting")
    case True
    obtain fd c2 where c2: "removeAndResetChannel (cancelConnectTimeout c) = Some (fd, c2)" "abandoned fd c2"
      by (rule abandon_attempt [OF assms(1) True disjI1 [OF refl]])
    then show ?thesis using True ErrorEvent assms(1) abandoned_retry [OF c2(2), of rnd now] by (simp add: cn_handleError_def)
  qed (use ErrorEvent assms(1) in \<open>simp add: cn_handleError_def\<close>)
next
  case ConnectTimer
  show ?thesis
  proof (cases "connect_timer_armed c")
    case True
    then have k: "cn_state c = kConnecting" using assms(1) by (auto simp: cn_inv_def at_rest_def split: if_splits)
    obtain fd c2 where c2: "removeAndResetChannel (c\<lparr>connect_timer_armed := False\<rparr>) = Some (fd, c2)" "abandoned fd c2"
      by (rule abandon_attempt [OF assms(1) k disjI2 [OF refl]])
    then show ?thesis using True k ConnectTimer abandoned_retry [OF c2(2), of rnd now] by (simp add: onConnectTimeout_def)
  qed (use ConnectTimer assms(1) in simp)
next
  case (RetryTimer att)
  show ?thesis
  proof (cases "retry_timer_armed c")
    case True
    then have "at_rest [] (c\<lparr>retry_timer_armed := False\<rparr>)"
      using assms RetryTimer by (auto simp: cn_inv_def at_rest_def cn_base_def split: if_splits)
    then show ?thesis using True RetryTimer startInLoop_inv by simp
  qed (use RetryTimer assms(1) in simp)
next
  case (RunQueued att)
  show ?thesis
  proof (cases "cn_queue c")
    case (Cons t q)
    show ?thesis
    proof (cases t)
      case ResetChannel
      then show ?thesis using Cons RunQueued assms(1)
        by (auto simp: resetChannel_def cn_inv_def at_rest_def cn_base_def split: if_splits)
    next
      case TryCandidate
      then have "at_rest [] (c\<lparr>cn_queue := q\<rparr>)" "\<not> retry_timer_armed (c\<lparr>cn_queue := q\<rparr>)"
        using Cons assms(1) by (auto simp: cn_inv_def at_rest_def cn_base_def split: if_splits)
      then show ?thesis using Cons TryCandidate RunQueued startInLoop_inv by simp
    qed
  qed (use RunQueued assms(1) in simp)
qed (use assms(1) in \<open>simp_all add: start_flag_def stop_flag_def\<close>)

lemma cn_run_inv:
  "cn_inv c \<Longrightarrow> orderly rnd es c \<Longrightarrow> \<exists>c'. cn_run rnd es c = Some c' \<and> cn_inv c'"
proof (induction rnd es c rule: orderly.induct)
  case (2 rnd now e es c)
  obtain c1 where c1: "cn_exec rnd now e c = Some c1" "cn_inv c1" using exec_inv [of c e rnd now] 2(2,3) by auto
  then show ?case using 2(1) [OF c1] 2(3) by simp
qed simp

lemma Connector_new_inv: "addrs \<noteq> [] \<Longrightarrow> cn_inv (setNewConnectionCallback (Connector_new addrs now))"
proof -
  have "backoff_ok (Backoff_new kInitRetryDelayMs kMaxRetryDelayMs (1 / 2) now)"
    unfolding backoff_ok_def by (rule exI [of _ "\<lambda>_. None"])
      (simp add: counted_def config_def Backoff_new_def entries_of_def fun_eq_iff kInitRetryDelayMs_def kMaxRetryDelayMs_def)
  then show "addrs \<noteq> [] \<Longrightarrow> ?thesis"
    by (simp add: setNewConnectionCallback_def Connector_new_def cn_inv_def at_rest_def cn_base_def accounted_def
        opened_def closed_fds_def handed_over_def)
qed



section \<open>The walk over the candidates\<close>

fun opened_addr :: "cn_effect \<Rightarrow> string list" where
  "opened_addr (OpenSocket _ a) = [a]"
| "opened_addr _ = []"

definition tried :: "Connector \<Rightarrow> string list" where "tried c = concat (map opened_addr (cn_effects c))"

text \<open>The queue runs, each attempt failing at once with the error number given.\<close>

definition refusals :: "int \<Rightarrow> (int \<times> cn_errno) list \<Rightarrow> (int \<times> cn_event) list" where
  "refusals now atts = map (\<lambda>a. (now, RunQueued a)) atts"

lemma tried_simps [simp]:
  "tried (cn_emit e c) = tried c @ opened_addr e"
  "tried (c\<lparr>cn_state := v1\<rparr>) = tried c" "tried (c\<lparr>current := v2\<rparr>) = tried c" "tried (c\<lparr>cn_queue := v3\<rparr>) = tried c"
  "tried (c\<lparr>backoff := v4\<rparr>) = tried c" "tried (c\<lparr>retry_timer_armed := v5\<rparr>) = tried c" "tried (c\<lparr>connect_flag := v5\<rparr>) = tried c"
  by (simp_all add: tried_def)

lemma retryable_not_in_progress: "retryable e \<Longrightarrow> \<not> in_progress e"
  by (cases e) simp_all

lemma refusals_Cons: "refusals now (a # as) = (now, RunQueued a) # refusals now as"
  by (simp add: refusals_def)

lemma walk_candidates:
  assumes "cn_queue c = [TryCandidate]" "connect_flag c" "backoff_ok (backoff c)" "atts \<noteq> []"
    "current c + length atts = length (candidates c)" "list_all (\<lambda>a. retryable (snd a)) atts"
  shows "\<exists>c'. cn_run rnd (refusals now atts) c = Some c' \<and> tried c' = tried c @ drop (current c) (candidates c) \<and>
    retry_timer_armed c' \<and> current c' = 0 \<and> cn_queue c' = [] \<and> cn_state c' = kDisconnected"
  using assms
proof (induction atts arbitrary: c)
  case (Cons a as)
  obtain fd e where a: "a = (fd, e)" by (cases a)
  have e: "retryable e" "\<not> in_progress e" using Cons.prems(6) retryable_not_in_progress by (auto simp: a)
  have k: "current c < length (candidates c)" using Cons.prems(5) by simp
  show ?case
  proof (cases "as = []")
    case True
    obtain d bo where b: "nextDelay rnd (backoff_key c) now (backoff c) = Some (d, bo)"
      using backoff_next [OF Cons.prems(3)] by blast
    have "current c + 1 = length (candidates c)" using Cons.prems(5) True by simp
    moreover from this have "drop (current c) (candidates c) = [candidates c ! current c]"
      using k by (simp flip: Cons_nth_drop_Suc)
    ultimately show ?thesis using Cons.prems(1,2) e b k True
      by (simp add: refusals_def a startInLoop_def connect_def retry_def Let_def)
  next
    case False
    then have l: "current c + 1 < length (candidates c)" using Cons.prems(5) by (cases as) simp_all
    define c1 where "c1 = (cn_emit (CloseSocket fd) (cn_emit (OpenSocket fd (candidates c ! current c)) (c\<lparr>cn_queue := []\<rparr>)))
      \<lparr>cn_state := kDisconnected, current := current c + 1, cn_queue := [TryCandidate]\<rparr>"
    have 1: "cn_exec rnd now (RunQueued a) c = Some c1"
      using Cons.prems(1,2) e l by (simp add: a startInLoop_def connect_def retry_def Let_def c1_def)
    have 2: "tried c1 = tried c @ [candidates c ! current c]" "current c1 = current c + 1" "candidates c1 = candidates c"
      by (simp_all add: c1_def)
    have "\<exists>c'. cn_run rnd (refusals now as) c1 = Some c' \<and> tried c' = tried c1 @ drop (current c1) (candidates c1) \<and>
      retry_timer_armed c' \<and> current c' = 0 \<and> cn_queue c' = [] \<and> cn_state c' = kDisconnected"
      by (rule Cons.IH) (use Cons.prems False in \<open>simp_all add: c1_def\<close>)
    moreover have "drop (current c) (candidates c) = candidates c ! current c # drop (current c + 1) (candidates c)"
      using k by (simp add: Cons_nth_drop_Suc)
    ultimately show ?thesis by (simp add: refusals_Cons 1 2 del: cn_exec.simps)
  qed
qed simp



text \<open>
  A connector stopped and started again before the loop has run its queue: the task that was to free the channel of
  the first attempt frees the channel of the second, which the poller still holds. The
  completion of the second attempt then finds no channel.
\<close>

definition stop_start :: "(int \<times> cn_event) list" where
  "stop_start = [(0, StartFlag), (0, StartInLoop (7, EINPROGRESS)), (0, StopFlag), (0, StopInLoop), (0, StartFlag),
     (0, StartInLoop (8, EINPROGRESS)), (0, RunQueued (9, NoError))]"

lemmas connector_step_defs = setNewConnectionCallback_def Connector_new_def start_flag_def stop_flag_def startInLoop_def
  stopInLoop_def connect_def Let_def connecting_def armConnectTimeout_def removeAndResetChannel_def cancelConnectTimeout_def
  resetChannel_def cn_handleWrite_def

theorem stop_then_start_frees_live_channel:
  "(\<exists>c. cn_run rnd stop_start (setNewConnectionCallback (Connector_new [a] 0)) = Some c \<and>
      cn_state c = kConnecting \<and> cn_channel c = None \<and> watched c = {8}) \<and>
   cn_run rnd (stop_start @ [(1, Writable 0 False)]) (setNewConnectionCallback (Connector_new [a] 0)) = None"
  by (simp add: stop_start_def connector_step_defs)

text \<open>An error number that is not listed, such as one for an unreachable host, drops the walk though candidates are left.\<close>

theorem unlisted_error_gives_up:
  "cn_run rnd [(0, StartFlag), (0, StartInLoop (7, OtherErrno n))] (setNewConnectionCallback (Connector_new (a # b # rest) 0)) =
     Some (c :: Connector) \<Longrightarrow>
   cn_state c = kDisconnected \<and> cn_queue c = [] \<and> \<not> retry_timer_armed c \<and> closed_fds c = [7]"
  by (auto simp: connector_step_defs closed_fds_def)

end
