(* ===== verification/Net_Server.thy ===== *)
theory Net_Server
  imports Reactor_Loop Net_Connection Flow_Token_Bucket
begin

text \<open>
  The acceptor and the server, \<^verbatim>\<open>net/acceptor.h\<close>, \<^verbatim>\<open>net/acceptor.cc\<close>, \<^verbatim>\<open>net/tcp_server.h\<close> and \<^verbatim>\<open>net/tcp_server.cc\<close>, over the
  models of the connection, the pool of loops and the token bucket. A task carried to a loop is queued and runs
  in a later step; a task that \<^verbatim>\<open>runInLoop\<close> runs at once is one whose step comes next. The
  theory shows that a server never exceeds its connection cap and loses no descriptor, that a connection is listed until
  its close notification has been handled, and that a drain completes once, when the last connection is gone.
\<close>

section \<open>The acceptor\<close>

record Acceptor =
  accept_channel :: Channel
  acc_callback :: bool
  listening :: bool
  idle_fd :: int

definition Acceptor_new :: "int \<Rightarrow> int \<Rightarrow> Acceptor" where
  "Acceptor_new fd idle = \<lparr>accept_channel = (Channel_new fd)\<lparr>readCallback := True\<rparr>, acc_callback = False, listening = False, idle_fd = idle\<rparr>"

definition acc_interest :: "interest_op \<Rightarrow> Acceptor \<Rightarrow> Acceptor" where
  "acc_interest op a = a\<lparr>accept_channel := (accept_channel a)\<lparr>ch_events := change_events op (ch_events (accept_channel a))\<rparr>\<rparr>"

definition acc_listen :: "Acceptor \<Rightarrow> Acceptor" where
  "acc_listen a = acc_interest EnableRead (a\<lparr>listening := True\<rparr>)"

definition stopListening :: "Acceptor \<Rightarrow> Acceptor" where
  "stopListening a = acc_interest DisableAll (a\<lparr>listening := False\<rparr>)"

text \<open>
  What \<^verbatim>\<open>accept\<close> returns: a descriptor, or an error number. When the process is out of descriptors the two numbers
  are the results of the second \<^verbatim>\<open>accept\<close> and of reopening the spare descriptor. The clock is read for each connection.
\<close>

datatype accept_result =
    Accepted int string int
  | AcceptAgain
  | AcceptIntr
  | AcceptNoFds int int
  | AcceptFailed

text \<open>
  \<^verbatim>\<open>handleRead\<close>: the state \<open>'s\<close> is what the callback works on; the list collects the descriptors the acceptor closes
  itself. \<open>None\<close> when the results run out: \<^verbatim>\<open>accept\<close> is called again.
\<close>

fun acc_handleRead :: "(int \<Rightarrow> string \<Rightarrow> int \<Rightarrow> 's \<Rightarrow> 's option) \<Rightarrow> accept_result list \<Rightarrow> Acceptor \<Rightarrow> 's \<Rightarrow> (int list \<times> Acceptor \<times> 's) option" where
  "acc_handleRead cb [] a s = None"
| "acc_handleRead cb (Accepted connfd peer now # rs) a s =
     (if acc_callback a then Option.bind (cb connfd peer now s) (acc_handleRead cb rs a)
      else map_option (\<lambda>(closed, r). (connfd # closed, r)) (acc_handleRead cb rs a s))"
| "acc_handleRead cb (AcceptAgain # rs) a s = Some ([], a, s)"
| "acc_handleRead cb (AcceptIntr # rs) a s = acc_handleRead cb rs a s"
| "acc_handleRead cb (AcceptNoFds fd spare # rs) a s =
     Some (if idle_fd a \<ge> 0
           then (idle_fd a # (if fd \<ge> 0 then [fd] else []), a\<lparr>idle_fd := spare\<rparr>, s)
           else ([], a, s))"
| "acc_handleRead cb (AcceptFailed # rs) a s = Some ([], a, s)"

section \<open>The server\<close>

text \<open>Tasks carried to the loop of a connection, and what the server does to its surroundings.\<close>

datatype io_task = EstablishTask | DestroyTask | DrainTask

datatype srv_effect =
    CloseFd int
  | OverloadCb string
  | DrainCb nat
  | ArmDeadline nat
  | DrainCompleteCb
  | InitLoops "nat list"

text \<open>
  A connection object is known by its number. The last fields are the objects with their loops, the tasks carried to the
  loops of the connections and the removals carried to the base loop, and the effects so far.
\<close>

record TcpServer =
  srv_ip_port :: string
  srv_name :: string
  acceptor :: Acceptor
  thread_pool :: EventLoopThreadPool
  srv_connection_callback :: bool
  srv_message_callback :: bool
  srv_write_complete_callback :: bool
  drain_callback :: bool
  drain_complete_callback :: bool
  overload_callback :: bool
  accept_limiter :: "TokenBucket option"
  started :: bool
  draining :: bool
  next_conn_id :: nat
  srv_idle_seconds :: nat
  srv_write_seconds :: nat
  srv_max_input_buffer_size :: nat
  srv_max_age_seconds :: nat
  max_connections :: nat
  connections :: "(string, nat) smap"
  objs :: "nat \<Rightarrow> (nat \<times> TcpConnection) option"
  io_tasks :: "(nat \<times> io_task) list"
  base_tasks :: "nat list"
  srv_effects :: "srv_effect list"

definition TcpServer_new :: "string \<Rightarrow> string \<Rightarrow> nat \<Rightarrow> int \<Rightarrow> int \<Rightarrow> TcpServer" where
  "TcpServer_new ip_port name base fd idle =
     \<lparr>srv_ip_port = ip_port, srv_name = name, acceptor = (Acceptor_new fd idle)\<lparr>acc_callback := True\<rparr>,
      thread_pool = EventLoopThreadPool_new base,
      srv_connection_callback = False, srv_message_callback = False, srv_write_complete_callback = False,
      drain_callback = False, drain_complete_callback = False, overload_callback = False, accept_limiter = None,
      started = False, draining = False, next_conn_id = 1, srv_idle_seconds = 0, srv_write_seconds = 0,
      srv_max_input_buffer_size = 0, srv_max_age_seconds = 0, max_connections = 0,
      connections = [], objs = (\<lambda>_. None), io_tasks = [], base_tasks = [], srv_effects = []\<rparr>"

definition srv_emit :: "srv_effect \<Rightarrow> TcpServer \<Rightarrow> TcpServer" where
  "srv_emit e s = s\<lparr>srv_effects := srv_effects s @ [e]\<rparr>"

definition carry :: "nat \<Rightarrow> io_task \<Rightarrow> TcpServer \<Rightarrow> TcpServer" where
  "carry i t s = s\<lparr>io_tasks := io_tasks s @ [(i, t)]\<rparr>"

definition setAcceptRateLimit :: "real \<Rightarrow> real \<Rightarrow> int \<Rightarrow> TcpServer \<Rightarrow> TcpServer" where
  "setAcceptRateLimit q b now s =
     s\<lparr>accept_limiter := (if q > 0 then Some (TokenBucket_new q b now) else None)\<rparr>"

text \<open>The setters, called before the server starts.\<close>

datatype srv_setting =
    SetThreadNum nat
  | SetSrvConnectionCallback
  | SetSrvMessageCallback
  | SetSrvWriteCompleteCallback
  | SetDrainCallback
  | SetOverloadCallback
  | SetSrvIdleTimeout nat
  | SetSrvWriteTimeout nat
  | SetSrvMaxInputBufferSize nat
  | SetSrvMaxConnectionAge nat
  | SetMaxConnections nat
  | SetAcceptRateLimit real real int

fun srv_configure :: "srv_setting \<Rightarrow> TcpServer \<Rightarrow> TcpServer" where
  "srv_configure (SetThreadNum n) s = s\<lparr>thread_pool := setThreadNum n (thread_pool s)\<rparr>"
| "srv_configure SetSrvConnectionCallback s = s\<lparr>srv_connection_callback := True\<rparr>"
| "srv_configure SetSrvMessageCallback s = s\<lparr>srv_message_callback := True\<rparr>"
| "srv_configure SetSrvWriteCompleteCallback s = s\<lparr>srv_write_complete_callback := True\<rparr>"
| "srv_configure SetDrainCallback s = s\<lparr>drain_callback := True\<rparr>"
| "srv_configure SetOverloadCallback s = s\<lparr>overload_callback := True\<rparr>"
| "srv_configure (SetSrvIdleTimeout n) s = s\<lparr>srv_idle_seconds := n\<rparr>"
| "srv_configure (SetSrvWriteTimeout n) s = s\<lparr>srv_write_seconds := n\<rparr>"
| "srv_configure (SetSrvMaxInputBufferSize n) s = s\<lparr>srv_max_input_buffer_size := n\<rparr>"
| "srv_configure (SetSrvMaxConnectionAge n) s = s\<lparr>srv_max_age_seconds := n\<rparr>"
| "srv_configure (SetMaxConnections n) s = s\<lparr>max_connections := n\<rparr>"
| "srv_configure (SetAcceptRateLimit q b now) s = setAcceptRateLimit q b now s"

text \<open>\<^verbatim>\<open>start\<close>: \<open>startLoop\<close> gives the loops the threads of the pool create.\<close>

definition srv_start :: "bool \<Rightarrow> (nat \<Rightarrow> nat) \<Rightarrow> TcpServer \<Rightarrow> TcpServer option" where
  "srv_start has_init startLoop s =
     (if started s then Some s
      else do {
        (inits, pool) \<leftarrow> pool_start True has_init startLoop (thread_pool s);
        Some (srv_emit (InitLoops inits)
               (s\<lparr>started := True, thread_pool := pool, acceptor := acc_listen (acceptor s)\<rparr>))
      })"

definition conn_name :: "string \<Rightarrow> string \<Rightarrow> nat \<Rightarrow> string" where
  "conn_name name ip_port i = name @ ''-'' @ ip_port @ ''#'' @ to_string i"

definition conn_settings :: "TcpServer \<Rightarrow> conn_setting list" where
  "conn_settings s =
     (if srv_connection_callback s then [SetConnectionCallback] else []) @
     (if srv_message_callback s then [SetMessageCallback] else []) @
     (if srv_write_complete_callback s then [SetWriteCompleteCallback] else []) @
     [SetCloseCallback] @
     (if srv_idle_seconds s > 0 then [SetIdleTimeout (srv_idle_seconds s)] else []) @
     (if srv_write_seconds s > 0 then [SetWriteTimeout (srv_write_seconds s)] else []) @
     (if srv_max_input_buffer_size s > 0 then [SetMaxInputBufferSize (srv_max_input_buffer_size s)] else []) @
     (if srv_max_age_seconds s > 0 then [SetMaxConnectionAge (srv_max_age_seconds s)] else [])"

definition shed :: "int \<Rightarrow> string \<Rightarrow> TcpServer \<Rightarrow> TcpServer" where
  "shed sockfd peer s =
     (let s1 = srv_emit (CloseFd sockfd) s in if overload_callback s1 then srv_emit (OverloadCb peer) s1 else s1)"

definition rate_allows :: "(real \<Rightarrow> real) \<Rightarrow> int \<Rightarrow> TcpServer \<Rightarrow> bool \<times> TcpServer" where
  "rate_allows rnd now s =
     (case accept_limiter s of
        None \<Rightarrow> (True, s)
      | Some tb \<Rightarrow> let (ok, tb') = tb_tryAcquire rnd now tb in (ok, s\<lparr>accept_limiter := Some tb'\<rparr>))"

text \<open>The part of \<^verbatim>\<open>newConnection\<close> after the checks; \<open>None\<close> when the connection counter overflows.\<close>

definition admit_connection :: "int \<Rightarrow> TcpServer \<Rightarrow> TcpServer option" where
  "admit_connection sockfd s =
     (let i = next_conn_id s in
      if i + 1 \<ge> 2 ^ 31 then None
      else do {
        (io_loop, pool) \<leftarrow> getNextLoop True (thread_pool s);
        let conn = fold conn_configure (conn_settings s) (TcpConnection_new sockfd);
        Some (carry i EstablishTask
               (s\<lparr>next_conn_id := i + 1, thread_pool := pool, connections := smap_put (conn_name (srv_name s) (srv_ip_port s) i) i (connections s),
                  objs := (objs s)(i \<mapsto> (io_loop, conn))\<rparr>))
      })"

definition newConnection :: "(real \<Rightarrow> real) \<Rightarrow> int \<Rightarrow> string \<Rightarrow> int \<Rightarrow> TcpServer \<Rightarrow> TcpServer option" where
  "newConnection rnd sockfd peer now s =
     (if draining s then Some (srv_emit (CloseFd sockfd) s)
      else case rate_allows rnd now s of (ok, s1) \<Rightarrow>
        if \<not> ok then Some (shed sockfd peer s1)
        else if max_connections s1 > 0 \<and> length (connections s1) \<ge> max_connections s1 then Some (shed sockfd peer s1)
        else admit_connection sockfd s1)"

definition maybeFinishDrain :: "TcpServer \<Rightarrow> TcpServer" where
  "maybeFinishDrain s =
     (if draining s \<and> connections s = [] \<and> drain_complete_callback s
      then srv_emit DrainCompleteCb (s\<lparr>drain_complete_callback := False\<rparr>) else s)"

definition removeConnection :: "nat \<Rightarrow> TcpServer \<Rightarrow> TcpServer" where
  "removeConnection i s = s\<lparr>base_tasks := base_tasks s @ [i]\<rparr>"

definition removeConnectionInLoop :: "nat \<Rightarrow> TcpServer \<Rightarrow> TcpServer" where
  "removeConnectionInLoop i s =
     (let s1 = carry i DestroyTask (s\<lparr>connections := smap_erase (conn_name (srv_name s) (srv_ip_port s) i) (connections s)\<rparr>)
      in if draining s1 then maybeFinishDrain s1 else s1)"

definition srv_shutdownInLoop :: "nat \<Rightarrow> TcpServer \<Rightarrow> TcpServer" where
  "srv_shutdownInLoop deadline s =
     (let s1 = s\<lparr>acceptor := stopListening (acceptor s)\<rparr>;
          s2 = fold (\<lambda>i. carry i DrainTask) (map snd (connections s1)) s1
      in if connections s2 = [] then maybeFinishDrain s2
         else if deadline > 0 then srv_emit (ArmDeadline (deadline * 1000)) s2 else s2)"

definition srv_shutdown :: "nat \<Rightarrow> bool \<Rightarrow> TcpServer \<Rightarrow> TcpServer" where
  "srv_shutdown deadline has_cb s =
     (if draining s then s
      else srv_shutdownInLoop deadline (s\<lparr>draining := True, drain_complete_callback := has_cb\<rparr>))"

section \<open>Connections of a server\<close>

definition closes :: "TcpConnection \<Rightarrow> nat" where
  "closes c = count_list (effects c) CloseCb"

text \<open>An operation of a connection. Each run of its close callback is a call of \<^verbatim>\<open>removeConnection\<close>.\<close>

definition on_conn :: "conn_event \<Rightarrow> nat \<Rightarrow> TcpServer \<Rightarrow> TcpServer option" where
  "on_conn e i s =
     (case objs s i of
        None \<Rightarrow> None
      | Some (l, c) \<Rightarrow>
          (case conn_exec e c of
             None \<Rightarrow> None
           | Some c' \<Rightarrow> Some ((removeConnection i ^^ (closes c' - closes c)) (s\<lparr>objs := (objs s)(i \<mapsto> (l, c'))\<rparr>))))"

definition conn_loop :: "TcpServer \<Rightarrow> nat \<Rightarrow> nat option" where
  "conn_loop s i = map_option fst (objs s i)"

text \<open>\<^verbatim>\<open>forceClose\<close> runs at once for a connection of the base loop.\<close>

definition force_close_one :: "nat \<Rightarrow> TcpServer \<Rightarrow> TcpServer option" where
  "force_close_one i s = on_conn (ForceClose (conn_loop s i = Some (base_loop (thread_pool s)))) i s"

definition forceCloseAllInLoop :: "TcpServer \<Rightarrow> TcpServer option" where
  "forceCloseAllInLoop s =
     (if connections s = [] then Some s
      else fold (\<lambda>i r. Option.bind r (force_close_one i)) (map snd (connections s)) (Some s))"

definition TcpServer_destroy :: "TcpServer \<Rightarrow> TcpServer" where
  "TcpServer_destroy s = fold (\<lambda>i. carry i DestroyTask) (map snd (connections s)) (s\<lparr>connections := []\<rparr>)"

fun run_io_task :: "nat \<Rightarrow> io_task \<Rightarrow> TcpServer \<Rightarrow> TcpServer option" where
  "run_io_task i EstablishTask s = on_conn Established i s"
| "run_io_task i DestroyTask s = on_conn Destroyed i s"
| "run_io_task i DrainTask s = on_conn (Shutdown True) i (if drain_callback s then srv_emit (DrainCb i) s else s)"

section \<open>Events\<close>

datatype srv_event =
    SrvStart bool "nat \<Rightarrow> nat"
  | AcceptReady "accept_result list"
  | SrvShutdown nat bool
  | DeadlineFired
  | RunBase
  | RunIo nat
  | ConnEvent nat conn_event

text \<open>What the connection or the application does by itself; the rest is done by the server.\<close>

fun own_event :: "conn_event \<Rightarrow> bool" where
  "own_event (Configure _) = False"
| "own_event Established = False"
| "own_event Destroyed = False"
| "own_event _ = True"

text \<open>The first task carried to a loop, with the others in order.\<close>

fun take_io :: "(nat \<Rightarrow> nat option) \<Rightarrow> nat \<Rightarrow> (nat \<times> io_task) list \<Rightarrow> ((nat \<times> io_task) \<times> (nat \<times> io_task) list) option" where
  "take_io loop_of l [] = None"
| "take_io loop_of l (t # ts) =
     (if loop_of (fst t) = Some l then Some (t, ts)
      else map_option (\<lambda>(x, xs). (x, t # xs)) (take_io loop_of l ts))"

fun srv_exec :: "(real \<Rightarrow> real) \<Rightarrow> srv_event \<Rightarrow> TcpServer \<Rightarrow> TcpServer option" where
  "srv_exec rnd (SrvStart has_init startLoop) s = srv_start has_init startLoop s"
| "srv_exec rnd (AcceptReady rs) s =
     (if isReading (accept_channel (acceptor s))
      then map_option (\<lambda>(closed, a, s'). fold (\<lambda>fd. srv_emit (CloseFd fd)) closed (s'\<lparr>acceptor := a\<rparr>))
             (acc_handleRead (newConnection rnd) rs (acceptor s) s)
      else Some s)"
| "srv_exec rnd (SrvShutdown deadline has_cb) s = Some (srv_shutdown deadline has_cb s)"
| "srv_exec rnd DeadlineFired s = (if draining s then forceCloseAllInLoop s else Some s)"
| "srv_exec rnd RunBase s =
     (case base_tasks s of [] \<Rightarrow> Some s | i # is \<Rightarrow> Some (removeConnectionInLoop i (s\<lparr>base_tasks := is\<rparr>)))"
| "srv_exec rnd (RunIo l) s =
     (case take_io (conn_loop s) l (io_tasks s) of
        None \<Rightarrow> Some s
      | Some ((i, t), ts) \<Rightarrow> run_io_task i t (s\<lparr>io_tasks := ts\<rparr>))"
| "srv_exec rnd (ConnEvent i e) s =
     (if own_event e \<and> objs s i \<noteq> None then on_conn e i s else Some s)"

fun srv_run :: "(real \<Rightarrow> real) \<Rightarrow> srv_event list \<Rightarrow> TcpServer \<Rightarrow> TcpServer option" where
  "srv_run rnd [] s = Some s"
| "srv_run rnd (e # es) s = Option.bind (srv_exec rnd e s) (srv_run rnd es)"

section \<open>Close notifications only accumulate\<close>

lemma closes_emit [simp]: "closes (emit e c) = closes c + (if e = CloseCb then 1 else 0)"
  by (simp add: closes_def)

lemma closes_update [simp]:
  "closes (c\<lparr>conn_state := v1\<rparr>) = closes c" "closes (c\<lparr>channel := v2\<rparr>) = closes c"
  "closes (c\<lparr>registered := v3\<rparr>) = closes c" "closes (c\<lparr>input_buffer := v4\<rparr>) = closes c"
  "closes (c\<lparr>output_buffer := v4\<rparr>) = closes c" "closes (c\<lparr>bytes_read := v5\<rparr>) = closes c"
  "closes (c\<lparr>bytes_written := v5\<rparr>) = closes c" "closes (c\<lparr>reading := v3\<rparr>) = closes c"
  "closes (c\<lparr>idle_timer_armed := v3\<rparr>) = closes c" "closes (c\<lparr>write_timer_armed := v3\<rparr>) = closes c"
  "closes (c\<lparr>max_age_timer_armed := v3\<rparr>) = closes c" "closes (c\<lparr>posted := v6\<rparr>) = closes c"
  "closes (c\<lparr>accepted := v7\<rparr>) = closes c"
  by (simp_all add: closes_def)

lemma closes_ops [simp]:
  "closes (set_interest op c) = closes c" "closes (cancelIdleTimer c) = closes c"
  "closes (resetIdleTimer c) = closes c" "closes (armWriteTimer c) = closes c"
  "closes (cancelWriteTimer c) = closes c" "closes (armMaxAgeTimer c) = closes c"
  "closes (cancelMaxAgeTimer c) = closes c" "closes (notify_connection c) = closes c"
  "closes (post t c) = closes c" "closes (connectEstablished c) = closes c" "closes (connectDestroyed c) = closes c"
  "closes (stopReadInLoop c) = closes c" "closes (startReadInLoop c) = closes c" "closes (shutdownInLoop c) = closes c"
  "closes (conn_configure x c) = closes c"
  by (simp_all add: set_interest_def cancelIdleTimer_def resetIdleTimer_def armWriteTimer_def cancelWriteTimer_def
      armMaxAgeTimer_def cancelMaxAgeTimer_def notify_connection_def post_def connectEstablished_def connectDestroyed_def
      stopReadInLoop_def startReadInLoop_def shutdownInLoop_def cancel_timers_def Let_def)
    (cases x; simp add: closes_def)

lemma closes_close [simp]:
  "closes c \<le> closes (handleClose c)" "closes c \<le> closes (handleError c)"
  "closes c \<le> closes (forceCloseInLoop c)" "closes c \<le> closes (forceClose in_loop c)"
proof -
  show h: "closes c \<le> closes (handleClose c)" for c by (simp add: handleClose_def cancel_timers_def Let_def)
  then show "closes c \<le> closes (handleError c)" by (simp add: handleError_def)
  show f: "closes c \<le> closes (forceCloseInLoop c)" for c using h [of c] by (simp add: forceCloseInLoop_def)
  show "closes c \<le> closes (forceClose in_loop c)" using f [of "c\<lparr>conn_state := kDisconnecting\<rparr>"]
    by (simp add: forceClose_def Let_def)
qed

lemma closes_send:
  assumes "sendInLoop w data c = Some c'"
  shows "closes c' = closes c"
proof -
  have d: "closes (snd (send_directly w data x)) = closes x" for x
    by (auto simp: send_directly_def kernel_write_def Let_def split: write_result.splits prod.splits)
  have "closes y' = closes y" if "buffer_rest rest y = Some y'" for rest y y'
    using that by (auto simp: buffer_rest_def Let_def bind_eq_Some_conv split: if_splits)
  then show ?thesis using assms d [of "c\<lparr>accepted := accepted c @ data\<rparr>"]
    by (auto simp: sendInLoop_def Let_def split: if_splits prod.splits)
qed

lemma closes_handleWrite: "handleWrite w c = Some c' \<Longrightarrow> closes c' = closes c"
proof -
  assume a: "handleWrite w c = Some c'"
  have k: "closes (snd (kernel_write w data x)) = closes x" for data x
    by (simp add: kernel_write_def split: write_result.split)
  show ?thesis using a k [of "readable (output_buffer c)" c]
    by (auto simp: handleWrite_def Let_def bind_eq_Some_conv split: if_splits prod.splits)
qed

lemma closes_handleRead: "handleRead r k c = Some c' \<Longrightarrow> closes c \<le> closes c'"
proof -
  assume a: "handleRead r k c = Some c'"
  have l: "closes x \<le> closes y \<Longrightarrow> closes x \<le> closes (forceClose True y)" for x y
    by (rule order_trans [OF _ closes_close(4)])
  have h: "closes x \<le> closes (handleClose (x\<lparr>input_buffer := b\<rparr>))" "closes x \<le> closes (handleError (x\<lparr>input_buffer := b\<rparr>))" for x b
    using closes_close(1,2) [of "x\<lparr>input_buffer := b\<rparr>"] by simp_all
  show ?thesis using a l h by (auto simp: handleRead_def Let_def bind_eq_Some_conv split: if_splits)
qed

lemma closes_callbacks: "run_callbacks r k w xs c = Some c' \<Longrightarrow> closes c \<le> closes c'"
proof (induction xs arbitrary: c)
  case (Cons x xs)
  then obtain c1 where c1: "run_callback r k w x c = Some c1" "run_callbacks r k w xs c1 = Some c'"
    by (auto simp: bind_eq_Some_conv)
  have "closes c \<le> closes c1" using c1(1) closes_handleRead closes_handleWrite by (cases x) auto
  then show ?case using Cons.IH [OF c1(2)] by simp
qed simp

lemma closes_exec: "conn_exec e c = Some c' \<Longrightarrow> closes c \<le> closes c'"
proof (cases e)
  case (Dispatch revs r k w)
  assume "conn_exec e c = Some c'"
  then show ?thesis using closes_callbacks [of r k w _ "c\<lparr>channel := (channel c)\<lparr>ch_revents := revs\<rparr>\<rparr>"] Dispatch
    by (auto split: if_splits)
next
  case (Send in_loop data w)
  assume "conn_exec e c = Some c'"
  then show ?thesis using closes_send Send by (auto simp: send_def split: if_splits)
next
  case (RunPosted w)
  assume a: "conn_exec e c = Some c'"
  show ?thesis
  proof (cases "posted c")
    case (Cons t ts)
    then show ?thesis using a RunPosted closes_send [of w _ "c\<lparr>posted := ts\<rparr>"] closes_close(3) [of "c\<lparr>posted := ts\<rparr>"]
      by (cases t) auto
  qed (use a RunPosted in simp)
next
  case WriteTimerFired
  assume "conn_exec e c = Some c'"
  then show ?thesis using WriteTimerFired closes_close(4) [of "c\<lparr>write_timer_armed := False\<rparr>" True]
    by (auto simp: write_timer_fired_def Let_def split: if_splits)
next
  case MaxAgeFired
  assume "conn_exec e c = Some c'"
  then show ?thesis using MaxAgeFired closes_close(4) [of "c\<lparr>max_age_timer_armed := False\<rparr>" True]
    by (auto simp: max_age_fired_def split: if_splits)
qed (auto simp: shutdown_def stopRead_def startRead_def idle_fired_def Let_def split: if_splits)

section \<open>Invariant\<close>

lemma conn_name_inj [simp]: "conn_name a b i = conn_name a b j \<longleftrightarrow> i = j"
proof
  assume "conn_name a b i = conn_name a b j"
  then have "read_digits 10 0 (to_string i) = read_digits 10 0 (to_string j)" by (simp add: conn_name_def)
  then show "i = j" by (simp add: read_digits_to_string)
qed simp

lemma smap_put_fresh:
  "k \<notin> fst ` set m \<Longrightarrow> set (smap_put k v m) = insert (k, v) (set m) \<and> length (smap_put k v m) = Suc (length m)"
  by (induction k v m rule: smap_put.induct) (auto simp: image_iff)

text \<open>
  The connections listed in \<open>m\<close> under the names \<open>nm\<close>, the objects, the counter, and the tasks of the base loop and of the others. Every
  object below the counter exists and is well-formed; every entry is listed under its own name; an object is listed as
  long as each of its close notifications is still to be handled by the base loop.
\<close>

definition obj_ok :: "(string, nat) smap \<Rightarrow> string \<Rightarrow> nat list \<Rightarrow> nat \<Rightarrow> TcpConnection \<Rightarrow> bool" where
  "obj_ok m name base i c =
     (conn_inv c \<and> count_list base i \<le> closes c \<and> ((name, i) \<in> set m \<longleftrightarrow> closes c = count_list base i))"

definition conns_ok :: "(nat \<Rightarrow> string) \<Rightarrow> (string, nat) smap \<Rightarrow> (nat \<Rightarrow> (nat \<times> TcpConnection) option) \<Rightarrow> nat \<Rightarrow> nat list \<Rightarrow> (nat \<times> io_task) list \<Rightarrow> bool" where
  "conns_ok nm m obj n base io =
     (1 \<le> n \<and> dom obj = {1..<n} \<and> smap_ok m \<and> (\<forall>p \<in> set m. fst p = nm (snd p) \<and> snd p \<in> {1..<n}) \<and>
      (\<forall>i l c. obj i = Some (l, c) \<longrightarrow> obj_ok m (nm i) base i c) \<and>
      set base \<subseteq> {1..<n} \<and> fst ` set io \<subseteq> {1..<n})"

definition cap_ok :: "nat \<Rightarrow> (string, nat) smap \<Rightarrow> bool" where
  "cap_ok k m = (k > 0 \<longrightarrow> length m \<le> k)"

definition lpool_ok :: "EventLoopThreadPool \<Rightarrow> bool \<Rightarrow> Acceptor \<Rightarrow> bool" where
  "lpool_ok p st a =
     (pool_started p = st \<and> (isReading (accept_channel a) \<longrightarrow> st) \<and>
      (if loops p = [] then next_loop p = 0 else next_loop p < length (loops p)) \<and>
      (\<not> st \<longrightarrow> loops p = []) \<and> acc_callback a)"

text \<open>How often the drain was reported complete.\<close>

definition completions :: "TcpServer \<Rightarrow> nat" where
  "completions s = count_list (srv_effects s) DrainCompleteCb"

abbreviation names_of :: "TcpServer \<Rightarrow> nat \<Rightarrow> string" where
  "names_of s \<equiv> conn_name (srv_name s) (srv_ip_port s)"

definition srv_inv :: "TcpServer \<Rightarrow> bool" where
  "srv_inv s =
     (conns_ok (names_of s) (connections s) (objs s) (next_conn_id s) (base_tasks s) (io_tasks s) \<and>
      cap_ok (max_connections s) (connections s) \<and>
      (drain_complete_callback s \<longrightarrow> draining s \<and> connections s \<noteq> []) \<and>
      (completions s > 0 \<longrightarrow> draining s \<and> connections s = []) \<and>
      lpool_ok (thread_pool s) (started s) (acceptor s))"

lemma conns_ok_carry: "conns_ok nm m obj n base io \<Longrightarrow> i \<in> dom obj \<Longrightarrow> conns_ok nm m obj n base (io @ [(i, t)])"
  by (simp add: conns_ok_def)

lemma conns_ok_take: "conns_ok nm m obj n base io \<Longrightarrow> set io' \<subseteq> set io \<Longrightarrow> conns_ok nm m obj n base io'"
  using order_trans [OF image_mono, of "set io'" "set io" fst "{1..<n}"] by (simp add: conns_ok_def)

lemma conns_ok_add:
  assumes "conns_ok nm m obj n base io" "inj nm" "conn_inv c" "closes c = 0"
  shows "conns_ok nm (smap_put (nm n) n m) (obj(n \<mapsto> (l, c))) (Suc n) base (io @ [(n, t)])"
    "length (smap_put (nm n) n m) = Suc (length m)" "smap_put (nm n) n m \<noteq> []"
proof -
  have fresh: "nm n \<notin> fst ` set m"
  proof
    assume "nm n \<in> fst ` set m"
    then obtain p where "p \<in> set m" "nm n = fst p" by auto
    then have "nm n = nm (snd p)" "snd p \<in> {1..<n}" using assms(1) unfolding conns_ok_def by auto
    then show False using injD [OF assms(2)] by fastforce
  qed
  note put = smap_put_fresh [OF fresh, of n]
  show "length (smap_put (nm n) n m) = Suc (length m)" "smap_put (nm n) n m \<noteq> []" using put by auto
  have n: "count_list base n = 0" "n \<notin> dom obj" using assms(1) unfolding conns_ok_def by (auto simp: count_list_0_iff)
  have "obj_ok (smap_put (nm n) n m) (nm i) base i d" if "(obj(n \<mapsto> (l, c))) i = Some (l', d)" for i l' d
  proof (cases "i = n")
    case True
    then show ?thesis using that put n assms(3,4) by (auto simp: obj_ok_def)
  next
    case False
    then have "obj_ok m (nm i) base i d" using that assms(1) unfolding conns_ok_def by auto
    then show ?thesis using put False by (simp add: obj_ok_def)
  qed
  then show "conns_ok nm (smap_put (nm n) n m) (obj(n \<mapsto> (l, c))) (Suc n) base (io @ [(n, t)])"
    using assms(1) put smap_ok_put [of m "nm n" n] unfolding conns_ok_def by (auto simp: subset_iff)
qed

lemma conns_ok_conn:
  assumes "conns_ok nm m obj n base io" "obj i = Some (l, c)" "conn_inv c'" "closes c \<le> closes c'"
  shows "conns_ok nm m (obj(i \<mapsto> (l, c'))) n (base @ replicate (closes c' - closes c) i) io"
proof -
  have i: "i \<in> {1..<n}" using assms(1,2) unfolding conns_ok_def by blast
  have cnt: "count_list (replicate k i) j = (if j = i then k else 0)" for k j by (induction k) auto
  have "obj_ok m (nm j) (base @ replicate (closes c' - closes c) i) j d" if "(obj(i \<mapsto> (l, c'))) j = Some (l', d)" for j l' d
  proof (cases "j = i")
    case True
    moreover have "obj_ok m (nm i) base i c" using assms(1,2) unfolding conns_ok_def by blast
    ultimately show ?thesis using that assms(3,4) by (auto simp: obj_ok_def cnt)
  next
    case False
    then have "obj_ok m (nm j) base j d" using that assms(1) unfolding conns_ok_def by auto
    then show ?thesis using False by (simp add: obj_ok_def cnt)
  qed
  then show ?thesis using assms(1) i unfolding conns_ok_def by (auto simp: set_replicate_conv_if)
qed

lemma conns_ok_remove:
  assumes "conns_ok nm m obj n (i # base) io" "inj nm"
  shows "conns_ok nm (smap_erase (nm i) m) obj n base (io @ [(i, t)])"
proof -
  have i: "i \<in> {1..<n}" using assms(1) unfolding conns_ok_def by simp
  have mem: "(nm j, j) \<in> set (smap_erase (nm i) m) \<longleftrightarrow> (nm j, j) \<in> set m \<and> j \<noteq> i" for j
    using injD [OF assms(2)] by (auto simp: smap_erase_def)
  have "obj_ok (smap_erase (nm i) m) (nm j) base j d" if "obj j = Some (l, d)" for j l d
  proof -
    have "obj_ok m (nm j) (i # base) j d" using that assms(1) unfolding conns_ok_def by blast
    then show ?thesis by (auto simp: obj_ok_def mem split: if_splits)
  qed
  then show ?thesis using assms(1) i smap_ok_erase [of m "nm i"] unfolding conns_ok_def by (auto simp: smap_erase_def)
qed

lemma inj_names: "inj (names_of s)"
  by (rule injI) simp

lemmas dom_objs = conns_ok_def [THEN iffD1, THEN conjunct2, THEN conjunct1]

lemma srv_emit_fields [simp]:
  "srv_ip_port (srv_emit e s) = srv_ip_port s" "srv_name (srv_emit e s) = srv_name s" "acceptor (srv_emit e s) = acceptor s"
  "thread_pool (srv_emit e s) = thread_pool s" "drain_complete_callback (srv_emit e s) = drain_complete_callback s"
  "started (srv_emit e s) = started s" "draining (srv_emit e s) = draining s" "next_conn_id (srv_emit e s) = next_conn_id s"
  "max_connections (srv_emit e s) = max_connections s" "connections (srv_emit e s) = connections s" "objs (srv_emit e s) = objs s"
  "io_tasks (srv_emit e s) = io_tasks s" "base_tasks (srv_emit e s) = base_tasks s" "srv_effects (srv_emit e s) = srv_effects s @ [e]"
  by (simp_all add: srv_emit_def)

lemma carry_fields [simp]:
  "srv_ip_port (carry i t s) = srv_ip_port s" "srv_name (carry i t s) = srv_name s" "acceptor (carry i t s) = acceptor s"
  "thread_pool (carry i t s) = thread_pool s" "drain_complete_callback (carry i t s) = drain_complete_callback s"
  "started (carry i t s) = started s" "draining (carry i t s) = draining s" "next_conn_id (carry i t s) = next_conn_id s"
  "max_connections (carry i t s) = max_connections s" "connections (carry i t s) = connections s" "objs (carry i t s) = objs s"
  "io_tasks (carry i t s) = io_tasks s @ [(i, t)]" "base_tasks (carry i t s) = base_tasks s" "srv_effects (carry i t s) = srv_effects s"
  by (simp_all add: carry_def)

lemma completions_simps [simp]:
  "completions (srv_emit e s) = completions s + (if e = DrainCompleteCb then 1 else 0)"
  "completions (carry i t s) = completions s"
  by (simp_all add: completions_def)

lemma srv_inv_emit [simp]: "e \<noteq> DrainCompleteCb \<Longrightarrow> srv_inv (srv_emit e s) = srv_inv s"
  by (simp add: srv_inv_def)

lemma srv_inv_carry: "srv_inv s \<Longrightarrow> i \<in> dom (objs s) \<Longrightarrow> srv_inv (carry i t s)"
  by (simp add: srv_inv_def conns_ok_carry)

text \<open>
  The state of the drain after a step: \<open>d\<close> says whether it was under way and \<open>k\<close> counts the
  completions still to come or already made.
\<close>

definition owed :: "TcpServer \<Rightarrow> nat" where
  "owed s = completions s + (if drain_complete_callback s then 1 else 0)"

definition same_drain :: "TcpServer \<Rightarrow> TcpServer \<Rightarrow> bool" where
  "same_drain s s' = (draining s' = draining s \<and> owed s' = owed s)"

lemma same_drain_trans: "same_drain a b \<Longrightarrow> same_drain b c \<Longrightarrow> same_drain a c"
  by (simp add: same_drain_def)

lemma same_drain_refl [simp]: "same_drain s s"
  by (simp add: same_drain_def)

lemma remove_power:
  "(removeConnection i ^^ k) s = s\<lparr>base_tasks := base_tasks s @ replicate k i\<rparr>"
  by (induction k) (simp_all add: removeConnection_def replicate_append_same [symmetric] replicate_Suc)

lemma on_conn_inv:
  assumes "srv_inv s" "i \<in> dom (objs s)"
  shows "\<exists>s'. on_conn e i s = Some s' \<and> srv_inv s' \<and> same_drain s s' \<and> dom (objs s') = dom (objs s) \<and> next_conn_id s' = next_conn_id s"
proof -
  obtain l c where c: "objs s i = Some (l, c)" using assms(2) by auto
  have "conn_inv c" using assms(1) c by (auto simp: srv_inv_def conns_ok_def obj_ok_def)
  then obtain c' where c': "conn_exec e c = Some c'" "conn_inv c'" using inv_exec by blast
  define s' where "s' = s\<lparr>objs := (objs s)(i \<mapsto> (l, c')), base_tasks := base_tasks s @ replicate (closes c' - closes c) i\<rparr>"
  have "on_conn e i s = Some s'" by (simp add: on_conn_def c c'(1) remove_power s'_def)
  moreover have "srv_inv s'" using assms(1) conns_ok_conn [of "names_of s" "connections s" "objs s" _ _ _ i l c c'] c c'(2) closes_exec [OF c'(1)]
    by (simp add: srv_inv_def s'_def completions_def)
  ultimately show ?thesis using c by (auto simp: s'_def same_drain_def owed_def completions_def)
qed

lemma maybeFinishDrain_inv:
  assumes "conns_ok (names_of s) (connections s) (objs s) (next_conn_id s) (base_tasks s) (io_tasks s)"
    "cap_ok (max_connections s) (connections s)" "drain_complete_callback s \<longrightarrow> draining s"
    "completions s > 0 \<longrightarrow> draining s \<and> connections s = []" "lpool_ok (thread_pool s) (started s) (acceptor s)"
  shows "srv_inv (maybeFinishDrain s)" "same_drain s (maybeFinishDrain s)" "next_conn_id (maybeFinishDrain s) = next_conn_id s"
  using assms by (auto simp: maybeFinishDrain_def srv_inv_def same_drain_def owed_def completions_def count_list_0_iff)

lemma remove_inv:
  assumes "srv_inv (s\<lparr>base_tasks := i # is\<rparr>)" "base_tasks s = is"
  shows "srv_inv (removeConnectionInLoop i s)" "same_drain s (removeConnectionInLoop i s)" "next_conn_id (removeConnectionInLoop i s) = next_conn_id s"
proof -
  define s1 where "s1 = carry i DestroyTask (s\<lparr>connections := smap_erase (names_of s i) (connections s)\<rparr>)"
  have s1: "conns_ok (names_of s1) (connections s1) (objs s1) (next_conn_id s1) (base_tasks s1) (io_tasks s1)"
    "cap_ok (max_connections s1) (connections s1)" "drain_complete_callback s1 \<longrightarrow> draining s1"
    "completions s1 > 0 \<longrightarrow> draining s1 \<and> connections s1 = []" "lpool_ok (thread_pool s1) (started s1) (acceptor s1)"
    using assms conns_ok_remove [OF _ inj_names [of s]]
    by (auto simp: srv_inv_def s1_def cap_ok_def smap_erase_def completions_def intro: order_trans [OF length_filter_le])
  have e: "removeConnectionInLoop i s = (if draining s1 then maybeFinishDrain s1 else s1)"
    by (simp add: removeConnectionInLoop_def s1_def Let_def)
  have "same_drain s s1" "next_conn_id s1 = next_conn_id s" "\<not> draining s1 \<Longrightarrow> srv_inv s1"
    using s1 by (auto simp: s1_def same_drain_def owed_def completions_def srv_inv_def)
  then show "srv_inv (removeConnectionInLoop i s)" "same_drain s (removeConnectionInLoop i s)"
    "next_conn_id (removeConnectionInLoop i s) = next_conn_id s"
    using maybeFinishDrain_inv [OF s1] same_drain_trans by (auto simp: e)
qed

lemma shed_fields [simp]:
  "srv_inv (shed fd peer s) = srv_inv s" "same_drain s (shed fd peer s)" "next_conn_id (shed fd peer s) = next_conn_id s"
  "acceptor (shed fd peer s) = acceptor s" "started (shed fd peer s) = started s" "draining (shed fd peer s) = draining s"
  by (simp_all add: shed_def Let_def same_drain_def owed_def)

lemma rate_allows_fields:
  assumes "rate_allows rnd now s = (ok, s1)"
  shows "srv_inv s1 = srv_inv s" "same_drain s s1" "next_conn_id s1 = next_conn_id s" "acceptor s1 = acceptor s"
    "started s1 = started s" "draining s1 = draining s" "drain_complete_callback s1 = drain_complete_callback s"
    "objs s1 = objs s" "connections s1 = connections s" "max_connections s1 = max_connections s"
  using assms by (auto simp: rate_allows_def srv_inv_def same_drain_def owed_def completions_def split: option.splits prod.splits)

lemma conn_settings_closes [simp]: "conn_inv (fold conn_configure xs (TcpConnection_new fd)) \<and> closes (fold conn_configure xs (TcpConnection_new fd)) = 0"
proof -
  have "conn_inv (fold conn_configure xs c) \<and> closes (fold conn_configure xs c) = closes c"
    if "conn_inv c" "conn_state c = kConnecting" for c
    using that
  proof (induction xs arbitrary: c)
    case (Cons x xs)
    have "conn_inv (conn_configure x c)" using inv_exec [OF Cons.prems(1), of "Configure x"] Cons.prems(2) by simp
    moreover have "conn_state (conn_configure x c) = kConnecting" using Cons.prems(2) by (cases x) simp_all
    ultimately show ?case using Cons.IH by simp
  qed simp
  then show ?thesis using conn_inv_new [of fd] by (simp add: TcpConnection_new_def closes_def)
qed

lemma getNextLoop_ok:
  assumes "lpool_ok p True a"
  shows "\<exists>l p'. getNextLoop True p = Some (l, p') \<and> lpool_ok p' True a"
  using assms by (auto simp: lpool_ok_def getNextLoop_def split: if_splits)

lemma srv_admit_inv:
  assumes "srv_inv s" "started s" "\<not> draining s" "next_conn_id s + 1 < 2 ^ 31"
    "max_connections s > 0 \<longrightarrow> length (connections s) < max_connections s"
  shows "\<exists>s'. admit_connection fd s = Some s' \<and> srv_inv s' \<and> same_drain s s' \<and> next_conn_id s' = Suc (next_conn_id s) \<and>
    acceptor s' = acceptor s \<and> started s'"
proof -
  have "lpool_ok (thread_pool s) True (acceptor s)" using assms(1,2) by (simp add: srv_inv_def)
  then obtain l p where p: "getNextLoop True (thread_pool s) = Some (l, p)" "lpool_ok p True (acceptor s)"
    using getNextLoop_ok by blast
  define s' where "s' = carry (next_conn_id s) EstablishTask
    (s\<lparr>next_conn_id := next_conn_id s + 1, thread_pool := p, connections := smap_put (names_of s (next_conn_id s)) (next_conn_id s) (connections s),
       objs := (objs s)(next_conn_id s \<mapsto> (l, fold conn_configure (conn_settings s) (TcpConnection_new fd)))\<rparr>)"
  have e: "admit_connection fd s = Some s'" using assms(4) by (simp add: admit_connection_def Let_def p(1) s'_def)
  have "conns_ok (names_of s) (connections s) (objs s) (next_conn_id s) (base_tasks s) (io_tasks s)" "\<not> drain_complete_callback s" "completions s = 0"
    using assms(1,3) by (auto simp: srv_inv_def)
  note add = conns_ok_add [OF this(1) inj_names [of s], of "fold conn_configure (conn_settings s) (TcpConnection_new fd)"]
  have "srv_inv s'" using add p(2) assms(2,5) \<open>\<not> drain_complete_callback s\<close> \<open>completions s = 0\<close>
    by (auto simp: srv_inv_def s'_def cap_ok_def completions_def)
  then show ?thesis using e assms(2) by (simp add: s'_def same_drain_def owed_def completions_def)
qed

lemma newConnection_inv:
  assumes "srv_inv s" "started s" "next_conn_id s + 1 < 2 ^ 31"
  shows "\<exists>s'. newConnection rnd fd peer now s = Some s' \<and> srv_inv s' \<and> same_drain s s' \<and> next_conn_id s' \<le> Suc (next_conn_id s) \<and>
    acceptor s' = acceptor s \<and> started s'"
proof (cases "draining s")
  case True
  then show ?thesis using assms(1,2) by (simp add: newConnection_def same_drain_def owed_def)
next
  case False
  obtain ok s1 where r: "rate_allows rnd now s = (ok, s1)" by (cases "rate_allows rnd now s")
  note R = rate_allows_fields [OF r]
  have s1: "srv_inv s1" "started s1" "\<not> draining s1" "next_conn_id s1 + 1 < 2 ^ 31" using R assms False by simp_all
  show ?thesis
  proof (cases "ok \<and> \<not> (max_connections s1 > 0 \<and> length (connections s1) \<ge> max_connections s1)")
    case True
    then have "newConnection rnd fd peer now s = admit_connection fd s1" "max_connections s1 > 0 \<longrightarrow> length (connections s1) < max_connections s1"
      using False r by (auto simp: newConnection_def)
    then show ?thesis using srv_admit_inv [OF s1] R same_drain_trans by (metis le_refl)
  next
    case 2: False
    then have "newConnection rnd fd peer now s = Some (shed fd peer s1)" using False r by (auto simp: newConnection_def)
    then show ?thesis using s1 R same_drain_trans [OF R(2) shed_fields(2)] by simp
  qed
qed

section \<open>Steps\<close>

fun finishes :: "accept_result \<Rightarrow> bool" where
  "finishes (Accepted _ _ _) = False"
| "finishes AcceptIntr = False"
| "finishes _ = True"

fun admits :: "accept_result \<Rightarrow> nat" where
  "admits (Accepted _ _ _) = 1"
| "admits _ = 0"

lemma accept_loop_inv:
  assumes "srv_inv s" "started s" "acc_callback a" "list_ex finishes rs" "next_conn_id s + sum_list (map admits rs) < 2 ^ 31"
  shows "\<exists>closed a' s'. acc_handleRead (newConnection rnd) rs a s = Some (closed, a', s') \<and> srv_inv s' \<and> same_drain s s' \<and>
    next_conn_id s' \<le> next_conn_id s + sum_list (map admits rs) \<and> acceptor s' = acceptor s \<and> started s' \<and>
    accept_channel a' = accept_channel a \<and> acc_callback a'"
  using assms
proof (induction rs arbitrary: a s)
  case (Cons r rs)
  show ?case
  proof (cases r)
    case (Accepted fd peer now)
    obtain s1 where s1: "newConnection rnd fd peer now s = Some s1" "srv_inv s1" "same_drain s s1" "next_conn_id s1 \<le> Suc (next_conn_id s)"
      "acceptor s1 = acceptor s" "started s1"
      using newConnection_inv [OF Cons.prems(1,2), of rnd fd peer now] Cons.prems(5) Accepted by auto
    have n: "next_conn_id s1 + sum_list (map admits rs) < 2 ^ 31" "list_ex finishes rs" using s1(4) Cons.prems(4,5) Accepted by simp_all
    obtain closed a' s' where s': "acc_handleRead (newConnection rnd) rs a s1 = Some (closed, a', s')" "srv_inv s'" "same_drain s1 s'"
      "next_conn_id s' \<le> next_conn_id s1 + sum_list (map admits rs)" "acceptor s' = acceptor s1" "started s'"
      "accept_channel a' = accept_channel a" "acc_callback a'"
      using Cons.IH [OF s1(2,6) Cons.prems(3) n(2,1)] by blast
    then show ?thesis using s1 Cons.prems(3) Accepted same_drain_trans [OF s1(3) s'(3)] by simp
  qed (use Cons in simp_all)
qed simp

lemma take_io_subset: "take_io f l ts = Some (x, xs) \<Longrightarrow> x \<in> set ts \<and> set xs \<subseteq> set ts"
  by (induction ts arbitrary: x xs) (auto split: if_splits)

lemma carry_all_inv:
  "srv_inv s \<Longrightarrow> set is \<subseteq> dom (objs s) \<Longrightarrow>
   srv_inv (fold (\<lambda>i. carry i t) is s) \<and> same_drain s (fold (\<lambda>i. carry i t) is s) \<and>
   next_conn_id (fold (\<lambda>i. carry i t) is s) = next_conn_id s \<and> connections (fold (\<lambda>i. carry i t) is s) = connections s"
proof (induction "is" arbitrary: s)
  case (Cons i "is")
  have "same_drain s (carry i t s)" by (simp add: same_drain_def owed_def)
  then show ?case using Cons.IH [of "carry i t s"] srv_inv_carry [OF Cons.prems(1), of i t] Cons.prems(2) same_drain_trans by auto
qed simp

lemma force_close_all_inv:
  "srv_inv s \<Longrightarrow> set is \<subseteq> dom (objs s) \<Longrightarrow>
   \<exists>s'. fold (\<lambda>i r. Option.bind r (force_close_one i)) is (Some s) = Some s' \<and> srv_inv s' \<and> same_drain s s' \<and> next_conn_id s' = next_conn_id s"
proof (induction "is" arbitrary: s)
  case (Cons i "is")
  obtain s1 where s1: "force_close_one i s = Some s1" "srv_inv s1" "same_drain s s1" "dom (objs s1) = dom (objs s)" "next_conn_id s1 = next_conn_id s"
    using on_conn_inv [OF Cons.prems(1)] Cons.prems(2) unfolding force_close_one_def by fastforce
  obtain s' where "fold (\<lambda>i r. Option.bind r (force_close_one i)) is (Some s1) = Some s'" "srv_inv s'" "same_drain s1 s'" "next_conn_id s' = next_conn_id s1"
    using Cons.IH [OF s1(2)] s1(4) Cons.prems(2) by auto
  then show ?case using s1 same_drain_trans [OF s1(3)] by simp
qed simp

lemma listed_objs: "srv_inv s \<Longrightarrow> set (map snd (connections s)) \<subseteq> dom (objs s)"
  by (auto simp: srv_inv_def conns_ok_def)

lemma shutdown_inv:
  assumes "srv_inv s" "\<not> draining s"
  shows "srv_inv (srv_shutdown d b s)" "draining (srv_shutdown d b s)" "owed (srv_shutdown d b s) = owed s + (if b then 1 else 0)"
    "next_conn_id (srv_shutdown d b s) = next_conn_id s"
proof -
  have n: "\<not> drain_complete_callback s" "completions s = 0" using assms by (auto simp: srv_inv_def)
  define s1 where "s1 = s\<lparr>draining := True, drain_complete_callback := False, acceptor := stopListening (acceptor s)\<rparr>"
  have stop: "stopListening a = a\<lparr>listening := False, accept_channel := (accept_channel a)\<lparr>ch_events := IO_NONE\<rparr>\<rparr>" for a
    by (simp add: stopListening_def acc_interest_def)
  have r: "\<not> isReading (c\<lparr>ch_events := IO_NONE\<rparr>)" for c by (simp add: isReading_def IO_NONE_def)
  have "srv_inv s1" using assms n by (auto simp: srv_inv_def s1_def lpool_ok_def stop r completions_def)
  define s2 where "s2 = fold (\<lambda>i. carry i DrainTask) (map snd (connections s)) s1"
  have s2: "srv_inv s2" "same_drain s1 s2" "next_conn_id s2 = next_conn_id s1" "connections s2 = connections s1"
    using carry_all_inv [OF \<open>srv_inv s1\<close>, of "map snd (connections s)" DrainTask] listed_objs [OF assms(1)]
    by (simp_all add: s2_def s1_def)
  have c: "fold (\<lambda>i. carry i DrainTask) is (x\<lparr>drain_complete_callback := b\<rparr>) = (fold (\<lambda>i. carry i DrainTask) is x)\<lparr>drain_complete_callback := b\<rparr>" for "is" x
  proof (induction "is" arbitrary: x)
    case (Cons i "is")
    have "carry i DrainTask (x\<lparr>drain_complete_callback := b\<rparr>) = (carry i DrainTask x)\<lparr>drain_complete_callback := b\<rparr>"
      by (simp add: carry_def)
    then show ?case using Cons.IH [of "carry i DrainTask x"] by simp
  qed simp
  define s3 where "s3 = s2\<lparr>drain_complete_callback := b\<rparr>"
  have "s\<lparr>draining := True, drain_complete_callback := b, acceptor := stopListening (acceptor s)\<rparr> = s1\<lparr>drain_complete_callback := b\<rparr>"
    "connections s1 = connections s" by (simp_all add: s1_def)
  then have e: "srv_shutdown d b s = (if connections s3 = [] then maybeFinishDrain s3
      else if d > 0 then srv_emit (ArmDeadline (d * 1000)) s3 else s3)"
    using assms(2) c [of "map snd (connections s)" s1] by (simp add: srv_shutdown_def srv_shutdownInLoop_def Let_def s3_def s2_def)
  have d2: "draining s2" "owed s2 = owed s" "\<not> drain_complete_callback s2 \<or> connections s \<noteq> []" "completions s2 + (if drain_complete_callback s2 then 1 else 0) = 0"
    using s2(1,2,4) n by (auto simp: same_drain_def s1_def owed_def completions_def srv_inv_def)
  have s3: "conns_ok (names_of s3) (connections s3) (objs s3) (next_conn_id s3) (base_tasks s3) (io_tasks s3)"
    "cap_ok (max_connections s3) (connections s3)" "drain_complete_callback s3 \<longrightarrow> draining s3"
    "completions s3 > 0 \<longrightarrow> draining s3 \<and> connections s3 = []" "lpool_ok (thread_pool s3) (started s3) (acceptor s3)"
    using s2(1) d2 by (auto simp: srv_inv_def s3_def completions_def)
  have o3: "draining s3" "owed s3 = owed s + (if b then 1 else 0)" "next_conn_id s3 = next_conn_id s" "connections s3 \<noteq> [] \<Longrightarrow> srv_inv s3"
    using d2 s2(3) s3 n by (auto simp: s3_def owed_def completions_def s1_def srv_inv_def split: if_splits)
  have "draining (maybeFinishDrain s3)" "owed (maybeFinishDrain s3) = owed s3"
    using maybeFinishDrain_inv(2) [OF s3] o3(1) by (simp_all add: same_drain_def)
  then show "srv_inv (srv_shutdown d b s)" "draining (srv_shutdown d b s)" "owed (srv_shutdown d b s) = owed s + (if b then 1 else 0)"
    "next_conn_id (srv_shutdown d b s) = next_conn_id s"
    using maybeFinishDrain_inv [OF s3] o3 by (auto simp: e owed_def)
qed

text \<open>The drain request that counts, and what the events let in.\<close>

fun drain_request :: "srv_event list \<Rightarrow> bool option" where
  "drain_request [] = None"
| "drain_request (SrvShutdown d b # es) = Some b"
| "drain_request (_ # es) = drain_request es"

fun srv_event_ok :: "srv_event \<Rightarrow> bool" where
  "srv_event_ok (AcceptReady rs) = list_ex finishes rs"
| "srv_event_ok _ = True"

fun ev_admits :: "srv_event \<Rightarrow> nat" where
  "ev_admits (AcceptReady rs) = sum_list (map admits rs)"
| "ev_admits _ = 0"

fun is_shutdown :: "srv_event \<Rightarrow> bool" where
  "is_shutdown (SrvShutdown d b) = True"
| "is_shutdown _ = False"

lemma emit_closed:
  "srv_inv (fold (\<lambda>fd. srv_emit (CloseFd fd)) fds s) = srv_inv s \<and> same_drain s (fold (\<lambda>fd. srv_emit (CloseFd fd)) fds s) \<and>
   next_conn_id (fold (\<lambda>fd. srv_emit (CloseFd fd)) fds s) = next_conn_id s"
proof (induction fds arbitrary: s)
  case (Cons fd fds)
  have "same_drain s (srv_emit (CloseFd fd) s)" by (simp add: same_drain_def owed_def)
  then show ?case using Cons [of "srv_emit (CloseFd fd) s"] same_drain_trans by auto
qed simp

lemma exec_accept:
  assumes "srv_inv s" "list_ex finishes rs" "next_conn_id s + sum_list (map admits rs) < 2 ^ 31"
  shows "\<exists>s'. srv_exec rnd (AcceptReady rs) s = Some s' \<and> srv_inv s' \<and> same_drain s s' \<and> next_conn_id s' \<le> next_conn_id s + sum_list (map admits rs)"
proof (cases "isReading (accept_channel (acceptor s))")
  case True
  then have st: "started s" "acc_callback (acceptor s)" using assms(1) by (auto simp: srv_inv_def lpool_ok_def)
  obtain closed a' s' where s': "acc_handleRead (newConnection rnd) rs (acceptor s) s = Some (closed, a', s')" "srv_inv s'" "same_drain s s'"
    "next_conn_id s' \<le> next_conn_id s + sum_list (map admits rs)" "acceptor s' = acceptor s" "started s'"
    "accept_channel a' = accept_channel (acceptor s)" "acc_callback a'"
    using accept_loop_inv [OF assms(1) st assms(2,3)] by blast
  have "srv_inv (s'\<lparr>acceptor := a'\<rparr>)" "same_drain s (s'\<lparr>acceptor := a'\<rparr>)"
    using s' by (auto simp: srv_inv_def lpool_ok_def same_drain_def owed_def completions_def)
  then show ?thesis using True s'(1,4) emit_closed [of closed "s'\<lparr>acceptor := a'\<rparr>"] same_drain_trans by auto
qed (use assms in simp)

lemma exec_start:
  assumes "srv_inv s"
  shows "\<exists>s'. srv_start h f s = Some s' \<and> srv_inv s' \<and> same_drain s s' \<and> next_conn_id s' = next_conn_id s"
proof (cases "started s")
  case False
  then have p: "\<not> pool_started (thread_pool s)" "loops (thread_pool s) = []" "next_loop (thread_pool s) = 0" "acc_callback (acceptor s)"
    using assms by (auto simp: srv_inv_def lpool_ok_def)
  have "acc_callback (acc_listen a) = acc_callback a" for a by (simp add: acc_listen_def acc_interest_def)
  then show ?thesis using False p assms
    by (auto simp: srv_start_def pool_start_def srv_inv_def lpool_ok_def same_drain_def owed_def completions_def)
qed (use assms in \<open>simp add: srv_start_def\<close>)

lemma srv_exec_inv:
  assumes "srv_inv s" "srv_event_ok e" "next_conn_id s + ev_admits e < 2 ^ 31" "\<not> is_shutdown e"
  shows "\<exists>s'. srv_exec rnd e s = Some s' \<and> srv_inv s' \<and> same_drain s s' \<and> next_conn_id s' \<le> next_conn_id s + ev_admits e"
proof (cases e)
  case (SrvStart h f)
  then show ?thesis using exec_start [OF assms(1), of h f] by auto
next
  case (AcceptReady rs)
  then show ?thesis using exec_accept [OF assms(1), of rs] assms(2,3) by simp
next
  case DeadlineFired
  then show ?thesis using force_close_all_inv [OF assms(1) listed_objs [OF assms(1)]] assms(1)
    by (auto simp: forceCloseAllInLoop_def)
next
  case RunBase
  show ?thesis
  proof (cases "base_tasks s")
    case (Cons i "is")
    have "s\<lparr>base_tasks := i # is\<rparr> = s" using Cons by simp
    then have "srv_inv ((s\<lparr>base_tasks := is\<rparr>)\<lparr>base_tasks := i # is\<rparr>)" using assms(1) by simp
    note R = remove_inv [OF this]
    have "same_drain s (s\<lparr>base_tasks := is\<rparr>)" by (simp add: same_drain_def owed_def completions_def)
    then show ?thesis using Cons RunBase R same_drain_trans by auto
  qed (use RunBase assms(1) in simp)
next
  case (RunIo l)
  show ?thesis
  proof (cases "take_io (conn_loop s) l (io_tasks s)")
    case (Some r)
    obtain i t ts where r: "r = ((i, t), ts)" by (cases r) auto
    define s1 where "s1 = s\<lparr>io_tasks := ts\<rparr>"
    define s2 where "s2 = (if t = DrainTask \<and> drain_callback s1 then srv_emit (DrainCb i) s1 else s1)"
    have t: "(i, t) \<in> set (io_tasks s)" "set ts \<subseteq> set (io_tasks s)" using take_io_subset Some r by auto
    have i: "i \<in> dom (objs s2)" using assms(1) t(1) by (auto simp: srv_inv_def conns_ok_def s1_def s2_def)
    have "srv_inv s1" using assms(1) conns_ok_take [OF _ t(2)] by (simp add: srv_inv_def s1_def completions_def)
    then have s2: "srv_inv s2" "same_drain s s2" "next_conn_id s2 = next_conn_id s"
      by (simp_all add: s2_def s1_def same_drain_def owed_def completions_def)
    obtain s' where s': "on_conn (case t of EstablishTask \<Rightarrow> Established | DestroyTask \<Rightarrow> Destroyed | DrainTask \<Rightarrow> Shutdown True) i s2 = Some s'"
      "srv_inv s'" "same_drain s2 s'" "next_conn_id s' = next_conn_id s2"
      using on_conn_inv [OF s2(1) i] by blast
    have "srv_exec rnd e s = Some s'" using s'(1) Some r RunIo by (cases t) (auto simp: s2_def s1_def split: if_splits)
    then show ?thesis using s' s2 same_drain_trans by auto
  qed (use RunIo assms(1) in simp)
next
  case (ConnEvent i ev)
  then show ?thesis using on_conn_inv [OF assms(1), of i ev] assms(1) by (auto simp: dom_def)
qed (use assms(4) in simp)

lemma srv_run_inv:
  assumes "srv_inv s" "list_all srv_event_ok es" "next_conn_id s + sum_list (map ev_admits es) < 2 ^ 31"
  shows "\<exists>s'. srv_run rnd es s = Some s' \<and> srv_inv s' \<and> draining s' = (draining s \<or> drain_request es \<noteq> None) \<and>
    owed s' = owed s + (if \<not> draining s \<and> drain_request es = Some True then 1 else 0)"
  using assms
proof (induction es arbitrary: s)
  case (Cons e es)
  show ?case
  proof (cases "is_shutdown e")
    case True
    then obtain d b where e: "e = SrvShutdown d b" by (cases e) simp_all
    let ?s = "srv_shutdown d b s"
    have s1: "srv_inv ?s" "draining ?s" "owed ?s = owed s + (if \<not> draining s \<and> b then 1 else 0)" "next_conn_id ?s = next_conn_id s"
      using shutdown_inv [OF Cons.prems(1), of d b] Cons.prems(1) by (cases "draining s"; simp add: srv_shutdown_def)+
    then show ?thesis using Cons.IH [OF s1(1)] Cons.prems(2,3) by (auto simp: e)
  next
    case False
    have b: "srv_event_ok e" "list_all srv_event_ok es" "next_conn_id s + ev_admits e < 2 ^ 31" using Cons.prems(2,3) by simp_all
    obtain s1 where s1: "srv_exec rnd e s = Some s1" "srv_inv s1" "same_drain s s1" "next_conn_id s1 \<le> next_conn_id s + ev_admits e"
      using srv_exec_inv [OF Cons.prems(1) b(1,3) False] by blast
    have "next_conn_id s1 + sum_list (map ev_admits es) < 2 ^ 31" using s1(4) Cons.prems(3) by simp
    moreover have "drain_request (e # es) = drain_request es" using False by (cases e) simp_all
    ultimately show ?thesis using Cons.IH [OF s1(2) b(2)] s1(1,3) by (simp add: same_drain_def del: srv_exec.simps)
  qed
qed simp

lemma configured_inv:
  "srv_inv (fold srv_configure cfg (TcpServer_new ip_port name base fd idle))"
  "draining (fold srv_configure cfg (TcpServer_new ip_port name base fd idle)) = False"
  "owed (fold srv_configure cfg (TcpServer_new ip_port name base fd idle)) = 0"
  "next_conn_id (fold srv_configure cfg (TcpServer_new ip_port name base fd idle)) = 1"
proof -
  define fresh where "fresh s = (srv_inv s \<and> connections s = [] \<and> \<not> draining s \<and> \<not> started s \<and> owed s = 0 \<and> next_conn_id s = 1)" for s
  have step: "fresh (srv_configure x s)" if "fresh s" for x s
    using that by (cases x) (auto simp: fresh_def srv_inv_def cap_ok_def owed_def completions_def lpool_ok_def setThreadNum_def setAcceptRateLimit_def)
  have "fresh (TcpServer_new ip_port name base fd idle)"
    by (simp add: fresh_def srv_inv_def conns_ok_def cap_ok_def owed_def completions_def lpool_ok_def TcpServer_new_def
        EventLoopThreadPool_new_def Acceptor_new_def Channel_new_def isReading_def IO_NONE_def smap_ok_def)
  then have "fresh (fold srv_configure cfg (TcpServer_new ip_port name base fd idle))"
    by (induction cfg arbitrary: rule: rev_induct) (simp_all add: step)
  then show "srv_inv (fold srv_configure cfg (TcpServer_new ip_port name base fd idle))"
    "draining (fold srv_configure cfg (TcpServer_new ip_port name base fd idle)) = False"
    "owed (fold srv_configure cfg (TcpServer_new ip_port name base fd idle)) = 0"
    "next_conn_id (fold srv_configure cfg (TcpServer_new ip_port name base fd idle)) = 1" by (simp_all add: fresh_def)
qed

text \<open>
  C6: A drain. However accepts, connection events, posted tasks and the deadline interleave, the server runs without failing. It
  drains exactly if a shutdown was asked for; the completion callback given with the first request runs once,
  when and only when no connection is left, and from then on no connection is listed again.
\<close>

theorem drain_completes_once:
  assumes "list_all srv_event_ok es" "1 + sum_list (map ev_admits es) < 2 ^ 31"
  shows "\<exists>s. srv_run rnd es (fold srv_configure cfg (TcpServer_new ip_port name base fd idle)) = Some s \<and>
    draining s = (drain_request es \<noteq> None) \<and>
    count_list (srv_effects s) DrainCompleteCb = (if drain_request es = Some True \<and> connections s = [] then 1 else 0)"
proof -
  let ?s = "fold srv_configure cfg (TcpServer_new ip_port name base fd idle)"
  obtain s where s: "srv_run rnd es ?s = Some s" "srv_inv s" "draining s = (drain_request es \<noteq> None)"
    "owed s = (if drain_request es = Some True then 1 else 0)"
    using srv_run_inv [OF configured_inv(1) assms(1), of cfg ip_port name base fd idle rnd] assms(2)
      configured_inv(2-4) [of cfg ip_port name base fd idle] by auto
  have "completions s = (if drain_request es = Some True \<and> connections s = [] then 1 else 0)"
    using s(2,4) by (auto simp: owed_def srv_inv_def split: if_splits)
  then show ?thesis using s by (simp add: completions_def)
qed

theorem drain_completes_once_witness:
  "\<exists>s. srv_run (\<lambda>x. x) [SrvStart False (\<lambda>i. i), AcceptReady [Accepted 7 ''peer'' 0, AcceptAgain], RunIo 0, SrvShutdown 30 True,
       ConnEvent 1 (ForceClose True), RunBase]
      (fold srv_configure [SetMaxConnections 2] (TcpServer_new ''addr'' ''srv'' 0 3 4)) = Some s \<and>
    draining s = (drain_request [SrvStart False (\<lambda>i. i), AcceptReady [Accepted 7 ''peer'' 0, AcceptAgain], RunIo 0, SrvShutdown 30 True,
       ConnEvent 1 (ForceClose True), RunBase] \<noteq> None) \<and>
    count_list (srv_effects s) DrainCompleteCb =
      (if drain_request [SrvStart False (\<lambda>i. i), AcceptReady [Accepted 7 ''peer'' 0, AcceptAgain], RunIo 0, SrvShutdown 30 True,
         ConnEvent 1 (ForceClose True), RunBase] = Some True \<and> connections s = [] then 1 else 0)"
  by (rule drain_completes_once) simp_all

text \<open>
  C26: The table of connections. It never exceeds the cap; names never collide; every connection admitted stays listed until the base
  loop has handled a notification of its close, and no longer; and each keeps the invariant of connections.
\<close>

theorem connections_listed_until_closed:
  assumes "list_all srv_event_ok es" "1 + sum_list (map ev_admits es) < 2 ^ 31"
  shows "\<exists>s. srv_run rnd es (fold srv_configure cfg (TcpServer_new ip_port name base fd idle)) = Some s \<and>
    (max_connections s = 0 \<or> length (connections s) \<le> max_connections s) \<and> distinct (map fst (connections s)) \<and>
    (\<forall>i \<in> {1..<next_conn_id s}. \<exists>l c. objs s i = Some (l, c) \<and> conn_inv c \<and>
       ((conn_name (srv_name s) (srv_ip_port s) i, i) \<in> set (connections s) \<longleftrightarrow>
        count_list (effects c) CloseCb = count_list (base_tasks s) i))"
proof -
  let ?s = "fold srv_configure cfg (TcpServer_new ip_port name base fd idle)"
  obtain s where s: "srv_run rnd es ?s = Some s" "srv_inv s"
    using srv_run_inv [OF configured_inv(1) assms(1), of cfg ip_port name base fd idle rnd] assms(2)
      configured_inv(4) [of cfg ip_port name base fd idle] by auto
  have c: "conns_ok (names_of s) (connections s) (objs s) (next_conn_id s) (base_tasks s) (io_tasks s)"
    "cap_ok (max_connections s) (connections s)" using s(2) by (simp_all add: srv_inv_def)
  have "\<exists>l c. objs s i = Some (l, c) \<and> obj_ok (connections s) (names_of s i) (base_tasks s) i c" if "i \<in> {1..<next_conn_id s}" for i
    using c(1) that unfolding conns_ok_def by (metis domD surj_pair)
  moreover have "distinct (map fst (connections s))"
    using c(1) by (simp add: conns_ok_def smap_ok_def strict_sorted_iff)
  ultimately show ?thesis using s(1) c(2) by (fastforce simp: cap_ok_def obj_ok_def closes_def)
qed

theorem connections_listed_until_closed_witness:
  "\<exists>s. srv_run (\<lambda>x. x) [SrvStart False (\<lambda>i. i), AcceptReady [Accepted 7 ''peer'' 0, Accepted 8 ''peer'' 0, AcceptIntr, AcceptAgain], RunIo 0]
      (fold srv_configure [SetMaxConnections 1] (TcpServer_new ''addr'' ''srv'' 0 3 4)) = Some s \<and>
    (max_connections s = 0 \<or> length (connections s) \<le> max_connections s) \<and> distinct (map fst (connections s)) \<and>
    (\<forall>i \<in> {1..<next_conn_id s}. \<exists>l c. objs s i = Some (l, c) \<and> conn_inv c \<and>
       ((conn_name (srv_name s) (srv_ip_port s) i, i) \<in> set (connections s) \<longleftrightarrow>
        count_list (effects c) CloseCb = count_list (base_tasks s) i))"
  by (rule connections_listed_until_closed) simp_all

section \<open>Descriptors\<close>

text \<open>A descriptor handed to the server is closed at once, or owned by one new connection that is listed and about to be established.\<close>

lemma configure_channel [simp]: "channel (fold conn_configure xs c) = channel c"
proof (induction xs arbitrary: c)
  case (Cons x xs)
  have "channel (conn_configure x c) = channel c" by (cases x) simp_all
  then show ?case using Cons by simp
qed simp

theorem newConnection_owns_descriptor:
  assumes "newConnection rnd sockfd peer now s = Some s'"
  shows "objs s' = objs s \<and> connections s' = connections s \<and> io_tasks s' = io_tasks s \<and>
      (\<exists>rest. srv_effects s' = srv_effects s @ CloseFd sockfd # rest \<and> rest \<in> {[], [OverloadCb peer]}) \<or>
    \<not> draining s \<and> srv_effects s' = srv_effects s \<and> io_tasks s' = io_tasks s @ [(next_conn_id s, EstablishTask)] \<and>
      (\<exists>l c. objs s' = (objs s)(next_conn_id s \<mapsto> (l, c)) \<and> ch_fd (channel c) = sockfd)"
proof (cases "draining s")
  case True
  then show ?thesis using assms by (auto simp: newConnection_def)
next
  case False
  obtain ok s1 where r: "rate_allows rnd now s = (ok, s1)" by (cases "rate_allows rnd now s")
  have s1: "objs s1 = objs s" "connections s1 = connections s" "io_tasks s1 = io_tasks s" "srv_effects s1 = srv_effects s"
    "next_conn_id s1 = next_conn_id s"
    using r by (auto simp: rate_allows_def split: option.splits prod.splits)
  show ?thesis
  proof (cases "ok \<and> \<not> (max_connections s1 > 0 \<and> length (connections s1) \<ge> max_connections s1)")
    case True
    then have "admit_connection sockfd s1 = Some s'" using assms False r by (auto simp: newConnection_def)
    then obtain l p where "objs s' = (objs s)(next_conn_id s \<mapsto> (l, fold conn_configure (conn_settings s1) (TcpConnection_new sockfd)))"
      and e: "srv_effects s' = srv_effects s" "io_tasks s' = io_tasks s @ [(next_conn_id s, EstablishTask)]"
      using s1 by (auto simp: admit_connection_def Let_def bind_eq_Some_conv split: if_splits)
    moreover have "ch_fd (channel (fold conn_configure (conn_settings s1) (TcpConnection_new sockfd))) = sockfd"
      by (simp add: TcpConnection_new_def Channel_new_def)
    ultimately show ?thesis using False e by blast
  next
    case 2: False
    then have "s' = shed sockfd peer s1" using assms False r by (auto simp: newConnection_def split: if_splits)
    then show ?thesis using s1 by (auto simp: shed_def Let_def)
  qed
qed

text \<open>
  The spare descriptor: out of descriptors, the acceptor gives up the spare, takes one connection in its place and
  closes it, and ends the round. If the spare cannot be reopened, the next such event takes no connection off the queue.
\<close>

lemma out_of_descriptors:
  "idle_fd a \<ge> 0 \<Longrightarrow> fd \<ge> 0 \<Longrightarrow>
    acc_handleRead cb (AcceptNoFds fd spare # rs) a s = Some ([idle_fd a, fd], a\<lparr>idle_fd := spare\<rparr>, s)"
  "idle_fd a < 0 \<Longrightarrow> acc_handleRead cb (AcceptNoFds fd spare # rs) a s = Some ([], a, s)"
  by simp_all

text \<open>
  A connection that its loop has not established yet when the deadline fires is skipped: \<^verbatim>\<open>forceClose\<close> tests the state in the base
  loop. With a deadline of zero nothing is ever closed by force.
\<close>

lemma deadline_skips_connecting:
  "objs s i = Some (l, c) \<Longrightarrow> conn_state c = kConnecting \<Longrightarrow> force_close_one i s = Some s"
  by (simp add: force_close_one_def on_conn_def forceClose_def fun_upd_idem)

lemma no_deadline: "ArmDeadline n \<in> set (srv_effects (srv_shutdown 0 b s)) \<Longrightarrow> ArmDeadline n \<in> set (srv_effects s)"
proof -
  have "srv_effects (fold (\<lambda>i. carry i t) is x) = srv_effects x" for t "is" x by (induction "is" arbitrary: x) simp_all
  then show "ArmDeadline n \<in> set (srv_effects (srv_shutdown 0 b s)) \<Longrightarrow> ArmDeadline n \<in> set (srv_effects s)"
    by (auto simp: srv_shutdown_def srv_shutdownInLoop_def Let_def maybeFinishDrain_def split: if_splits)
qed

end
