(* ===== verification/Net_Client.thy ===== *)
theory Net_Client
  imports Net_Connection Net_Connector
begin

text \<open>
  The client, \<^verbatim>\<open>net/tcp_client.h\<close> and \<^verbatim>\<open>net/tcp_client.cc\<close>: a connector that hands its socket to a connection, and a new attempt
  when the connection closes and retrying is on. All operations run in the loop of the client. The theory shows
  that, connected only when idle, a client owns at most one connection and never an attempt beside it, and
  that every socket handed over belongs to the current connection or to one that was torn down. Connecting twice is not idempotent.
\<close>

section \<open>State\<close>

text \<open>The last field holds the connections that were torn down.\<close>

record TcpClient =
  connector :: Connector
  cl_connection_callback :: bool
  cl_message_callback :: bool
  cl_write_complete_callback :: bool
  cl_retry :: bool
  cl_connect :: bool
  cl_next_conn_id :: nat
  cl_connection :: "TcpConnection option"
  gone :: "TcpConnection list"

definition TcpClient_new :: "string list \<Rightarrow> int \<Rightarrow> TcpClient" where
  "TcpClient_new addrs now =
     \<lparr>connector = setNewConnectionCallback (Connector_new addrs now),
      cl_connection_callback = False, cl_message_callback = False, cl_write_complete_callback = False,
      cl_retry = False, cl_connect = True, cl_next_conn_id = 1, cl_connection = None, gone = []\<rparr>"

definition enableRetry :: "TcpClient \<Rightarrow> TcpClient" where
  "enableRetry t = t\<lparr>cl_retry := True\<rparr>"

definition cl_settings :: "TcpClient \<Rightarrow> conn_setting list" where
  "cl_settings t =
     (if cl_connection_callback t then [SetConnectionCallback] else []) @
     (if cl_message_callback t then [SetMessageCallback] else []) @
     (if cl_write_complete_callback t then [SetWriteCompleteCallback] else []) @ [SetCloseCallback]"

section \<open>Operations\<close>

definition cl_connect_op :: "(real \<Rightarrow> real) \<Rightarrow> int \<Rightarrow> int \<times> cn_errno \<Rightarrow> TcpClient \<Rightarrow> TcpClient option" where
  "cl_connect_op rnd now att t = do {
     c \<leftarrow> startInLoop rnd now att (start_flag (connector t));
     Some (t\<lparr>cl_connect := True, connector := c\<rparr>)
   }"

definition cl_disconnect :: "TcpClient \<Rightarrow> TcpClient" where
  "cl_disconnect t = t\<lparr>cl_connect := False, cl_connection := map_option (shutdown True) (cl_connection t)\<rparr>"

definition cl_stop :: "TcpClient \<Rightarrow> TcpClient option" where
  "cl_stop t = do {
     c \<leftarrow> stopInLoop (stop_flag (connector t));
     Some (t\<lparr>cl_connect := False, connector := c\<rparr>)
   }"

text \<open>\<^verbatim>\<open>newConnection\<close>; \<open>None\<close> when the connection counter overflows.\<close>

definition cl_newConnection :: "int \<Rightarrow> TcpClient \<Rightarrow> TcpClient option" where
  "cl_newConnection sockfd t =
     (if cl_next_conn_id t + 1 \<ge> 2 ^ 31 then None
      else let conn = fold conn_configure (cl_settings t) (TcpConnection_new sockfd)
           in Some (t\<lparr>cl_next_conn_id := cl_next_conn_id t + 1, cl_connection := Some (connectEstablished conn)\<rparr>))"

definition cl_removeConnection :: "(real \<Rightarrow> real) \<Rightarrow> int \<Rightarrow> int \<times> cn_errno \<Rightarrow> TcpConnection \<Rightarrow> TcpClient \<Rightarrow> TcpClient option" where
  "cl_removeConnection rnd now att conn t =
     (let t1 = t\<lparr>cl_connection := None, gone := gone t @ [connectDestroyed conn]\<rparr>
      in if cl_retry t1 \<and> cl_connect t1
         then do { c \<leftarrow> restart rnd now att (connector t1); Some (t1\<lparr>connector := c\<rparr>) }
         else Some t1)"

definition TcpClient_destroy :: "TcpClient \<Rightarrow> TcpClient option" where
  "TcpClient_destroy t = do {
     c \<leftarrow> stopInLoop (stop_flag (connector t));
     Some (case cl_connection t of
             None \<Rightarrow> t\<lparr>connector := c\<rparr>
           | Some conn \<Rightarrow> t\<lparr>connector := c, cl_connection := None, gone := gone t @ [connectDestroyed conn]\<rparr>)
   }"

section \<open>Events\<close>

datatype cl_event =
    ClConnect "int \<times> cn_errno"
  | ClDisconnect
  | ClStop
  | ClConnector cn_event
  | ClConn "int \<times> cn_errno" conn_event

text \<open>
  What the connector does by itself, and what a connection does: its events other than those of the owner. A socket the
  connector hands over becomes the connection; a run of the close callback removes it. The pair is the result of
  the attempt that a removal may start.
\<close>

fun connector_event :: "cn_event \<Rightarrow> bool" where
  "connector_event (Writable _ _) = True"
| "connector_event ErrorEvent = True"
| "connector_event ConnectTimer = True"
| "connector_event (RetryTimer _) = True"
| "connector_event (RunQueued _) = True"
| "connector_event _ = False"

fun owner_event :: "conn_event \<Rightarrow> bool" where
  "owner_event (Configure _) = True"
| "owner_event Established = True"
| "owner_event Destroyed = True"
| "owner_event _ = False"

definition close_count :: "TcpConnection \<Rightarrow> nat" where
  "close_count c = count_list (effects c) CloseCb"

fun cl_exec :: "(real \<Rightarrow> real) \<Rightarrow> int \<Rightarrow> cl_event \<Rightarrow> TcpClient \<Rightarrow> TcpClient option" where
  "cl_exec rnd now (ClConnect att) t = cl_connect_op rnd now att t"
| "cl_exec rnd now ClDisconnect t = Some (cl_disconnect t)"
| "cl_exec rnd now ClStop t = cl_stop t"
| "cl_exec rnd now (ClConnector e) t =
     (if connector_event e
      then do {
        c \<leftarrow> cn_exec rnd now e (connector t);
        fold (\<lambda>fd r. Option.bind r (cl_newConnection fd)) (drop (length (handed_over (connector t))) (handed_over c))
          (Some (t\<lparr>connector := c\<rparr>))
      }
      else Some t)"
| "cl_exec rnd now (ClConn att e) t =
     (case cl_connection t of
        None \<Rightarrow> Some t
      | Some conn \<Rightarrow>
          if owner_event e then Some t
          else do {
            conn' \<leftarrow> conn_exec e conn;
            let t1 = t\<lparr>cl_connection := Some conn'\<rparr>;
            if close_count conn' > close_count conn then cl_removeConnection rnd now att conn' t1 else Some t1
          })"

fun cl_run :: "(real \<Rightarrow> real) \<Rightarrow> (int \<times> cl_event) list \<Rightarrow> TcpClient \<Rightarrow> TcpClient option" where
  "cl_run rnd [] t = Some t"
| "cl_run rnd ((now, e) # es) t = Option.bind (cl_exec rnd now e t) (cl_run rnd es)"

section \<open>Sockets handed over\<close>

lemma handed_emit [simp]: "handed_over (cn_emit e c) = handed_over c @ handed_fd e"
  by (simp add: handed_over_def)

lemma handed_update [simp]:
  "handed_over (c\<lparr>current := v1\<rparr>) = handed_over c" "handed_over (c\<lparr>connect_flag := v2\<rparr>) = handed_over c"
  "handed_over (c\<lparr>cn_state := v3\<rparr>) = handed_over c" "handed_over (c\<lparr>cn_channel := v4\<rparr>) = handed_over c"
  "handed_over (c\<lparr>backoff := v5\<rparr>) = handed_over c" "handed_over (c\<lparr>retry_timer_armed := v2\<rparr>) = handed_over c"
  "handed_over (c\<lparr>connect_timer_armed := v2\<rparr>) = handed_over c" "handed_over (c\<lparr>cn_queue := v6\<rparr>) = handed_over c"
  "handed_over (c\<lparr>watched := v7\<rparr>) = handed_over c"
  by (simp_all add: handed_over_def)

lemma handed_retry: "retry rnd now fd c = Some c' \<Longrightarrow> handed_over c' = handed_over c"
  by (auto simp: retry_def Let_def bind_eq_Some_conv split: if_splits)

lemma handed_connect: "connect rnd now att c = Some c' \<Longrightarrow> handed_over c' = handed_over c"
  using handed_retry by (fastforce simp: connect_def Let_def connecting_def armConnectTimeout_def split: if_splits prod.splits)

lemma handed_start: "startInLoop rnd now att c = Some c' \<Longrightarrow> handed_over c' = handed_over c"
  using handed_connect by (auto simp: startInLoop_def split: if_splits)

lemma handed_cancel [simp]: "handed_over (cancelConnectTimeout c) = handed_over c"
  by (simp add: cancelConnectTimeout_def)

lemma handed_remove: "removeAndResetChannel c = Some (fd, c') \<Longrightarrow> handed_over c' = handed_over c"
  by (auto simp: removeAndResetChannel_def split: option.splits)

lemma handed_stop: "stopInLoop c = Some c' \<Longrightarrow> handed_over c' = handed_over c"
  by (auto simp: stopInLoop_def Let_def bind_eq_Some_conv dest!: handed_remove split: if_splits)

lemma handed_restart: "restart rnd now att c = Some c' \<Longrightarrow> handed_over c' = handed_over c"
  by (auto simp: restart_def dest!: handed_start)

text \<open>A step of the connector hands over at most one socket, the one it was connecting.\<close>

lemma handed_exec:
  assumes "cn_exec rnd now e c = Some c'" "connector_event e"
  shows "handed_over c' = handed_over c \<or>
    cn_state c = kConnecting \<and> cn_state c' = kConnected \<and> cn_queue c' = cn_queue c @ [ResetChannel] \<and>
    retry_timer_armed c' = retry_timer_armed c \<and> (\<exists>fd. handed_over c' = handed_over c @ [fd])"
proof (cases e)
  case (Writable so_error self)
  show ?thesis
  proof (cases "watched c \<noteq> {} \<and> cn_state c = kConnecting")
    case True
    obtain fd c1 where c1: "removeAndResetChannel (cancelConnectTimeout c) = Some (fd, c1)"
      using assms(1) Writable True by (auto simp: cn_handleWrite_def bind_eq_Some_conv)
    then have "handed_over c1 = handed_over c" "cn_queue c1 = cn_queue c @ [ResetChannel]" "retry_timer_armed c1 = retry_timer_armed c"
      by (auto simp: removeAndResetChannel_def cancelConnectTimeout_def split: option.splits if_splits)
    then show ?thesis using assms(1) Writable True c1 handed_retry
      by (auto simp: cn_handleWrite_def Let_def split: if_splits)
  qed (use assms(1) Writable in \<open>auto simp: cn_handleWrite_def split: if_splits\<close>)
next
  case ErrorEvent
  then show ?thesis using assms(1) by (auto simp: cn_handleError_def bind_eq_Some_conv dest!: handed_retry handed_remove split: if_splits)
next
  case ConnectTimer
  then show ?thesis using assms(1) by (auto simp: onConnectTimeout_def bind_eq_Some_conv dest!: handed_retry handed_remove split: if_splits)
next
  case (RetryTimer att)
  then show ?thesis using assms(1) by (auto dest!: handed_start split: if_splits)
next
  case (RunQueued att)
  then show ?thesis using assms(1) by (auto simp: resetChannel_def dest!: handed_start split: list.splits cn_task.splits)
qed (use assms(2) in simp_all)

section \<open>One connection at a time\<close>

definition resting :: "Connector \<Rightarrow> bool" where
  "resting c = (cn_state c \<noteq> kConnecting \<and> \<not> retry_timer_armed c \<and> TryCandidate \<notin> set (cn_queue c))"

definition cl_inv :: "TcpClient \<Rightarrow> bool" where
  "cl_inv t =
     (cn_inv (connector t) \<and> cl_next_conn_id t = Suc (length (handed_over (connector t))) \<and>
      (case cl_connection t of
         None \<Rightarrow> length (handed_over (connector t)) = length (gone t)
       | Some conn \<Rightarrow> conn_inv conn \<and> resting (connector t) \<and> length (handed_over (connector t)) = Suc (length (gone t))))"

text \<open>The client is connected only when idle, and the loop has run its queue before a connection reports or a timer of the backoff fires.\<close>

fun cl_event_ok :: "cl_event \<Rightarrow> TcpClient \<Rightarrow> bool" where
  "cl_event_ok (ClConnect att) t = (cn_idle (connector t) \<and> cl_connection t = None)"
| "cl_event_ok (ClConnector (RetryTimer att)) t = (cn_queue (connector t) = [])"
| "cl_event_ok (ClConn att e) t = (cn_queue (connector t) = [])"
| "cl_event_ok _ t = True"

fun cl_orderly :: "(real \<Rightarrow> real) \<Rightarrow> (int \<times> cl_event) list \<Rightarrow> TcpClient \<Rightarrow> bool" where
  "cl_orderly rnd [] t = True"
| "cl_orderly rnd ((now, e) # es) t =
     (cl_event_ok e t \<and> (case cl_exec rnd now e t of None \<Rightarrow> True | Some t' \<Rightarrow> cl_orderly rnd es t'))"

lemma resting_stays:
  assumes "cn_inv c" "resting c" "connector_event e" "cn_exec rnd now e c = Some c'"
  shows "resting c' \<and> handed_over c' = handed_over c"
proof -
  have r: "watched c = {}" "\<not> connect_timer_armed c" "\<not> retry_timer_armed c" "cn_queue c = [] \<or> cn_queue c = [ResetChannel]"
    using assms(1,2) by (auto simp: cn_inv_def resting_def at_rest_def split: if_splits)
  show ?thesis
  proof (cases e)
    case (RunQueued att)
    then show ?thesis using r(4) assms(2,4) by (auto simp: resetChannel_def resting_def)
  qed (use r assms(2,3,4) in auto)
qed

lemma event_ok_connector: "connector_event e \<Longrightarrow> cl_event_ok (ClConnector e) t \<Longrightarrow> event_ok e (connector t)"
  by (cases e) simp_all

lemma cl_newConnection_inv:
  assumes "cn_inv (connector t)" "resting (connector t)" "length (handed_over (connector t)) = Suc (length (gone t))"
    "cl_next_conn_id t = length (handed_over (connector t))" "cl_next_conn_id t + 1 < 2 ^ 31"
  shows "\<exists>t'. cl_newConnection fd t = Some t' \<and> cl_inv t' \<and> connector t' = connector t"
proof -
  let ?c = "fold conn_configure (cl_settings t) (TcpConnection_new fd)"
  have "conn_inv (fold conn_configure xs c) \<and> conn_state (fold conn_configure xs c) = conn_state.kConnecting"
    if "conn_inv c" "conn_state c = conn_state.kConnecting" for xs c
    using that
  proof (induction xs arbitrary: c)
    case (Cons x xs)
    have "conn_inv (conn_configure x c)" using inv_exec [OF Cons.prems(1), of "Configure x"] Cons.prems(2) by simp
    moreover have "conn_state (conn_configure x c) = conn_state.kConnecting" using Cons.prems(2) by (cases x) simp_all
    ultimately show ?case using Cons.IH by simp
  qed simp
  then have c: "conn_inv ?c" "conn_state ?c = conn_state.kConnecting" using conn_inv_new [of fd] by (simp_all add: TcpConnection_new_def)
  then have "conn_inv (connectEstablished ?c)" using inv_exec [OF c(1), of Established] by simp
  then show ?thesis using assms by (simp add: cl_newConnection_def Let_def cl_inv_def)
qed

lemma cl_exec_connector:
  assumes "cl_inv t" "cl_event_ok (ClConnector e) t" "connector_event e" "cl_next_conn_id t + 1 < 2 ^ 31"
  shows "\<exists>t'. cl_exec rnd now (ClConnector e) t = Some t' \<and> cl_inv t' \<and> cl_next_conn_id t' \<le> Suc (cl_next_conn_id t)"
proof -
  have i: "cn_inv (connector t)" using assms(1) by (simp add: cl_inv_def)
  obtain c where c: "cn_exec rnd now e (connector t) = Some c" "cn_inv c"
    using exec_inv [OF i event_ok_connector [OF assms(3,2)]] by blast
  show ?thesis
  proof (cases "handed_over c = handed_over (connector t)")
    case True
    then show ?thesis using c assms(1,3) resting_stays [OF i _ assms(3) c(1)]
      by (auto simp: cl_inv_def split: option.splits)
  next
    case False
    then obtain fd where h: "cn_state (connector t) = kConnecting" "cn_state c = kConnected" "cn_queue c = cn_queue (connector t) @ [ResetChannel]"
      "retry_timer_armed c = retry_timer_armed (connector t)" "handed_over c = handed_over (connector t) @ [fd]"
      using handed_exec [OF c(1) assms(3)] by blast
    have n: "cl_connection t = None" using assms(1) h(1) by (auto simp: cl_inv_def resting_def split: option.splits)
    have "resting c" using h i by (auto simp: resting_def cn_inv_def)
    then obtain t' where t': "cl_newConnection fd (t\<lparr>connector := c\<rparr>) = Some t'" "cl_inv t'" "connector t' = c"
      using cl_newConnection_inv [of "t\<lparr>connector := c\<rparr>" fd] c(2) h(5) n assms(1,4) by (auto simp: cl_inv_def)
    then show ?thesis using c(1) assms(1,3) h(5) by (auto simp: cl_inv_def)
  qed
qed

lemma cl_exec_conn:
  assumes "cl_inv t" "cn_queue (connector t) = []"
  shows "\<exists>t'. cl_exec rnd now (ClConn att e) t = Some t' \<and> cl_inv t' \<and> cl_next_conn_id t' = cl_next_conn_id t"
proof (cases "cl_connection t")
  case (Some conn)
  show ?thesis
  proof (cases "owner_event e")
    case False
    have i: "conn_inv conn" "cn_inv (connector t)" "resting (connector t)" "length (handed_over (connector t)) = Suc (length (gone t))"
      "cl_next_conn_id t = Suc (length (handed_over (connector t)))" using assms(1) Some by (simp_all add: cl_inv_def)
    obtain conn' where c: "conn_exec e conn = Some conn'" "conn_inv conn'" using inv_exec [OF i(1)] by blast
    have "event_ok (Restart att) (connector t)" using i(3) assms(2) by (simp add: cn_idle_def resting_def)
    then obtain k where k: "restart rnd now att (connector t) = Some k" "cn_inv k" using exec_inv [OF i(2)] by fastforce
    show ?thesis using Some False i c k handed_restart [OF k(1)]
      by (auto simp: cl_inv_def cl_removeConnection_def Let_def)
  qed (use Some assms(1) in simp)
qed (use assms(1) in simp)

lemma cl_exec_inv:
  assumes "cl_inv t" "cl_event_ok e t" "cl_next_conn_id t + 1 < 2 ^ 31"
  shows "\<exists>t'. cl_exec rnd now e t = Some t' \<and> cl_inv t' \<and> cl_next_conn_id t' \<le> Suc (cl_next_conn_id t)"
proof (cases e)
  case (ClConnect att)
  have "cn_inv (start_flag (connector t))" "cn_idle (start_flag (connector t))"
    using assms(1,2) ClConnect by (simp_all add: cl_inv_def start_flag_def cn_idle_def)
  then obtain c where c: "startInLoop rnd now att (start_flag (connector t)) = Some c" "cn_inv c"
    using exec_inv [of "start_flag (connector t)" "StartInLoop att"] by auto
  then show ?thesis using handed_start [OF c(1)] assms(1,2) ClConnect by (auto simp: cl_connect_op_def cl_inv_def start_flag_def)
next
  case ClDisconnect
  have "conn_inv (shutdown True conn)" if "conn_inv conn" for conn using inv_exec [OF that, of "Shutdown True"] by simp
  then show ?thesis using ClDisconnect assms(1) by (auto simp: cl_disconnect_def cl_inv_def split: option.splits)
next
  case ClStop
  have "cn_inv (stop_flag (connector t))" using assms(1) by (simp add: cl_inv_def stop_flag_def)
  then obtain c where c: "stopInLoop (stop_flag (connector t)) = Some c" "cn_inv c"
    using exec_inv [of "stop_flag (connector t)" StopInLoop] by auto
  have "resting c" if "resting (connector t)"
    using that c(1) by (auto simp: stopInLoop_def Let_def resting_def stop_flag_def cancelConnectTimeout_def split: if_splits)
  then show ?thesis using handed_stop [OF c(1)] c assms(1) ClStop by (auto simp: cl_stop_def cl_inv_def stop_flag_def split: option.splits)
next
  case (ClConnector x)
  then show ?thesis using cl_exec_connector [OF assms(1), of x] assms by (cases "connector_event x") auto
next
  case (ClConn att x)
  then show ?thesis using cl_exec_conn [OF assms(1), of rnd now att x] assms(2) by auto
qed

lemma cl_run_inv:
  "cl_inv t \<Longrightarrow> cl_orderly rnd es t \<Longrightarrow> cl_next_conn_id t + length es < 2 ^ 31 \<Longrightarrow> \<exists>t'. cl_run rnd es t = Some t' \<and> cl_inv t'"
proof (induction rnd es t rule: cl_orderly.induct)
  case (2 rnd now e es t)
  obtain t1 where t1: "cl_exec rnd now e t = Some t1" "cl_inv t1" "cl_next_conn_id t1 \<le> Suc (cl_next_conn_id t)"
    using cl_exec_inv [OF 2(2), of e rnd now] 2(3,4) by auto
  then show ?case using 2(1) [OF t1(1,2)] 2(3,4) by (simp del: cl_exec.simps)
qed simp

lemma TcpClient_new_inv: "addrs \<noteq> [] \<Longrightarrow> cl_inv (TcpClient_new addrs start)"
  using Connector_new_inv [of addrs start]
  by (simp add: cl_inv_def TcpClient_new_def handed_over_def setNewConnectionCallback_def Connector_new_def)



text \<open>
  \<^verbatim>\<open>connect\<close> is documented as idempotent. A second call while an attempt is under way opens a second socket and frees the channel of
  the first, which stays registered; the first socket is neither closed nor handed over when the second succeeds.
\<close>

theorem connect_twice_leaks:
  "\<exists>t. cl_run rnd [(0, ClConnect (7, EINPROGRESS)), (0, ClConnect (8, EINPROGRESS)), (1, ClConnector (Writable 0 False))]
      (TcpClient_new [a] 0) = Some t \<and>
    opened (connector t) = [7, 8] \<and> handed_over (connector t) = [8] \<and> closed_fds (connector t) = [] \<and> watched (connector t) = {7}"
  by (simp add: TcpClient_new_def cl_connect_op_def connector_step_defs handed_over_def closed_fds_def opened_def
      cl_newConnection_def)

end
