(* ===== verification/Http_Pool.thy ===== *)
theory Http_Pool
  imports Http_Response_Parser "HOL-Library.Multiset"
begin

text \<open>
  The client connection pool, \<^verbatim>\<open>http/connection_pool.h\<close> and \<^verbatim>\<open>http/connection_pool.cc\<close>, over the models of requests and of the response
  parser. The TCP client, the TLS layer and the resolver are seen through the events they report; a request
  callback is a number, and the requests it issues in turn are a parameter. The theory shows that, against a server that
  answers only requests, every request is parked, queued, waiting for its connection, in flight on one
  connection or completed once; that the cap holds and no request waits below it. A failed handshake and an
  unasked response lose requests.
\<close>

section \<open>A pooled connection\<close>

type_synonym Pending = "HttpRequest \<times> nat"

text \<open>
  \<^verbatim>\<open>conn_\<close> and \<^verbatim>\<open>tls_conn_\<close> are kept as flags. \<open>pc_input\<close> is the buffer the parser reads: the input buffer of the TCP connection, or
  \<^verbatim>\<open>in_buf_\<close> under TLS.
\<close>

record PooledConn =
  pc_conn :: bool
  pc_tls_conn :: bool
  pc_input :: buffer
  pc_parser :: ResponseParser
  pc_callback :: "nat option"
  pc_last_used :: "64 word"
  pc_ready :: bool
  pc_busy :: bool
  pc_done :: bool

definition PooledConn_new :: PooledConn where
  "PooledConn_new =
     \<lparr>pc_conn = False, pc_tls_conn = False, pc_input = Buffer kInitialSize, pc_parser = ResponseParser_new, pc_callback = None,
      pc_last_used = 0, pc_ready = False, pc_busy = False, pc_done = False\<rparr>"

datatype outcome = Response HttpResponse | ConnectionClosed | MalformedResponse | ResolutionFailed string

datatype pool_effect =
    ConnectClient nat
  | SendBytes nat string
  | CloseClient nat
  | Resolve
  | Complete nat outcome

section \<open>The pool\<close>

text \<open>
  The lists hold the connections by number; \<open>conns\<close> are the objects, and the last fields are the effects so far and the
  requests that were issued.
\<close>

record Pool =
  pool_tls :: bool
  pool_host :: string
  pool_max :: nat
  idle_timeout_s :: nat
  idle :: "nat list"
  busy :: "nat list"
  connecting :: "nat list"
  pending :: "nat \<Rightarrow> Pending option"
  queue :: "Pending list"
  resolved :: bool
  resolving :: bool
  waiting_on_dns :: "Pending list"
  eviction_armed :: bool
  conns :: "nat \<Rightarrow> PooledConn"
  next_conn :: nat
  pool_effects :: "pool_effect list"
  issued :: "nat list"

definition Pool_new :: "bool \<Rightarrow> string \<Rightarrow> nat \<Rightarrow> nat \<Rightarrow> bool \<Rightarrow> Pool" where
  "Pool_new tls host max_conns idle_s numeric =
     \<lparr>pool_tls = tls, pool_host = host, pool_max = max_conns, idle_timeout_s = idle_s,
      idle = [], busy = [], connecting = [], pending = (\<lambda>_. None), queue = [],
      resolved = numeric, resolving = False, waiting_on_dns = [], eviction_armed = False,
      conns = (\<lambda>_. PooledConn_new), next_conn = 0, pool_effects = [], issued = []\<rparr>"

definition startEviction :: "Pool \<Rightarrow> Pool" where
  "startEviction p = p\<lparr>eviction_armed := True\<rparr>"

definition stopEviction :: "Pool \<Rightarrow> Pool" where
  "stopEviction p = (if eviction_armed p then p\<lparr>eviction_armed := False\<rparr> else p)"

text \<open>The four constructors: an address or a name, with or without TLS.\<close>

definition ConnectionPool_address :: "bool \<Rightarrow> string \<Rightarrow> Pool" where
  "ConnectionPool_address tls host_header = startEviction (Pool_new tls host_header 8 60 True)"

definition ConnectionPool_name :: "bool \<Rightarrow> string \<Rightarrow> string \<Rightarrow> Pool" where
  "ConnectionPool_name tls host host_header =
     startEviction (Pool_new tls (if host_header = [] then host else host_header) 8 60 False)"

definition pool_emit :: "pool_effect \<Rightarrow> Pool \<Rightarrow> Pool" where
  "pool_emit e p = p\<lparr>pool_effects := pool_effects p @ [e]\<rparr>"

definition upd_conn :: "nat \<Rightarrow> (PooledConn \<Rightarrow> PooledConn) \<Rightarrow> Pool \<Rightarrow> Pool" where
  "upd_conn c f p = p\<lparr>conns := (conns p)(c := f (conns p c))\<rparr>"

definition idleCount :: "Pool \<Rightarrow> nat" where "idleCount p = length (idle p)"
definition busyCount :: "Pool \<Rightarrow> nat" where "busyCount p = length (busy p)"
definition total :: "Pool \<Rightarrow> nat" where "total p = length (idle p) + length (busy p) + length (connecting p)"
definition queued :: "Pool \<Rightarrow> nat" where "queued p = length (queue p) + length (waiting_on_dns p)"

text \<open>The bytes of a request; the append never fails (\<open>request_wire_bytes\<close> below).\<close>

definition request_wire :: "HttpRequest \<Rightarrow> string \<Rightarrow> string" where
  "request_wire r host = (case HttpRequest_appendTo r host (Buffer kInitialSize) of None \<Rightarrow> [] | Some b \<Rightarrow> readable b)"

definition pc_start :: "Pending \<Rightarrow> PooledConn \<Rightarrow> PooledConn" where
  "pc_start pend x = x\<lparr>pc_busy := True, pc_done := False, pc_parser := rp_reset (pc_parser x), pc_callback := Some (snd pend)\<rparr>"

definition start_on :: "nat \<Rightarrow> Pending \<Rightarrow> Pool \<Rightarrow> Pool" where
  "start_on c pend p =
     (let p1 = upd_conn c (pc_start pend) p;
          wire = request_wire (addHeader ''Connection'' ''keep-alive'' (fst pend)) (pool_host p)
      in if pc_tls_conn (conns p1 c) \<or> pc_conn (conns p1 c) then pool_emit (SendBytes c wire) p1 else p1)"

definition close_conn :: "nat \<Rightarrow> Pool \<Rightarrow> Pool" where
  "close_conn c p = (if pc_tls_conn (conns p c) \<or> pc_conn (conns p c) then pool_emit (CloseClient c) p else p)"

definition open_conn :: "Pending \<Rightarrow> Pool \<Rightarrow> Pool" where
  "open_conn pend p =
     (let c = next_conn p
      in pool_emit (ConnectClient c)
           (p\<lparr>next_conn := c + 1, conns := (conns p)(c := PooledConn_new), connecting := connecting p @ [c],
              pending := (pending p)(c \<mapsto> pend)\<rparr>))"

definition dispatch :: "Pending \<Rightarrow> Pool \<Rightarrow> Pool" where
  "dispatch pend p =
     (if idle p \<noteq> []
      then let c = last (idle p) in start_on c pend (p\<lparr>idle := butlast (idle p), busy := busy p @ [c]\<rparr>)
      else if total p < pool_max p then open_conn pend p
      else p\<lparr>queue := queue p @ [pend]\<rparr>)"

definition startResolveOnce :: "Pool \<Rightarrow> Pool" where
  "startResolveOnce p = (if resolving p then p else pool_emit Resolve (p\<lparr>resolving := True\<rparr>))"

definition request :: "Pending \<Rightarrow> Pool \<Rightarrow> Pool" where
  "request pend p =
     (let p1 = p\<lparr>issued := issued p @ [snd pend]\<rparr>
      in if \<not> resolved p1 then startResolveOnce (p1\<lparr>waiting_on_dns := waiting_on_dns p1 @ [pend]\<rparr>)
         else dispatch pend p1)"

text \<open>Running the callback of a request: the application may issue further requests from it.\<close>

definition complete :: "(nat \<Rightarrow> outcome \<Rightarrow> Pending list) \<Rightarrow> nat \<Rightarrow> outcome \<Rightarrow> Pool \<Rightarrow> Pool" where
  "complete app cb out p = fold request (app cb out) (pool_emit (Complete cb out) p)"

definition run_cb :: "(nat \<Rightarrow> outcome \<Rightarrow> Pending list) \<Rightarrow> nat option \<Rightarrow> outcome \<Rightarrow> Pool \<Rightarrow> Pool" where
  "run_cb app cb out p = (case cb of None \<Rightarrow> p | Some r \<Rightarrow> complete app r out p)"

definition onResolved :: "(nat \<Rightarrow> outcome \<Rightarrow> Pending list) \<Rightarrow> string list \<Rightarrow> string \<Rightarrow> Pool \<Rightarrow> Pool" where
  "onResolved app addrs err p =
     (let waiting = waiting_on_dns p;
          p1 = p\<lparr>resolving := False, waiting_on_dns := []\<rparr>
      in if err \<noteq> [] \<or> addrs = []
         then let msg = (if err = [] then ''no usable address'' else err)
              in fold (\<lambda>pend. complete app (snd pend) (ResolutionFailed msg)) waiting p1
         else fold dispatch waiting (p1\<lparr>resolved := True\<rparr>))"

definition onReady :: "nat \<Rightarrow> Pool \<Rightarrow> Pool" where
  "onReady c p =
     (let p1 = p\<lparr>connecting := remove1 c (connecting p)\<rparr>
      in case pending p1 c of
           Some pend \<Rightarrow> start_on c pend (p1\<lparr>busy := busy p1 @ [c], pending := (pending p1)(c := None)\<rparr>)
         | None \<Rightarrow> p1\<lparr>idle := idle p1 @ [c]\<rparr>)"

definition onFree :: "nat \<Rightarrow> Pool \<Rightarrow> Pool" where
  "onFree c p =
     (let p1 = p\<lparr>busy := remove1 c (busy p)\<rparr>
      in case queue p1 of
           pend # q \<Rightarrow> start_on c pend (p1\<lparr>queue := q, busy := busy p1 @ [c]\<rparr>)
         | [] \<Rightarrow> p1\<lparr>idle := idle p1 @ [c]\<rparr>)"

definition onClosed :: "nat \<Rightarrow> Pool \<Rightarrow> Pool" where
  "onClosed c p =
     (let p1 = p\<lparr>idle := remove1 c (idle p), busy := remove1 c (busy p), connecting := remove1 c (connecting p),
                 pending := (pending p)(c := None)\<rparr>
      in case queue p1 of
           pend # q \<Rightarrow> if total p1 < pool_max p1 then open_conn pend (p1\<lparr>queue := q\<rparr>) else p1
         | [] \<Rightarrow> p1)"

definition idle_ms :: "64 word \<Rightarrow> PooledConn \<Rightarrow> 64 word" where
  "idle_ms now x = (now - pc_last_used x) div 1000"

definition evictIdle :: "64 word \<Rightarrow> Pool \<Rightarrow> Pool" where
  "evictIdle now p =
     (let to_close = filter (\<lambda>c. idle_ms now (conns p c) > of_nat (idle_timeout_s p) * 1000) (idle p)
      in fold (\<lambda>c q. close_conn c (q\<lparr>idle := remove1 c (idle q)\<rparr>)) to_close p)"

section \<open>Events of a connection\<close>

definition onConnection_up :: "64 word \<Rightarrow> nat \<Rightarrow> Pool \<Rightarrow> Pool" where
  "onConnection_up now c p =
     (let p1 = upd_conn c (\<lambda>x. x\<lparr>pc_conn := True, pc_last_used := now\<rparr>) p
      in if pool_tls p1 then upd_conn c (\<lambda>x. x\<lparr>pc_tls_conn := True\<rparr>) p1
         else onReady c (upd_conn c (\<lambda>x. x\<lparr>pc_ready := True\<rparr>) p1))"

definition handshakeDone :: "64 word \<Rightarrow> nat \<Rightarrow> Pool \<Rightarrow> Pool" where
  "handshakeDone now c p = onReady c (upd_conn c (\<lambda>x. x\<lparr>pc_ready := True, pc_last_used := now\<rparr>) p)"

definition onConnection_down :: "(nat \<Rightarrow> outcome \<Rightarrow> Pending list) \<Rightarrow> nat \<Rightarrow> Pool \<Rightarrow> Pool" where
  "onConnection_down app c p =
     (let x = (conns p c)\<lparr>pc_ready := False, pc_conn := False, pc_tls_conn := False\<rparr>;
          p1 = p\<lparr>conns := (conns p)(c := x)\<rparr>
      in onClosed c
          (if pc_busy x \<and> \<not> pc_done x
           then let y = x\<lparr>pc_busy := False, pc_done := True, pc_callback := None, pc_parser := onEof (pc_parser x)\<rparr>
                in run_cb app (pc_callback x)
                     (if rp_gotAll (pc_parser y) then Response (rp_response (pc_parser y)) else ConnectionClosed)
                     (p1\<lparr>conns := (conns p1)(c := y)\<rparr>)
           else p1))"

definition consume :: "(nat \<Rightarrow> outcome \<Rightarrow> Pending list) \<Rightarrow> 64 word \<Rightarrow> nat \<Rightarrow> Pool \<Rightarrow> Pool option" where
  "consume app now c p =
     (let x = conns p c in
      case rp_parse (pc_parser x) (pc_input x) of
        None \<Rightarrow> None
      | Some (ok, q, b) \<Rightarrow>
          if \<not> ok
          then Some (close_conn c (run_cb app (pc_callback x) MalformedResponse
                 (p\<lparr>conns := (conns p)(c := x\<lparr>pc_parser := q, pc_input := b, pc_callback := None\<rparr>)\<rparr>)))
          else if rp_gotAll q
          then let resp = rp_response q;
                   p1 = p\<lparr>conns := (conns p)(c := x\<lparr>pc_parser := rp_reset q, pc_input := b, pc_busy := False, pc_done := True,
                          pc_last_used := now, pc_callback := None\<rparr>)\<rparr>;
                   p2 = (if toLower (resp_header resp ''Connection'') \<noteq> ''close'' then onFree c p1 else close_conn c p1)
               in Some (run_cb app (pc_callback x) (Response resp) p2)
          else Some (p\<lparr>conns := (conns p)(c := x\<lparr>pc_parser := q, pc_input := b\<rparr>)\<rparr>))"

text \<open>Bytes from the server, through the TCP connection or through TLS.\<close>

definition onBytes :: "(nat \<Rightarrow> outcome \<Rightarrow> Pending list) \<Rightarrow> 64 word \<Rightarrow> nat \<Rightarrow> string \<Rightarrow> Pool \<Rightarrow> Pool option" where
  "onBytes app now c s p = do {
     b \<leftarrow> buf_append s (pc_input (conns p c));
     consume app now c (upd_conn c (\<lambda>x. x\<lparr>pc_input := b\<rparr>) p)
   }"

section \<open>Events\<close>

datatype pool_event =
    Request Pending
  | Resolved "string list" string
  | Up "64 word" nat
  | Handshake "64 word" nat
  | Down nat
  | Bytes "64 word" nat string
  | Evict "64 word"

text \<open>
  The pool holds the only owning references to its connections, so events of one it no longer lists do not reach it. The
  resolver answers when asked; a handshake ends once, after the connection is up, and the server's bytes follow it.
\<close>

definition listed :: "nat \<Rightarrow> Pool \<Rightarrow> bool" where
  "listed c p = (c \<in> set (idle p @ busy p @ connecting p))"

fun pool_exec :: "(nat \<Rightarrow> outcome \<Rightarrow> Pending list) \<Rightarrow> pool_event \<Rightarrow> Pool \<Rightarrow> Pool option" where
  "pool_exec app (Request pend) p = Some (request pend p)"
| "pool_exec app (Resolved addrs err) p = Some (if resolving p then onResolved app addrs err p else p)"
| "pool_exec app (Up now c) p = Some (if c \<in> set (connecting p) \<and> \<not> pc_conn (conns p c) then onConnection_up now c p else p)"
| "pool_exec app (Handshake now c) p =
     Some (if c \<in> set (connecting p) \<and> pc_conn (conns p c) \<and> pc_tls_conn (conns p c) then handshakeDone now c p else p)"
| "pool_exec app (Down c) p = Some (if listed c p \<and> pc_conn (conns p c) then onConnection_down app c p else p)"
| "pool_exec app (Bytes now c s) p = (if listed c p \<and> pc_ready (conns p c) then onBytes app now c s p else Some p)"
| "pool_exec app (Evict now) p = Some (if eviction_armed p then evictIdle now p else p)"

fun pool_run :: "(nat \<Rightarrow> outcome \<Rightarrow> Pending list) \<Rightarrow> pool_event list \<Rightarrow> Pool \<Rightarrow> Pool option" where
  "pool_run app [] p = Some p"
| "pool_run app (e # es) p = Option.bind (pool_exec app e p) (pool_run app es)"

section \<open>Books\<close>

definition cbm :: "nat option \<Rightarrow> nat multiset" where
  "cbm cb = (case cb of None \<Rightarrow> {#} | Some r \<Rightarrow> {#r#})"

fun completed_cb :: "pool_effect \<Rightarrow> nat list" where
  "completed_cb (Complete cb out) = [cb]"
| "completed_cb _ = []"

definition completed :: "Pool \<Rightarrow> nat list" where
  "completed p = concat (map completed_cb (pool_effects p))"

definition in_flight :: "Pool \<Rightarrow> nat multiset" where
  "in_flight p = (\<Sum>c\<in>set (busy p). cbm (pc_callback (conns p c)))"

definition awaiting :: "Pool \<Rightarrow> nat multiset" where
  "awaiting p = (\<Sum>c\<in>set (connecting p). cbm (map_option snd (pending p c)))"

definition account :: "Pool \<Rightarrow> nat multiset" where
  "account p = mset (map snd (waiting_on_dns p)) + mset (map snd (queue p)) + awaiting p + in_flight p + mset (completed p)"

text \<open>Every request issued is in one of these places or in \<open>X\<close>, the requests in hand.\<close>

definition balanced :: "nat multiset \<Rightarrow> Pool \<Rightarrow> bool" where
  "balanced X p = (mset (issued p) = account p + X)"

definition lists_ok :: "nat list \<Rightarrow> nat list \<Rightarrow> nat list \<Rightarrow> nat \<Rightarrow> bool" where
  "lists_ok i b k n = (distinct (i @ b @ k) \<and> (\<forall>c \<in> set (i @ b @ k). c < n))"

definition objs_ok :: "nat list \<Rightarrow> nat list \<Rightarrow> nat list \<Rightarrow> (nat \<Rightarrow> PooledConn) \<Rightarrow> bool" where
  "objs_ok i b k cs =
     ((\<forall>c. buf_ok (pc_input (cs c)) \<and> rp_ok (pc_parser (cs c))) \<and>
      (\<forall>c. pc_ready (cs c) \<longrightarrow> pc_conn (cs c)) \<and>
      (\<forall>c \<in> set i. pc_callback (cs c) = None \<and> pc_conn (cs c) \<and> \<not> pc_busy (cs c)) \<and>
      (\<forall>c \<in> set k. pc_callback (cs c) = None) \<and>
      (\<forall>c \<in> set b. pc_callback (cs c) \<noteq> None \<longrightarrow> pc_busy (cs c) \<and> \<not> pc_done (cs c)))"

definition pool_base :: "Pool \<Rightarrow> bool" where
  "pool_base p =
     (lists_ok (idle p) (busy p) (connecting p) (next_conn p) \<and> objs_ok (idle p) (busy p) (connecting p) (conns p) \<and>
      (\<forall>c. pending p c \<noteq> None \<longleftrightarrow> c \<in> set (connecting p)) \<and> total p \<le> pool_max p \<and>
      (resolved p \<longrightarrow> waiting_on_dns p = []) \<and> (waiting_on_dns p \<noteq> [] \<longrightarrow> resolving p))"

text \<open>A request waits in the queue only when the cap is reached and no connection is idle.\<close>

definition saturated :: "Pool \<Rightarrow> bool" where
  "saturated p = (queue p \<noteq> [] \<longrightarrow> idle p = [] \<and> total p = pool_max p)"

definition pool_ok :: "Pool \<Rightarrow> bool" where
  "pool_ok p = (pool_base p \<and> saturated p)"

lemma total_frames [simp]:
  "total (p\<lparr>pending := v1\<rparr>) = total p" "total (p\<lparr>queue := v2\<rparr>) = total p" "total (p\<lparr>resolved := v3\<rparr>) = total p"
  "total (p\<lparr>resolving := v3\<rparr>) = total p" "total (p\<lparr>waiting_on_dns := v2\<rparr>) = total p" "total (p\<lparr>conns := v4\<rparr>) = total p"
  "total (p\<lparr>issued := v5\<rparr>) = total p"
  by (simp_all add: total_def)

lemma pool_emit_fields [simp]:
  "idle (pool_emit e p) = idle p" "busy (pool_emit e p) = busy p" "connecting (pool_emit e p) = connecting p"
  "pending (pool_emit e p) = pending p" "queue (pool_emit e p) = queue p" "resolved (pool_emit e p) = resolved p"
  "resolving (pool_emit e p) = resolving p" "waiting_on_dns (pool_emit e p) = waiting_on_dns p" "conns (pool_emit e p) = conns p"
  "next_conn (pool_emit e p) = next_conn p" "pool_max (pool_emit e p) = pool_max p" "issued (pool_emit e p) = issued p"
  "total (pool_emit e p) = total p" "completed (pool_emit e p) = completed p @ completed_cb e"
  by (simp_all add: pool_emit_def total_def completed_def)

lemma pool_ok_emit [simp]: "pool_base (pool_emit e p) = pool_base p" "saturated (pool_emit e p) = saturated p" "pool_ok (pool_emit e p) = pool_ok p"
  by (simp_all add: pool_ok_def pool_base_def saturated_def)

lemma account_emit [simp]: "account (pool_emit e p) = account p + mset (completed_cb e)"
  by (simp add: account_def awaiting_def in_flight_def)

lemma balanced_emit [simp]: "completed_cb e = [] \<Longrightarrow> balanced X (pool_emit e p) = balanced X p"
  by (simp add: balanced_def)

lemma PooledConn_new_ok [simp]:
  "buf_ok (pc_input PooledConn_new)" "rp_ok (pc_parser PooledConn_new)" "pc_callback PooledConn_new = None" "\<not> pc_ready PooledConn_new"
  by (simp_all add: PooledConn_new_def)

lemma request_wire_bytes: "request_wire r host = request_head r host @ req_body r"
proof -
  obtain b where "HttpRequest_appendTo r host (Buffer kInitialSize) = Some b" "readable b = readable (Buffer kInitialSize) @ request_head r host @ req_body r"
    using HttpRequest_appendTo_spec [of "Buffer kInitialSize" r host] by auto
  then show ?thesis by (simp add: request_wire_def)
qed

section \<open>Operations keep the books\<close>

text \<open>A request handed to a connection among the busy ones that has none in flight.\<close>

lemma start_on_ok:
  assumes "pool_base p" "c \<in> set (busy p)" "pc_callback (conns p c) = None"
  shows "pool_base (start_on c pend p)" "saturated (start_on c pend p) = saturated p"
    "balanced X (start_on c pend p) = balanced (X + {#snd pend#}) p"
proof -
  define p1 where "p1 = upd_conn c (pc_start pend) p"
  have e: "start_on c pend p = p1 \<or> (\<exists>w. start_on c pend p = pool_emit (SendBytes c w) p1)"
    by (auto simp: start_on_def p1_def Let_def)
  have c: "c \<notin> set (idle p)" "c \<notin> set (connecting p)" using assms(1,2) by (auto simp: pool_base_def lists_ok_def)
  have f: "idle p1 = idle p" "busy p1 = busy p" "connecting p1 = connecting p" "pending p1 = pending p" "queue p1 = queue p"
    "resolved p1 = resolved p" "resolving p1 = resolving p" "waiting_on_dns p1 = waiting_on_dns p" "next_conn p1 = next_conn p"
    "pool_max p1 = pool_max p" "issued p1 = issued p" "total p1 = total p" "completed p1 = completed p" "awaiting p1 = awaiting p"
    "conns p1 = (conns p)(c := pc_start pend (conns p c))"
    by (simp_all add: p1_def upd_conn_def total_def completed_def awaiting_def)
  have "objs_ok (idle p) (busy p) (connecting p) (conns p1)"
    using assms(1) c by (auto simp: pool_base_def objs_ok_def f pc_start_def)
  then have b: "pool_base p1" "saturated p1 = saturated p" using assms(1) by (simp_all add: pool_base_def saturated_def f)
  have "in_flight p1 = cbm (Some (snd pend)) + (\<Sum>d\<in>set (busy p) - {c}. cbm (pc_callback (conns p d)))"
    using assms(2) by (simp add: in_flight_def f sum.remove pc_start_def)
  moreover have "in_flight p = (\<Sum>d\<in>set (busy p) - {c}. cbm (pc_callback (conns p d)))"
    using assms(2,3) by (simp add: in_flight_def sum.remove cbm_def)
  ultimately have "in_flight p1 = in_flight p + {#snd pend#}" by (simp add: cbm_def)
  then have "balanced X p1 = balanced (X + {#snd pend#}) p" by (simp add: balanced_def account_def f)
  then show "pool_base (start_on c pend p)" "saturated (start_on c pend p) = saturated p"
    "balanced X (start_on c pend p) = balanced (X + {#snd pend#}) p" using b e by auto
qed

lemma open_conn_ok:
  assumes "pool_base p" "total p < pool_max p" "queue p = [] \<or> idle p = [] \<and> Suc (total p) = pool_max p"
  shows "pool_ok (open_conn pend p)" "balanced X (open_conn pend p) = balanced (X + {#snd pend#}) p"
proof -
  let ?c = "next_conn p"
  define p1 where "p1 = p\<lparr>next_conn := ?c + 1, conns := (conns p)(?c := PooledConn_new), connecting := connecting p @ [?c],
    pending := (pending p)(?c \<mapsto> pend)\<rparr>"
  have e: "open_conn pend p = pool_emit (ConnectClient ?c) p1" by (simp add: open_conn_def p1_def Let_def)
  have n: "?c \<notin> set (idle p)" "?c \<notin> set (busy p)" "?c \<notin> set (connecting p)"
    using assms(1) by (auto simp: pool_base_def lists_ok_def)
  have f: "idle p1 = idle p" "busy p1 = busy p" "connecting p1 = connecting p @ [?c]" "pending p1 = (pending p)(?c \<mapsto> pend)"
    "queue p1 = queue p" "resolved p1 = resolved p" "resolving p1 = resolving p" "waiting_on_dns p1 = waiting_on_dns p"
    "next_conn p1 = Suc ?c" "pool_max p1 = pool_max p" "issued p1 = issued p" "total p1 = Suc (total p)" "completed p1 = completed p"
    "conns p1 = (conns p)(?c := PooledConn_new)" by (simp_all add: p1_def total_def completed_def)
  have "lists_ok (idle p) (busy p) (connecting p @ [?c]) (Suc ?c)" using assms(1) by (fastforce simp: pool_base_def lists_ok_def less_Suc_eq)
  moreover have "objs_ok (idle p) (busy p) (connecting p @ [?c]) (conns p1)"
    using assms(1) n by (auto simp: pool_base_def objs_ok_def f)
  ultimately have "pool_base p1" using assms(1,2) by (auto simp: pool_base_def f)
  moreover have "saturated p1" using assms(3) by (auto simp: saturated_def f)
  ultimately show "pool_ok (open_conn pend p)" by (simp add: e pool_ok_def)
  have "in_flight p1 = in_flight p" unfolding in_flight_def f using n(2) by (intro sum.cong) auto
  moreover have "awaiting p1 = awaiting p + {#snd pend#}"
  proof -
    have "(\<Sum>d\<in>set (connecting p). cbm (map_option snd (((pending p)(?c \<mapsto> pend)) d))) = awaiting p"
      unfolding awaiting_def using n(3) by (intro sum.cong) auto
    then show ?thesis using n(3) by (simp add: awaiting_def f cbm_def)
  qed
  ultimately have "balanced X p1 = balanced (X + {#snd pend#}) p" by (simp add: balanced_def account_def f)
  then show "balanced X (open_conn pend p) = balanced (X + {#snd pend#}) p" by (simp add: e)
qed

lemma dispatch_ok:
  assumes "pool_ok p" "resolved p"
  shows "pool_ok (dispatch pend p)" "balanced X (dispatch pend p) = balanced (X + {#snd pend#}) p"
proof -
  have b: "pool_base p" "saturated p" using assms(1) by (simp_all add: pool_ok_def)
  show "pool_ok (dispatch pend p)" "balanced X (dispatch pend p) = balanced (X + {#snd pend#}) p"
  proof (atomize (full), cases "idle p = []")
    case False
    define c where "c = last (idle p)"
    define p1 where "p1 = p\<lparr>idle := butlast (idle p), busy := busy p @ [c]\<rparr>"
    have i: "idle p = butlast (idle p) @ [c]" using False by (simp add: c_def)
    have e: "dispatch pend p = start_on c pend p1" using False by (simp add: dispatch_def Let_def c_def p1_def)
    have cb: "pc_callback (conns p c) = None" using b(1) False by (auto simp: pool_base_def objs_ok_def c_def)
    have q: "queue p = []" using b(2) False by (auto simp: saturated_def)
    have l: "lists_ok (butlast (idle p) @ [c]) (busy p) (connecting p) (next_conn p)" using b(1) by (simp add: pool_base_def i [symmetric])
    then have "lists_ok (butlast (idle p)) (busy p @ [c]) (connecting p) (next_conn p)" by (auto simp: lists_ok_def)
    moreover have "objs_ok (butlast (idle p)) (busy p @ [c]) (connecting p) (conns p)"
      using b(1) cb by (auto simp: pool_base_def objs_ok_def dest: in_set_butlastD)
    moreover have "total p1 = total p" using arg_cong [OF i, of length] by (simp add: p1_def total_def)
    ultimately have "pool_base p1" "saturated p1" using b(1) q by (simp_all add: pool_base_def p1_def saturated_def)
    moreover have "c \<notin> set (busy p)" using l by (auto simp: lists_ok_def)
    then have "balanced Y p1 = balanced Y p" for Y
      using cb by (simp add: balanced_def account_def p1_def completed_def awaiting_def in_flight_def cbm_def)
    ultimately show "pool_ok (dispatch pend p) \<and> balanced X (dispatch pend p) = balanced (X + {#snd pend#}) p"
      using start_on_ok [where p = p1 and c = c] cb by (simp add: e pool_ok_def p1_def)
  next
    case True
    show "pool_ok (dispatch pend p) \<and> balanced X (dispatch pend p) = balanced (X + {#snd pend#}) p"
    proof (cases "total p < pool_max p")
      case below: True
      then have "queue p = []" using b(2) by (auto simp: saturated_def)
      then show ?thesis using open_conn_ok [OF b(1) below] True below by (simp add: dispatch_def)
    next
      case False
      then have "total p = pool_max p" using b(1) by (simp add: pool_base_def)
      then show ?thesis using False True b
        by (auto simp: dispatch_def pool_ok_def pool_base_def saturated_def total_def balanced_def account_def completed_def
            awaiting_def in_flight_def)
    qed
  qed
qed

lemma frames [simp]:
  "resolved (start_on c pend p) = resolved p" "resolved (open_conn pend p) = resolved p" "resolved (dispatch pend p) = resolved p"
  by (auto simp: start_on_def open_conn_def dispatch_def upd_conn_def Let_def)

lemma dispatch_all_ok:
  "pool_ok p \<Longrightarrow> resolved p \<Longrightarrow> balanced (X + mset (map snd pends)) p \<Longrightarrow>
   pool_ok (fold dispatch pends p) \<and> balanced X (fold dispatch pends p)"
proof (induction pends arbitrary: p)
  case (Cons pend pends)
  then show ?case using dispatch_ok [OF Cons.prems(1,2)] by (simp add: ac_simps)
qed simp

lemma request_ok_pool:
  assumes "pool_ok p" "balanced X p"
  shows "pool_ok (request pend p) \<and> balanced X (request pend p)"
proof -
  define p1 where "p1 = p\<lparr>issued := issued p @ [snd pend]\<rparr>"
  have p1: "pool_ok p1" "balanced (X + {#snd pend#}) p1"
    using assms by (simp_all add: p1_def pool_ok_def pool_base_def saturated_def balanced_def account_def completed_def awaiting_def in_flight_def)
  show ?thesis
  proof (cases "resolved p")
    case True
    then have "request pend p = dispatch pend p1" by (simp add: request_def p1_def Let_def)
    then show ?thesis using dispatch_ok [OF p1(1)] p1(2) True by (simp add: p1_def)
  next
    case False
    define p2 where "p2 = p1\<lparr>waiting_on_dns := waiting_on_dns p1 @ [pend], resolving := True\<rparr>"
    have r: "request pend p = p2 \<or> request pend p = pool_emit Resolve p2"
      using False by (auto simp: request_def p1_def p2_def Let_def startResolveOnce_def)
    have "pool_ok p2" "balanced X p2"
      using p1 False by (simp_all add: p1_def p2_def pool_ok_def pool_base_def saturated_def balanced_def account_def
          completed_def awaiting_def in_flight_def)
    then show ?thesis using r by auto
  qed
qed

lemma requests_ok: "pool_ok p \<Longrightarrow> balanced X p \<Longrightarrow> pool_ok (fold request pends p) \<and> balanced X (fold request pends p)"
  by (induction pends arbitrary: p) (simp_all add: request_ok_pool)

lemma complete_ok:
  assumes "pool_ok p" "balanced (X + {#cb#}) p"
  shows "pool_ok (complete app cb out p) \<and> balanced X (complete app cb out p)"
proof -
  have "pool_ok (pool_emit (Complete cb out) p)" "balanced X (pool_emit (Complete cb out) p)"
    using assms by (simp_all add: balanced_def)
  then show ?thesis unfolding complete_def by (rule requests_ok)
qed

lemma run_cb_ok:
  assumes "pool_ok p" "balanced (X + cbm cb) p"
  shows "pool_ok (run_cb app cb out p) \<and> balanced X (run_cb app cb out p)"
  using assms complete_ok by (cases cb) (simp_all add: run_cb_def cbm_def)

lemma onResolved_ok:
  assumes "pool_ok p" "balanced X p"
  shows "pool_ok (onResolved app addrs err p) \<and> balanced X (onResolved app addrs err p)"
proof -
  define p1 where "p1 = p\<lparr>resolving := False, waiting_on_dns := []\<rparr>"
  let ?w = "waiting_on_dns p"
  have p1: "pool_ok p1" "pool_ok (p1\<lparr>resolved := True\<rparr>)"
    using assms(1) by (simp_all add: p1_def pool_ok_def pool_base_def saturated_def)
  have b: "balanced (X + mset (map snd ?w)) p1" "balanced (X + mset (map snd ?w)) (p1\<lparr>resolved := True\<rparr>)"
    using assms(2) by (simp_all add: p1_def balanced_def account_def completed_def awaiting_def in_flight_def ac_simps)
  have "pool_ok (fold (\<lambda>pend. complete app (snd pend) out) w q) \<and> balanced X (fold (\<lambda>pend. complete app (snd pend) out) w q)"
    if "pool_ok q" "balanced (X + mset (map snd w)) q" for out w q
    using that
  proof (induction w arbitrary: q)
    case (Cons pend w)
    then show ?case using complete_ok [of q "X + mset (map snd w)" "snd pend" app out] by (simp add: ac_simps)
  qed simp
  then have "pool_ok (fold (\<lambda>pend. complete app (snd pend) out) ?w p1) \<and> balanced X (fold (\<lambda>pend. complete app (snd pend) out) ?w p1)" for out
    using p1(1) b(1) by blast
  then show ?thesis using dispatch_all_ok [OF p1(2) _ b(2)] by (simp add: onResolved_def Let_def p1_def)
qed

section \<open>Steps of the connections\<close>

text \<open>Only the connection \<open>c\<close> is changed, and it is in none of the lists that say more of it.\<close>

lemma conn_update_ok:
  assumes "pool_base p" "buf_ok (pc_input x)" "rp_ok (pc_parser x)" "pc_callback x = pc_callback (conns p c)"
    "pc_conn (conns p c) \<longrightarrow> pc_conn x" "pc_ready x \<longrightarrow> pc_conn x" "pc_busy x = pc_busy (conns p c)" "pc_done x = pc_done (conns p c)"
  shows "pool_base (p\<lparr>conns := (conns p)(c := x)\<rparr>)" "balanced X (p\<lparr>conns := (conns p)(c := x)\<rparr>) = balanced X p"
    "saturated (p\<lparr>conns := (conns p)(c := x)\<rparr>) = saturated p"
proof -
  show "pool_base (p\<lparr>conns := (conns p)(c := x)\<rparr>)" using assms
    by (auto simp: pool_base_def objs_ok_def)
  have "in_flight (p\<lparr>conns := (conns p)(c := x)\<rparr>) = in_flight p"
    using assms(4) by (auto simp: in_flight_def intro!: sum.cong)
  then show "balanced X (p\<lparr>conns := (conns p)(c := x)\<rparr>) = balanced X p"
    by (simp add: balanced_def account_def awaiting_def completed_def)
  show "saturated (p\<lparr>conns := (conns p)(c := x)\<rparr>) = saturated p" by (simp add: saturated_def)
qed

lemma length_remove1_Suc: "c \<in> set xs \<Longrightarrow> Suc (length (remove1 c xs)) = length xs"
  by (induction xs) auto

lemma onReady_ok:
  assumes "pool_ok p" "c \<in> set (connecting p)"
  shows "pool_ok (onReady c p)" "balanced X (onReady c p) = balanced X p"
proof -
  have l: "distinct (idle p @ busy p @ connecting p)" "pending p c \<noteq> None" "pc_callback (conns p c) = None"
    using assms by (auto simp: pool_ok_def pool_base_def lists_ok_def objs_ok_def)
  obtain pend where pend: "pending p c = Some pend" using l(2) by blast
  define p1 where "p1 = p\<lparr>connecting := remove1 c (connecting p), busy := busy p @ [c], pending := (pending p)(c := None)\<rparr>"
  have e: "onReady c p = start_on c pend p1" by (simp add: onReady_def Let_def pend p1_def)
  have s: "set (remove1 c (connecting p)) = set (connecting p) - {c}" using l(1) by simp
  have "lists_ok (idle p) (busy p @ [c]) (remove1 c (connecting p)) (next_conn p)"
    using assms l(1) s by (auto simp: pool_ok_def pool_base_def lists_ok_def)
  moreover have "objs_ok (idle p) (busy p @ [c]) (remove1 c (connecting p)) (conns p)"
    using assms(1) l(3) s by (auto simp: pool_ok_def pool_base_def objs_ok_def)
  moreover have t: "total p1 = total p" using length_remove1_Suc [OF assms(2)] by (simp add: p1_def total_def)
  moreover have "\<forall>d. (((pending p)(c := None)) d \<noteq> None) = (d \<in> set (remove1 c (connecting p)))"
    using assms(1) s by (auto simp: pool_ok_def pool_base_def)
  ultimately have b: "pool_base p1" "saturated p1"
    using assms(1) by (simp_all add: pool_ok_def pool_base_def saturated_def t) (simp_all add: p1_def)
  have "awaiting p = awaiting p1 + {#snd pend#}"
  proof -
    have "awaiting p = cbm (Some (snd pend)) + (\<Sum>d\<in>set (connecting p) - {c}. cbm (map_option snd (pending p d)))"
      using assms(2) by (simp add: awaiting_def sum.remove pend)
    moreover have "awaiting p1 = (\<Sum>d\<in>set (connecting p) - {c}. cbm (map_option snd (pending p d)))"
      unfolding awaiting_def p1_def using s by (auto intro!: sum.cong)
    ultimately show ?thesis by (simp add: cbm_def)
  qed
  moreover have "in_flight p1 = in_flight p"
  proof -
    have "c \<notin> set (busy p)" using l(1) assms(2) by auto
    then show ?thesis using l(3) by (simp add: in_flight_def p1_def cbm_def)
  qed
  ultimately have "balanced (X + {#snd pend#}) p1 = balanced X p" by (simp add: balanced_def account_def completed_def p1_def ac_simps)
  moreover have "c \<in> set (busy p1)" "pc_callback (conns p1 c) = None" using l(3) by (simp_all add: p1_def)
  ultimately show "pool_ok (onReady c p)" "balanced X (onReady c p) = balanced X p"
    using start_on_ok [OF b(1), of c] b(2) by (simp_all add: e pool_ok_def)
qed

lemma onFree_ok:
  assumes "pool_ok p" "c \<in> set (busy p)" "pc_callback (conns p c) = None" "pc_conn (conns p c)" "\<not> pc_busy (conns p c)"
  shows "pool_ok (onFree c p)" "balanced X (onFree c p) = balanced X p"
proof -
  have l: "distinct (idle p @ busy p @ connecting p)" using assms(1) by (simp add: pool_ok_def pool_base_def lists_ok_def)
  have s: "set (remove1 c (busy p)) = set (busy p) - {c}" using l by simp
  have n: "Suc (length (remove1 c (busy p))) = length (busy p)" using length_remove1_Suc [OF assms(2)] .
  have fl: "(\<Sum>d\<in>set (busy p) - {c}. cbm (pc_callback (conns p d))) = in_flight p"
    using assms(2,3) by (simp add: in_flight_def sum.remove cbm_def)
  show "pool_ok (onFree c p)" "balanced X (onFree c p) = balanced X p"
  proof (atomize (full), cases "queue p")
    case (Cons pend q)
    define p1 where "p1 = p\<lparr>queue := q, busy := remove1 c (busy p) @ [c]\<rparr>"
    have e: "onFree c p = start_on c pend p1" by (simp add: onFree_def Let_def Cons p1_def)
    have "lists_ok (idle p) (remove1 c (busy p) @ [c]) (connecting p) (next_conn p)"
      using assms(1,2) l s by (auto simp: pool_ok_def pool_base_def lists_ok_def)
    moreover have "objs_ok (idle p) (remove1 c (busy p) @ [c]) (connecting p) (conns p)"
      using assms(1,3) s by (auto simp: pool_ok_def pool_base_def objs_ok_def)
    moreover have t: "total p1 = total p" using n by (simp add: p1_def total_def)
    ultimately have b: "pool_base p1" "saturated p1"
      using assms(1) Cons by (simp_all add: pool_ok_def pool_base_def saturated_def t) (simp_all add: p1_def)
    have "in_flight p1 = in_flight p" using assms(2) by (simp add: in_flight_def p1_def s insert_absorb)
    then have "balanced (X + {#snd pend#}) p1 = balanced X p"
      by (simp add: balanced_def account_def completed_def awaiting_def p1_def Cons ac_simps)
    then show "pool_ok (onFree c p) \<and> balanced X (onFree c p) = balanced X p"
      using start_on_ok [OF b(1), of c] b(2) assms(3) by (simp add: e pool_ok_def p1_def)
  next
    case Nil
    define p1 where "p1 = p\<lparr>busy := remove1 c (busy p), idle := idle p @ [c]\<rparr>"
    have e: "onFree c p = p1" by (simp add: onFree_def Let_def Nil p1_def)
    have "lists_ok (idle p @ [c]) (remove1 c (busy p)) (connecting p) (next_conn p)"
      using assms(1,2) l s by (auto simp: pool_ok_def pool_base_def lists_ok_def)
    moreover have "objs_ok (idle p @ [c]) (remove1 c (busy p)) (connecting p) (conns p)"
      using assms(1,3-5) s by (auto simp: pool_ok_def pool_base_def objs_ok_def)
    moreover have t: "total p1 = total p" using n by (simp add: p1_def total_def)
    ultimately have b: "pool_base p1" "saturated p1"
      using assms(1) Nil by (simp_all add: pool_ok_def pool_base_def saturated_def t) (simp_all add: p1_def)
    have "in_flight p1 = in_flight p" using fl by (simp add: in_flight_def p1_def s)
    then have "balanced X p1 = balanced X p" by (simp add: balanced_def account_def completed_def awaiting_def p1_def)
    then show "pool_ok (onFree c p) \<and> balanced X (onFree c p) = balanced X p" using b by (simp add: e pool_ok_def)
  qed
qed

text \<open>A connection with no request in flight leaves the pool, whatever state the object is in by then.\<close>

lemma onClosed_ok:
  assumes "pool_ok p" "c \<in> set (idle p @ busy p)" "pc_callback (conns p c) = None" "buf_ok (pc_input x)" "rp_ok (pc_parser x)"
    "pc_ready x \<longrightarrow> pc_conn x"
  shows "pool_ok (onClosed c (p\<lparr>conns := (conns p)(c := x)\<rparr>)) \<and>
    (balanced X p \<longrightarrow> balanced X (onClosed c (p\<lparr>conns := (conns p)(c := x)\<rparr>)))"
proof -
  have l: "distinct (idle p @ busy p @ connecting p)" using assms(1) by (simp add: pool_ok_def pool_base_def lists_ok_def)
  have pe: "(pending p c \<noteq> None) = (c \<in> set (connecting p))" using assms(1) by (simp add: pool_ok_def pool_base_def)
  have k: "c \<notin> set (connecting p)" using l assms(2) by auto
  then have k': "pending p c = None" using pe by blast
  define p1 where "p1 = p\<lparr>conns := (conns p)(c := x), idle := remove1 c (idle p), busy := remove1 c (busy p)\<rparr>"
  have f: "idle p1 = remove1 c (idle p)" "busy p1 = remove1 c (busy p)" "connecting p1 = connecting p" "pending p1 = pending p"
    "conns p1 = (conns p)(c := x)" "queue p1 = queue p" "pool_max p1 = pool_max p" "next_conn p1 = next_conn p" "issued p1 = issued p"
    "resolved p1 = resolved p" "resolving p1 = resolving p" "waiting_on_dns p1 = waiting_on_dns p" "completed p1 = completed p"
    by (simp_all add: p1_def completed_def)
  have s: "set (remove1 c (busy p)) = set (busy p) - {c}" "set (remove1 c (idle p)) = set (idle p) - {c}" using l by simp_all
  have e: "onClosed c (p\<lparr>conns := (conns p)(c := x)\<rparr>) = (case queue p of
      pend # q \<Rightarrow> if total p1 < pool_max p then open_conn pend (p1\<lparr>queue := q\<rparr>) else p1 | [] \<Rightarrow> p1)"
    using k k' by (cases "queue p") (simp_all add: onClosed_def Let_def p1_def remove1_idem fun_upd_idem)
  have t: "Suc (total p1) = total p"
  proof (cases "c \<in> set (idle p)")
    case True
    then have "c \<notin> set (busy p)" using l by auto
    then show ?thesis using length_remove1_Suc [OF True] by (simp add: p1_def total_def remove1_idem)
  next
    case False
    then have "c \<in> set (busy p)" using assms(2) by simp
    then show ?thesis using length_remove1_Suc False by (simp add: p1_def total_def remove1_idem)
  qed
  have "lists_ok (remove1 c (idle p)) (remove1 c (busy p)) (connecting p) (next_conn p)"
    using assms(1) l s by (auto simp: pool_ok_def pool_base_def lists_ok_def)
  moreover have "objs_ok (remove1 c (idle p)) (remove1 c (busy p)) (connecting p) ((conns p)(c := x))"
    using assms(1,4-6) s k by (auto simp: pool_ok_def pool_base_def objs_ok_def)
  ultimately have b: "pool_base p1" using assms(1) t by (simp add: pool_ok_def pool_base_def f)
  have "in_flight p1 = (\<Sum>d\<in>set (busy p) - {c}. cbm (pc_callback (conns p d)))"
    unfolding in_flight_def f s by (intro sum.cong) auto
  also have "... = in_flight p"
    using assms(3) by (cases "c \<in> set (busy p)") (simp_all add: in_flight_def sum.remove cbm_def)
  finally have bal: "balanced X p1 = balanced X p" by (simp add: balanced_def account_def awaiting_def f)
  show ?thesis
  proof (cases "queue p")
    case Nil
    then show ?thesis using b bal e by (simp add: pool_ok_def saturated_def f)
  next
    case (Cons pend q)
    have full: "idle p = []" "total p = pool_max p" using assms(1) Cons by (auto simp: pool_ok_def saturated_def)
    define p2 where "p2 = p1\<lparr>queue := q\<rparr>"
    have p2: "pool_base p2" "total p2 < pool_max p2" "idle p2 = []" "Suc (total p2) = pool_max p2"
      using b full t by (simp_all add: p2_def pool_base_def f)
    have "balanced (X + {#snd pend#}) p2 = balanced X p1"
      by (simp add: p2_def balanced_def account_def awaiting_def in_flight_def completed_def f Cons ac_simps)
    then show ?thesis using open_conn_ok [OF p2(1,2)] p2(3,4) bal e Cons full t by (simp add: p2_def)
  qed
qed

lemma close_conn_ok [simp]: "pool_ok (close_conn c p) = pool_ok p" "balanced X (close_conn c p) = balanced X p"
  "conns (close_conn c p) = conns p" "busy (close_conn c p) = busy p" "idle (close_conn c p) = idle p"
  by (simp_all add: close_conn_def)

lemma evict_one_ok:
  assumes "pool_ok p"
  shows "pool_ok (p\<lparr>idle := remove1 c (idle p)\<rparr>)" "balanced X (p\<lparr>idle := remove1 c (idle p)\<rparr>) = balanced X p"
proof -
  have "set (remove1 c (idle p)) \<subseteq> set (idle p)" "distinct (idle p) \<Longrightarrow> distinct (remove1 c (idle p))" "length (remove1 c (idle p)) \<le> length (idle p)"
    by (auto simp: set_remove1_subset length_remove1 distinct_remove1)
  then show "pool_ok (p\<lparr>idle := remove1 c (idle p)\<rparr>)" using assms
    by (auto simp: pool_ok_def pool_base_def saturated_def lists_ok_def objs_ok_def total_def subset_iff disjoint_iff)
  show "balanced X (p\<lparr>idle := remove1 c (idle p)\<rparr>) = balanced X p"
    by (simp add: balanced_def account_def awaiting_def in_flight_def completed_def)
qed

lemma evictIdle_ok:
  assumes "pool_ok p"
  shows "pool_ok (evictIdle now p)" "balanced X (evictIdle now p) = balanced X p"
proof -
  have "pool_ok (fold (\<lambda>c q. close_conn c (q\<lparr>idle := remove1 c (idle q)\<rparr>)) cs q) \<and>
    balanced X (fold (\<lambda>c q. close_conn c (q\<lparr>idle := remove1 c (idle q)\<rparr>)) cs q) = balanced X q" if "pool_ok q" for cs q
    using that
  proof (induction cs arbitrary: q)
    case (Cons c cs)
    then show ?case using evict_one_ok [OF Cons.prems] by simp
  qed simp
  then show "pool_ok (evictIdle now p)" "balanced X (evictIdle now p) = balanced X p" using assms by (simp_all add: evictIdle_def Let_def)
qed

lemma onConnection_up_ok:
  assumes "pool_ok p" "c \<in> set (connecting p)"
  shows "pool_ok (onConnection_up now c p)" "balanced X (onConnection_up now c p) = balanced X p"
proof -
  have o: "buf_ok (pc_input (conns p c))" "rp_ok (pc_parser (conns p c))" using assms(1) by (auto simp: pool_ok_def pool_base_def objs_ok_def)
  have b: "pool_base p" "saturated p" using assms(1) by (simp_all add: pool_ok_def)
  define x where "x t r = (conns p c)\<lparr>pc_conn := True, pc_last_used := now, pc_tls_conn := t, pc_ready := r\<rparr>" for t r
  have x: "pool_ok (p\<lparr>conns := (conns p)(c := x t r)\<rparr>)" "balanced X (p\<lparr>conns := (conns p)(c := x t r)\<rparr>) = balanced X p" for t r
    using conn_update_ok [OF b(1), of "x t r" c] b(2) o by (simp_all add: x_def pool_ok_def)
  show "pool_ok (onConnection_up now c p)" "balanced X (onConnection_up now c p) = balanced X p"
  proof (atomize (full), cases "pool_tls p")
    case True
    then have "onConnection_up now c p = p\<lparr>conns := (conns p)(c := x True (pc_ready (conns p c)))\<rparr>"
      by (simp add: onConnection_up_def Let_def upd_conn_def x_def)
    then show "pool_ok (onConnection_up now c p) \<and> balanced X (onConnection_up now c p) = balanced X p" using x by simp
  next
    case False
    then have "onConnection_up now c p = onReady c (p\<lparr>conns := (conns p)(c := x (pc_tls_conn (conns p c)) True)\<rparr>)"
      by (simp add: onConnection_up_def Let_def upd_conn_def x_def)
    then show "pool_ok (onConnection_up now c p) \<and> balanced X (onConnection_up now c p) = balanced X p"
      using x [of "pc_tls_conn (conns p c)" True] onReady_ok [OF x(1)] assms(2) by simp
  qed
qed

lemma handshakeDone_ok:
  assumes "pool_ok p" "c \<in> set (connecting p)" "pc_conn (conns p c)"
  shows "pool_ok (handshakeDone now c p)" "balanced X (handshakeDone now c p) = balanced X p"
proof -
  have o: "buf_ok (pc_input (conns p c))" "rp_ok (pc_parser (conns p c))" using assms(1) by (auto simp: pool_ok_def pool_base_def objs_ok_def)
  have b: "pool_base p" "saturated p" using assms(1) by (simp_all add: pool_ok_def)
  define x where "x = (conns p c)\<lparr>pc_ready := True, pc_last_used := now\<rparr>"
  have x: "pool_ok (p\<lparr>conns := (conns p)(c := x)\<rparr>)" "balanced X (p\<lparr>conns := (conns p)(c := x)\<rparr>) = balanced X p"
    using conn_update_ok [OF b(1), of x c] b(2) o assms(3) by (simp_all add: x_def pool_ok_def)
  have "handshakeDone now c p = onReady c (p\<lparr>conns := (conns p)(c := x)\<rparr>)" by (simp add: handshakeDone_def upd_conn_def x_def)
  then show "pool_ok (handshakeDone now c p)" "balanced X (handshakeDone now c p) = balanced X p"
    using x onReady_ok [OF x(1)] assms(2) by simp_all
qed

text \<open>Requests issued from a callback leave the busy connections alone.\<close>

lemma request_keeps:
  assumes "pool_ok p" "c \<in> set (busy p)"
  shows "c \<in> set (busy (request pend p))" "conns (request pend p) c = conns p c"
proof -
  have "set (idle p) \<inter> set (busy p) = {}" using assms(1) by (auto simp: pool_ok_def pool_base_def lists_ok_def)
  then have "c \<noteq> last (idle p)" if "idle p \<noteq> []" using assms(2) last_in_set [OF that] by blast
  moreover have "c \<noteq> next_conn p" using assms by (auto simp: pool_ok_def pool_base_def lists_ok_def)
  ultimately show "c \<in> set (busy (request pend p))" "conns (request pend p) c = conns p c"
    using assms(2) by (auto simp: request_def dispatch_def start_on_def open_conn_def upd_conn_def startResolveOnce_def Let_def)
qed

lemma run_cb_keeps:
  assumes "pool_ok p" "c \<in> set (busy p)" "balanced (X + cbm cb) p"
  shows "c \<in> set (busy (run_cb app cb out p)) \<and> conns (run_cb app cb out p) c = conns p c"
proof (cases cb)
  case (Some r)
  have "c \<in> set (busy (fold request pends q)) \<and> conns (fold request pends q) c = conns q c"
    if "pool_ok q" "balanced X q" "c \<in> set (busy q)" for pends q
    using that
  proof (induction pends arbitrary: q)
    case (Cons pend pends)
    then show ?case using request_keeps [OF Cons.prems(1,3), of pend] request_ok_pool [OF Cons.prems(1,2), of pend] by simp
  qed simp
  moreover have "pool_ok (pool_emit (Complete r out) p)" "balanced X (pool_emit (Complete r out) p)"
    using assms Some by (simp_all add: balanced_def cbm_def)
  ultimately show ?thesis using assms(2) Some by (simp add: run_cb_def complete_def)
qed (use assms(2) in \<open>simp add: run_cb_def\<close>)

text \<open>Taking the callback of a busy connection leaves its request in hand.\<close>

lemma take_callback_ok:
  assumes "pool_ok p" "c \<in> set (busy p)" "buf_ok (pc_input x)" "rp_ok (pc_parser x)" "pc_callback x = None" "pc_ready x \<longrightarrow> pc_conn x"
  shows "pool_ok (p\<lparr>conns := (conns p)(c := x)\<rparr>)" "balanced (X + cbm (pc_callback (conns p c))) (p\<lparr>conns := (conns p)(c := x)\<rparr>) = balanced X p"
proof -
  have l: "c \<notin> set (idle p)" "c \<notin> set (connecting p)" using assms(1,2) by (auto simp: pool_ok_def pool_base_def lists_ok_def)
  show "pool_ok (p\<lparr>conns := (conns p)(c := x)\<rparr>)" using assms l by (auto simp: pool_ok_def pool_base_def objs_ok_def saturated_def)
  have "in_flight p = cbm (pc_callback (conns p c)) + (\<Sum>d\<in>set (busy p) - {c}. cbm (pc_callback (conns p d)))"
    using assms(2) by (simp add: in_flight_def sum.remove)
  moreover have "in_flight (p\<lparr>conns := (conns p)(c := x)\<rparr>) = (\<Sum>d\<in>set (busy p) - {c}. cbm (pc_callback (conns p d)))"
    using assms(2,5) by (simp add: in_flight_def sum.remove cbm_def)
  ultimately have "in_flight p = in_flight (p\<lparr>conns := (conns p)(c := x)\<rparr>) + cbm (pc_callback (conns p c))" by (simp add: ac_simps)
  then show "balanced (X + cbm (pc_callback (conns p c))) (p\<lparr>conns := (conns p)(c := x)\<rparr>) = balanced X p"
    by (simp add: balanced_def account_def awaiting_def completed_def ac_simps)
qed

lemma rp_ok_onEof: "rp_ok p \<Longrightarrow> rp_ok (onEof p)"
  by (auto simp: onEof_def rp_ok_def rp_finish_def setBody_def)

lemma onConnection_down_ok:
  assumes "pool_ok p" "balanced X p" "c \<in> set (idle p @ busy p)"
  shows "pool_ok (onConnection_down app c p) \<and> balanced X (onConnection_down app c p)"
proof -
  let ?old = "conns p c"
  have o: "buf_ok (pc_input ?old)" "rp_ok (pc_parser ?old)" using assms(1) by (auto simp: pool_ok_def pool_base_def objs_ok_def)
  define x where "x = ?old\<lparr>pc_ready := False, pc_conn := False, pc_tls_conn := False\<rparr>"
  show ?thesis
  proof (cases "pc_busy ?old \<and> \<not> pc_done ?old")
    case True
    then have b: "c \<in> set (busy p)" using assms(1,3) by (auto simp: pool_ok_def pool_base_def objs_ok_def)
    define y where "y = x\<lparr>pc_busy := False, pc_done := True, pc_callback := None, pc_parser := onEof (pc_parser x)\<rparr>"
    define p1 where "p1 = p\<lparr>conns := (conns p)(c := y)\<rparr>"
    have y: "buf_ok (pc_input y)" "rp_ok (pc_parser y)" "pc_callback y = None" "pc_ready y \<longrightarrow> pc_conn y"
      using o rp_ok_onEof by (simp_all add: y_def x_def)
    note T = take_callback_ok [OF assms(1) b y]
    have p1: "pool_ok p1" "balanced (X + cbm (pc_callback ?old)) p1" using T assms(2) by (simp_all add: p1_def)
    define out where "out = (if rp_gotAll (pc_parser y) then Response (rp_response (pc_parser y)) else ConnectionClosed)"
    define p2 where "p2 = run_cb app (pc_callback ?old) out p1"
    have p2: "pool_ok p2" "balanced X p2" using run_cb_ok [OF p1] by (simp_all add: p2_def)
    have "c \<in> set (busy p1)" using b by (simp add: p1_def)
    then have k: "c \<in> set (busy p2)" "conns p2 c = y" using run_cb_keeps [OF p1(1) _ p1(2)] by (simp_all add: p2_def p1_def)
    have "onConnection_down app c p = onClosed c p2"
      using True by (simp add: onConnection_down_def Let_def p2_def p1_def y_def x_def out_def)
    moreover have "p2\<lparr>conns := (conns p2)(c := y)\<rparr> = p2" using k(2) by (cases p2) (simp add: fun_upd_idem)
    ultimately show ?thesis using onClosed_ok [OF p2(1), of c y X] k y p2(2) by simp
  next
    case False
    then have cb: "pc_callback ?old = None"
      using assms(1,3) by (auto simp: pool_ok_def pool_base_def objs_ok_def)
    have "onConnection_down app c p = onClosed c (p\<lparr>conns := (conns p)(c := x)\<rparr>)"
      using False by (auto simp: onConnection_down_def Let_def x_def)
    then show ?thesis using onClosed_ok [OF assms(1,3) cb, of x X] assms(2) o by (simp add: x_def)
  qed
qed

lemma rp_parse_ok:
  assumes "rp_ok p" "buf_ok b"
  shows "\<exists>ok q b'. rp_parse p b = Some (ok, q, b') \<and> rp_ok q \<and> buf_ok b'"
proof -
  obtain q r where q: "rp_run p (readable b) = (q, r)" by (cases "rp_run p (readable b)")
  then have "rp_ok q" using rsp.run_inv [OF assms(1), of "readable b"] by simp
  then show ?thesis using rp_parse_run [OF assms q] by blast
qed

lemma consume_ok:
  assumes "pool_ok p" "balanced X p" "c \<in> set (busy p)" "pc_ready (conns p c)"
  shows "\<exists>p'. consume app now c p = Some p' \<and> pool_ok p' \<and> balanced X p'"
proof -
  let ?x = "conns p c"
  have o: "buf_ok (pc_input ?x)" "rp_ok (pc_parser ?x)" "pc_conn ?x"
    using assms(1,4) by (auto simp: pool_ok_def pool_base_def objs_ok_def)
  obtain ok q b where q: "rp_parse (pc_parser ?x) (pc_input ?x) = Some (ok, q, b)" "rp_ok q" "buf_ok b"
    using rp_parse_ok [OF o(2,1)] by blast
  consider (bad) "\<not> ok" | (all) "ok" "rp_gotAll q" | (more) "ok" "\<not> rp_gotAll q" by blast
  then show ?thesis
  proof cases
    case bad
    define p1 where "p1 = p\<lparr>conns := (conns p)(c := ?x\<lparr>pc_parser := q, pc_input := b, pc_callback := None\<rparr>)\<rparr>"
    have "pool_ok p1" "balanced (X + cbm (pc_callback ?x)) p1"
      using take_callback_ok [OF assms(1,3), of "?x\<lparr>pc_parser := q, pc_input := b, pc_callback := None\<rparr>"] q o assms(2)
      by (simp_all add: p1_def)
    then show ?thesis using run_cb_ok bad q(1) by (simp add: consume_def Let_def p1_def)
  next
    case all
    define y where "y = ?x\<lparr>pc_parser := rp_reset q, pc_input := b, pc_busy := False, pc_done := True, pc_last_used := now, pc_callback := None\<rparr>"
    define p1 where "p1 = p\<lparr>conns := (conns p)(c := y)\<rparr>"
    have p1: "pool_ok p1" "balanced (X + cbm (pc_callback ?x)) p1"
      using take_callback_ok [OF assms(1,3), of y] q o assms(2) by (simp_all add: p1_def y_def)
    define p2 where "p2 = (if toLower (resp_header (rp_response q) ''Connection'') \<noteq> ''close'' then onFree c p1 else close_conn c p1)"
    have "pool_ok p2" "balanced (X + cbm (pc_callback ?x)) p2"
      using onFree_ok [OF p1(1), of c] p1 assms(3) o(3) by (simp_all add: p2_def) (simp_all add: p1_def y_def)
    then have "pool_ok (run_cb app (pc_callback ?x) (Response (rp_response q)) p2) \<and> balanced X (run_cb app (pc_callback ?x) (Response (rp_response q)) p2)"
      by (rule run_cb_ok)
    moreover have "consume app now c p = Some (run_cb app (pc_callback ?x) (Response (rp_response q)) p2)"
      using all q(1) by (simp add: consume_def Let_def p2_def p1_def y_def)
    ultimately show ?thesis by blast
  next
    case more
    define y where "y = ?x\<lparr>pc_parser := q, pc_input := b\<rparr>"
    have "pool_ok (p\<lparr>conns := (conns p)(c := y)\<rparr>)" "balanced X (p\<lparr>conns := (conns p)(c := y)\<rparr>)"
      using conn_update_ok [of p y c] assms(1,2) q o by (simp_all add: pool_ok_def y_def)
    then show ?thesis using more q(1) by (simp add: consume_def Let_def y_def)
  qed
qed

lemma onBytes_ok:
  assumes "pool_ok p" "balanced X p" "c \<in> set (busy p)" "pc_ready (conns p c)"
  shows "\<exists>p'. onBytes app now c s p = Some p' \<and> pool_ok p' \<and> balanced X p'"
proof -
  have o: "buf_ok (pc_input (conns p c))" "rp_ok (pc_parser (conns p c))" "pc_conn (conns p c)"
    using assms(1,4) by (auto simp: pool_ok_def pool_base_def objs_ok_def)
  obtain b where b: "buf_append s (pc_input (conns p c)) = Some b" "buf_ok b"
    using bq.enqueue_contents [OF o(1), of s] by blast
  define y where "y = (conns p c)\<lparr>pc_input := b\<rparr>"
  have y: "pool_ok (p\<lparr>conns := (conns p)(c := y)\<rparr>)" "balanced X (p\<lparr>conns := (conns p)(c := y)\<rparr>)"
    using conn_update_ok [of p y c] assms(1,2) b(2) o by (simp_all add: pool_ok_def y_def)
  show ?thesis using consume_ok [OF y, of c app now] assms(3,4) b(1) by (simp add: onBytes_def upd_conn_def y_def)
qed

section \<open>Runs\<close>

text \<open>
  The server answers only requests, so bytes arrive on a connection with a request in flight; and no connection goes down before it is ready.
\<close>

fun pool_event_ok :: "pool_event \<Rightarrow> Pool \<Rightarrow> bool" where
  "pool_event_ok (Bytes now c s) p = (c \<in> set (busy p) \<and> pc_callback (conns p c) \<noteq> None)"
| "pool_event_ok (Down c) p = (c \<notin> set (connecting p))"
| "pool_event_ok _ p = True"

fun pool_orderly :: "(nat \<Rightarrow> outcome \<Rightarrow> Pending list) \<Rightarrow> pool_event list \<Rightarrow> Pool \<Rightarrow> bool" where
  "pool_orderly app [] p = True"
| "pool_orderly app (e # es) p =
     (pool_event_ok e p \<and> (case pool_exec app e p of None \<Rightarrow> True | Some p' \<Rightarrow> pool_orderly app es p'))"

lemma pool_exec_ok:
  assumes "pool_ok p" "balanced X p" "pool_event_ok e p"
  shows "\<exists>p'. pool_exec app e p = Some p' \<and> pool_ok p' \<and> balanced X p'"
proof (cases e)
  case (Request pend)
  then show ?thesis using request_ok_pool [OF assms(1,2)] by simp
next
  case (Resolved addrs err)
  then show ?thesis using onResolved_ok [OF assms(1,2)] assms(1,2) by simp
next
  case (Up now c)
  then show ?thesis using onConnection_up_ok [OF assms(1)] assms(1,2) by simp
next
  case (Handshake now c)
  then show ?thesis using handshakeDone_ok [OF assms(1)] assms by simp
next
  case (Down c)
  then show ?thesis using onConnection_down_ok [OF assms(1,2), of c app] assms by (auto simp: listed_def)
next
  case (Bytes now c s)
  then show ?thesis using onBytes_ok [OF assms(1,2), of c app now s] assms by auto
next
  case (Evict now)
  then show ?thesis using evictIdle_ok [OF assms(1)] assms(1,2) by simp
qed

lemma pool_run_ok:
  "pool_ok p \<Longrightarrow> balanced X p \<Longrightarrow> pool_orderly app es p \<Longrightarrow> \<exists>p'. pool_run app es p = Some p' \<and> pool_ok p' \<and> balanced X p'"
proof (induction es arbitrary: p)
  case (Cons e es)
  obtain p1 where p1: "pool_exec app e p = Some p1" "pool_ok p1" "balanced X p1"
    using pool_exec_ok [OF Cons.prems(1,2), of e app] Cons.prems(3) by auto
  then show ?case using Cons.IH [OF p1(2,3)] Cons.prems(3) by (simp del: pool_exec.simps)
qed simp

lemma pool_ok_new:
  "pool_ok (startEviction (Pool_new tls host k s numeric))" "balanced {#} (startEviction (Pool_new tls host k s numeric))"
  by (simp_all add: startEviction_def Pool_new_def pool_ok_def pool_base_def saturated_def lists_ok_def objs_ok_def total_def
      balanced_def account_def awaiting_def in_flight_def completed_def)



section \<open>Where requests are lost\<close>

text \<open>
  A TLS connection that goes down before its handshake is done takes its request with it: \<^verbatim>\<open>onClosed\<close> erases the pending entry, and no callback runs.
\<close>

theorem failed_handshake_loses_request:
  "\<exists>p. pool_run app [Request (r, 1), Up now 0, Down 0] (startEviction (Pool_new True host (Suc k) s True)) = Some p \<and>
    issued p = [1] \<and> completed p = [] \<and> idle p = [] \<and> busy p = [] \<and> connecting p = [] \<and> queue p = [] \<and> waiting_on_dns p = []"
  by (simp add: startEviction_def Pool_new_def request_def dispatch_def open_conn_def total_def Let_def pool_emit_def onConnection_up_def
      upd_conn_def listed_def onConnection_down_def PooledConn_new_def onClosed_def completed_def)

text \<open>
  A complete response on an idle connection, such as one that reports a timeout: \<^verbatim>\<open>onFree\<close> lists the connection as idle a second
  time. The next two requests then go out on it together, and the callback of the first is overwritten.
\<close>

lemma unasked_response:
  assumes "pool_ok p" "c \<in> set (idle p)" "pc_ready (conns p c)"
    "rp_run (pc_parser (conns p c)) (readable (pc_input (conns p c)) @ s) = (q, rest)" "rp_gotAll q"
    "toLower (resp_header (rp_response q) ''Connection'') \<noteq> ''close''"
  shows "\<exists>p'. onBytes app now c s p = Some p' \<and> idle p' = idle p @ [c] \<and> busy p' = busy p \<and> connecting p' = connecting p \<and>
    resolved p' = resolved p \<and> completed p' = completed p \<and> pc_callback (conns p' c) = None"
proof -
  have o: "buf_ok (pc_input (conns p c))" "rp_ok (pc_parser (conns p c))" "pc_callback (conns p c) = None" "c \<notin> set (busy p)" "queue p = []"
    using assms(1-3) by (auto simp: pool_ok_def pool_base_def objs_ok_def lists_ok_def saturated_def)
  obtain b where b: "buf_append s (pc_input (conns p c)) = Some b" "buf_ok b" "readable b = readable (pc_input (conns p c)) @ s"
    using bq.enqueue_contents [OF o(1), of s] by blast
  obtain b' where "rp_parse (pc_parser (conns p c)) b = Some (True, q, b')"
    using rp_parse_run [OF o(2) b(2), of q rest] assms(4,5) b(3) by (auto simp: rp_hasError_def rp_gotAll_def)
  then show ?thesis using o assms(5,6) b(1)
    by (simp add: onBytes_def upd_conn_def consume_def Let_def onFree_def run_cb_def remove1_idem completed_def)
qed

theorem unasked_response_loses_request:
  assumes "resolved p" "idle p = is @ [c, c]"
  shows "idle (request (r2, b) (request (r1, a) p)) = is"
    "pc_callback (conns (request (r2, b) (request (r1, a) p)) c) = Some b"
    "busy (request (r2, b) (request (r1, a) p)) = busy p @ [c, c]"
    "completed (request (r2, b) (request (r1, a) p)) = completed p"
proof -
  have "\<exists>p1. request (r1, a) p = p1 \<and> idle p1 = is @ [c] \<and> busy p1 = busy p @ [c] \<and> resolved p1 \<and> completed p1 = completed p"
    using assms by (simp add: request_def dispatch_def start_on_def upd_conn_def Let_def butlast_append completed_def pool_emit_def)
  then obtain p1 where p1: "request (r1, a) p = p1" "idle p1 = is @ [c]" "busy p1 = busy p @ [c]" "resolved p1" "completed p1 = completed p"
    by blast
  have "idle (request (r2, b) p1) = is \<and> pc_callback (conns (request (r2, b) p1) c) = Some b \<and> busy (request (r2, b) p1) = busy p1 @ [c] \<and>
    completed (request (r2, b) p1) = completed p1"
    using p1(2,4) by (simp add: request_def dispatch_def start_on_def upd_conn_def Let_def pc_start_def completed_def pool_emit_def)
  then show "idle (request (r2, b) (request (r1, a) p)) = is"
    "pc_callback (conns (request (r2, b) (request (r1, a) p)) c) = Some b"
    "busy (request (r2, b) (request (r1, a) p)) = busy p @ [c, c]"
    "completed (request (r2, b) (request (r1, a) p)) = completed p" using p1 by simp_all
qed

text \<open>The age of an idle connection is unsigned: a clock that was set back makes every idle connection too old.\<close>

lemma idle_ms_backwards:
  assumes "now < pc_last_used x" "pc_last_used x - now < 2 ^ 32"
  shows "idle_ms now x > of_nat 4294967295 * 1000"
proof -
  have 1: "unat now < unat (pc_last_used x)" "unat (pc_last_used x) - unat now < 2 ^ 32"
    using assms by (simp_all add: word_less_nat_alt unat_sub_if')
  have "unat (now - pc_last_used x) = 2 ^ 64 + unat now - unat (pc_last_used x)"
    using 1(1) by (simp add: unat_sub_if_size word_size) 
  then have "unat (idle_ms now x) = (2 ^ 64 + unat now - unat (pc_last_used x)) div 1000" by (simp add: idle_ms_def unat_div)
  moreover have "unat now < 2 ^ 64" using unsigned_less [of now] by simp
  ultimately show ?thesis using 1 by (simp add: word_less_nat_alt)
qed

end
