(* ===== verification/Metrics_Registry.thy ===== *)
theory Metrics_Registry
  imports Cox_Prelude Complex_Main "HOL-Library.Word" "HOL-Library.Multiset"
begin

text \<open>
  The metrics, \<^verbatim>\<open>metrics/metrics.h\<close>, \<^verbatim>\<open>metrics/metrics.cc\<close>, \<^verbatim>\<open>metrics/registry.h\<close>, \<^verbatim>\<open>metrics/registry.cc\<close> and \<^verbatim>\<open>metrics/server_metrics.cc\<close>:
  instruments with their counters at 64 bits, observation of a histogram by several threads one atomic access at a time, the registry
  with its scrape and text exposition, and the accounting of connections and requests. A \<^verbatim>\<open>double\<close> is the real number it
  denotes; its rounding and its printed form are parameters. The theory shows that a quiescent histogram holds the
  cumulative counts of what was observed, that a filtered scrape is the filter of the full one, and that
  the live gauge counts the open connections however often a disconnect is reported.
\<close>

section \<open>Instruments\<close>

record Counter = c_value :: "64 word"

definition Counter_new :: Counter where "Counter_new = \<lparr>c_value = 0\<rparr>"

definition c_inc :: "64 word \<Rightarrow> Counter \<Rightarrow> Counter" where
  "c_inc n c = c\<lparr>c_value := c_value c + n\<rparr>"

record Gauge = g_value :: "64 word"

definition Gauge_new :: Gauge where "Gauge_new = \<lparr>g_value = 0\<rparr>"

definition g_inc :: "64 word \<Rightarrow> Gauge \<Rightarrow> Gauge" where
  "g_inc n g = g\<lparr>g_value := g_value g + n\<rparr>"

definition g_dec :: "64 word \<Rightarrow> Gauge \<Rightarrow> Gauge" where
  "g_dec n g = g\<lparr>g_value := g_value g - n\<rparr>"

definition g_set :: "64 word \<Rightarrow> Gauge \<Rightarrow> Gauge" where
  "g_set v g = g\<lparr>g_value := v\<rparr>"

record Histogram =
  bounds :: "real list"
  counts :: "64 word list"
  hcount :: "64 word"
  hsum :: real

text \<open>The constructor throws on an empty list or one that does not ascend strictly.\<close>

fun ascending :: "real list \<Rightarrow> bool" where
  "ascending (x # y # zs) = (y > x \<and> ascending (y # zs))"
| "ascending _ = True"

definition Histogram_new :: "real list \<Rightarrow> Histogram option" where
  "Histogram_new bs =
     (if bs = [] \<or> \<not> ascending bs then None
      else Some \<lparr>bounds = bs, counts = replicate (length bs + 1) 0, hcount = 0, hsum = 0\<rparr>)"

text \<open>\<^verbatim>\<open>std::lower_bound\<close> on a sorted range: the index of the first bound that is not below the value.\<close>

definition bucket_index :: "real list \<Rightarrow> real \<Rightarrow> nat" where
  "bucket_index bs v = length (takeWhile (\<lambda>b. b < v) bs)"

definition add_bucket :: "real \<Rightarrow> Histogram \<Rightarrow> Histogram" where
  "add_bucket v h = (let i = bucket_index (bounds h) v in h\<lparr>counts := (counts h)[i := counts h ! i + 1]\<rparr>)"

definition add_count :: "Histogram \<Rightarrow> Histogram" where
  "add_count h = h\<lparr>hcount := hcount h + 1\<rparr>"

definition add_sum :: "(real \<Rightarrow> real) \<Rightarrow> real \<Rightarrow> Histogram \<Rightarrow> Histogram" where
  "add_sum rnd v h = h\<lparr>hsum := rnd (hsum h + v)\<rparr>"

definition observe :: "(real \<Rightarrow> real) \<Rightarrow> real \<Rightarrow> Histogram \<Rightarrow> Histogram" where
  "observe rnd v h = add_sum rnd v (add_count (add_bucket v h))"

fun cumulate :: "64 word \<Rightarrow> 64 word list \<Rightarrow> 64 word list" where
  "cumulate acc [] = []"
| "cumulate acc (c # cs) = (acc + c) # cumulate (acc + c) cs"

record HistSnapshot =
  s_bounds :: "real list"
  s_counts :: "64 word list"
  s_count :: "64 word"
  s_sum :: real

definition hist_snapshot :: "Histogram \<Rightarrow> HistSnapshot" where
  "hist_snapshot h = \<lparr>s_bounds = bounds h, s_counts = cumulate 0 (counts h), s_count = hcount h, s_sum = hsum h\<rparr>"

definition defaultLatencyBuckets :: "real list" where
  "defaultLatencyBuckets =
     [5 / 10000, 1 / 1000, 25 / 10000, 5 / 1000, 1 / 100, 25 / 1000, 5 / 100, 1 / 10, 25 / 100, 5 / 10, 1, 25 / 10, 5, 10]"

section \<open>Observation by several threads\<close>

text \<open>
  A thread in \<^verbatim>\<open>observe\<close> is about to add to its bucket, to the count, or to the sum; the loop around the weak exchange ends with
  one step that replaces the sum it read. \<open>bucketed\<close> and \<open>counted\<close> record the values past each step.
\<close>

datatype obs_pc = AtBucket real | AtCount real | AtSum real

record hist_sys =
  hist :: Histogram
  observers :: "nat \<Rightarrow> obs_pc option"
  bucketed :: "real list"
  counted :: "real list"

definition hist_sys_new :: "Histogram \<Rightarrow> hist_sys" where
  "hist_sys_new h = \<lparr>hist = h, observers = (\<lambda>_. None), bucketed = [], counted = []\<rparr>"

inductive hist_step :: "(real \<Rightarrow> real) \<Rightarrow> hist_sys \<Rightarrow> hist_sys \<Rightarrow> bool" for rnd where
  enter: "observers s i = None \<Longrightarrow> hist_step rnd s (s\<lparr>observers := (observers s)(i \<mapsto> AtBucket v)\<rparr>)"
| bucket: "observers s i = Some (AtBucket v) \<Longrightarrow>
    hist_step rnd s (s\<lparr>hist := add_bucket v (hist s), observers := (observers s)(i \<mapsto> AtCount v), bucketed := bucketed s @ [v]\<rparr>)"
| count: "observers s i = Some (AtCount v) \<Longrightarrow>
    hist_step rnd s (s\<lparr>hist := add_count (hist s), observers := (observers s)(i \<mapsto> AtSum v), counted := counted s @ [v]\<rparr>)"
| retry: "observers s i = Some (AtSum v) \<Longrightarrow> hist_step rnd s s"
| sum: "observers s i = Some (AtSum v) \<Longrightarrow>
    hist_step rnd s (s\<lparr>hist := add_sum rnd v (hist s), observers := (observers s)(i := None)\<rparr>)"

inductive hist_reachable :: "(real \<Rightarrow> real) \<Rightarrow> real list \<Rightarrow> hist_sys \<Rightarrow> bool" for rnd bs where
  initial: "Histogram_new bs = Some h \<Longrightarrow> hist_reachable rnd bs (hist_sys_new h)"
| reach: "hist_reachable rnd bs s \<Longrightarrow> hist_step rnd s s' \<Longrightarrow> hist_reachable rnd bs s'"

text \<open>Reference: how many of the values fall below each bound, and the number of values.\<close>

definition cumulative_counts :: "real list \<Rightarrow> real list \<Rightarrow> 64 word list" where
  "cumulative_counts bs vs = map (\<lambda>b. of_nat (length (filter (\<lambda>v. v \<le> b) vs))) bs @ [of_nat (length vs)]"

definition bucket_counts :: "real list \<Rightarrow> real list \<Rightarrow> 64 word list" where
  "bucket_counts bs vs = map (\<lambda>i. of_nat (length (filter (\<lambda>v. bucket_index bs v = i) vs))) [0..<length bs + 1]"

lemma ascending_sorted: "ascending bs \<longleftrightarrow> sorted_wrt (<) bs"
proof (induction bs rule: ascending.induct)
  case (1 x y zs)
  then show ?case by (auto intro: less_trans)
qed simp_all

lemma bucket_index_le: "bucket_index bs v \<le> length bs"
  by (simp add: bucket_index_def length_takeWhile_le)

lemma bucket_index_iff:
  assumes "sorted_wrt (<) bs" "i < length bs"
  shows "bucket_index bs v \<le> i \<longleftrightarrow> v \<le> bs ! i"
proof
  assume "bucket_index bs v \<le> i"
  then have "\<not> bs ! bucket_index bs v < v" using assms(2) nth_length_takeWhile [of "\<lambda>b. b < v" bs] by (simp add: bucket_index_def)
  moreover have "bs ! bucket_index bs v \<le> bs ! i"
    using \<open>bucket_index bs v \<le> i\<close> assms(2) sorted_wrt_nth_less [OF assms(1), of "bucket_index bs v" i]
    by (cases "bucket_index bs v = i") auto
  ultimately show "v \<le> bs ! i" by simp
next
  assume "v \<le> bs ! i"
  show "bucket_index bs v \<le> i"
  proof (rule ccontr)
    assume "\<not> bucket_index bs v \<le> i"
    then have "i < length (takeWhile (\<lambda>b. b < v) bs)" by (simp add: bucket_index_def)
    then have "bs ! i < v" using takeWhile_nth [of i "\<lambda>b. b < v" bs] nth_mem set_takeWhileD by metis
    then show False using \<open>v \<le> bs ! i\<close> by simp
  qed
qed

lemma length_bucket_counts [simp]: "length (bucket_counts bs vs) = length bs + 1"
  by (simp add: bucket_counts_def)

lemma bucket_counts_snoc:
  "bucket_counts bs (vs @ [v]) = (bucket_counts bs vs)[bucket_index bs v := bucket_counts bs vs ! bucket_index bs v + 1]"
  using bucket_index_le [of bs v]
  by (intro nth_equalityI) (auto simp: bucket_counts_def nth_list_update nth_append simp del: upt_Suc)

lemma cumulate_nth: "i < length cs \<Longrightarrow> cumulate acc cs ! i = acc + sum_list (take (Suc i) cs)"
proof (induction cs arbitrary: acc i)
  case (Cons c cs)
  then show ?case by (cases i) (simp_all add: ac_simps)
qed simp

lemma length_cumulate [simp]: "length (cumulate acc cs) = length cs"
  by (induction cs arbitrary: acc) simp_all

lemma sum_bucket_counts:
  assumes "k \<le> length bs + 1"
  shows "sum_list (take k (bucket_counts bs vs)) = of_nat (length (filter (\<lambda>v. bucket_index bs v < k) vs))"
  using assms
proof (induction k)
  case (Suc k)
  have "take (Suc k) (bucket_counts bs vs) = take k (bucket_counts bs vs) @ [bucket_counts bs vs ! k]"
    using Suc.prems by (intro take_Suc_conv_app_nth) simp
  moreover have "bucket_counts bs vs ! k = of_nat (length (filter (\<lambda>v. bucket_index bs v = k) vs))"
    using Suc.prems by (simp add: bucket_counts_def del: upt_Suc)
  moreover have "length (filter (\<lambda>v. bucket_index bs v < Suc k) vs) =
      length (filter (\<lambda>v. bucket_index bs v < k) vs) + length (filter (\<lambda>v. bucket_index bs v = k) vs)"
    by (induction vs) (auto simp: less_Suc_eq)
  ultimately show ?case using Suc by simp
qed simp

lemma cumulate_bucket_counts:
  assumes "sorted_wrt (<) bs"
  shows "cumulate 0 (bucket_counts bs vs) = cumulative_counts bs vs"
proof (rule nth_equalityI)
  fix i assume i: "i < length (cumulate 0 (bucket_counts bs vs))"
  have c: "cumulate 0 (bucket_counts bs vs) ! i = of_nat (length (filter (\<lambda>v. bucket_index bs v \<le> i) vs))"
    using i cumulate_nth [of i "bucket_counts bs vs" 0] sum_bucket_counts [of "Suc i" bs vs] by (simp add: less_Suc_eq_le)
  show "cumulate 0 (bucket_counts bs vs) ! i = cumulative_counts bs vs ! i"
  proof (cases "i < length bs")
    case True
    then show ?thesis using c bucket_index_iff [OF assms True] by (simp add: cumulative_counts_def nth_append)
  next
    case False
    then have "i = length bs" using i by simp
    then show ?thesis using c bucket_index_le [of bs] by (simp add: cumulative_counts_def nth_append)
  qed
qed (simp add: cumulative_counts_def)

text \<open>What the threads have still to count: the values between the bucket and the count.\<close>

definition hist_inv :: "real list \<Rightarrow> hist_sys \<Rightarrow> bool" where
  "hist_inv bs s =
     (bounds (hist s) = bs \<and> sorted_wrt (<) bs \<and> counts (hist s) = bucket_counts bs (bucketed s) \<and>
      hcount (hist s) = of_nat (length (counted s)) \<and> finite (dom (observers s)) \<and>
      length (bucketed s) = length (counted s) + card {i. \<exists>v. observers s i = Some (AtCount v)})"

lemma finite_at_count: "finite (dom f) \<Longrightarrow> finite {i. \<exists>v. f i = Some (AtCount v)}"
  by (rule finite_subset [of _ "dom f"]) auto

lemma hist_inv_step:
  assumes "hist_step rnd s s'" "hist_inv bs s"
  shows "hist_inv bs s'"
  using assms(1)
proof cases
  case (enter i v)
  have "{j. \<exists>w. ((observers s)(i \<mapsto> AtBucket v)) j = Some (AtCount w)} = {j. \<exists>w. observers s j = Some (AtCount w)}"
    using enter(2) by auto
  then show ?thesis using enter(1) assms(2) by (simp add: hist_inv_def)
next
  case (bucket i v)
  have "{j. \<exists>w. ((observers s)(i \<mapsto> AtCount v)) j = Some (AtCount w)} = insert i {j. \<exists>w. observers s j = Some (AtCount w)}"
    using bucket(2) by auto
  moreover have "i \<notin> {j. \<exists>w. observers s j = Some (AtCount w)}" using bucket(2) by simp
  ultimately show ?thesis using bucket(1) assms(2) finite_at_count [of "observers s"]
    by (simp add: hist_inv_def add_bucket_def Let_def bucket_counts_snoc)
next
  case (count i v)
  let ?A = "{j. \<exists>w. observers s j = Some (AtCount w)}"
  have "{j. \<exists>w. ((observers s)(i \<mapsto> AtSum v)) j = Some (AtCount w)} = ?A - {i}" by auto
  moreover have "i \<in> ?A" "finite ?A" using count(2) finite_at_count assms(2) by (auto simp: hist_inv_def)
  then have "card ?A = Suc (card (?A - {i}))" by (metis card_Suc_Diff1)
  ultimately show ?thesis using count(1) assms(2) by (simp add: hist_inv_def add_count_def)
next
  case (sum i v)
  have "{j. \<exists>w. ((observers s)(i := None)) j = Some (AtCount w)} = {j. \<exists>w. observers s j = Some (AtCount w)}"
    using sum(2) by auto
  then show ?thesis using sum(1) assms(2) by (simp add: hist_inv_def add_sum_def)
qed (use assms(2) in simp)

lemma hist_reachable_inv: "hist_reachable rnd bs s \<Longrightarrow> hist_inv bs s"
proof (induction rule: hist_reachable.induct)
  case (initial h)
  then show ?case
    by (auto simp: hist_inv_def hist_sys_new_def Histogram_new_def ascending_sorted bucket_counts_def map_replicate_const
        simp del: upt_Suc split: if_splits)
next
  case (reach s s')
  then show ?case using hist_inv_step by blast
qed

text \<open>A call that no other thread interrupts is one after the other of its steps.\<close>

definition observed :: "(real \<Rightarrow> real) \<Rightarrow> real \<Rightarrow> hist_sys \<Rightarrow> hist_sys" where
  "observed rnd v s = s\<lparr>hist := observe rnd v (hist s), bucketed := bucketed s @ [v], counted := counted s @ [v]\<rparr>"

lemma observe_alone:
  assumes "hist_reachable rnd bs s" "observers s = (\<lambda>_. None)"
  shows "hist_reachable rnd bs (observed rnd v s)"
proof -
  define s1 where "s1 = s\<lparr>observers := (observers s)(0 \<mapsto> AtBucket v)\<rparr>"
  define s2 where "s2 = s1\<lparr>hist := add_bucket v (hist s1), observers := (observers s1)(0 \<mapsto> AtCount v), bucketed := bucketed s1 @ [v]\<rparr>"
  define s3 where "s3 = s2\<lparr>hist := add_count (hist s2), observers := (observers s2)(0 \<mapsto> AtSum v), counted := counted s2 @ [v]\<rparr>"
  define s4 where "s4 = s3\<lparr>hist := add_sum rnd v (hist s3), observers := (observers s3)(0 := None)\<rparr>"
  have "hist_step rnd s s1" unfolding s1_def by (rule hist_step.enter) (simp add: assms(2))
  moreover have "hist_step rnd s1 s2" unfolding s2_def by (rule hist_step.bucket) (simp add: s1_def)
  moreover have "hist_step rnd s2 s3" unfolding s3_def by (rule hist_step.count) (simp add: s2_def)
  moreover have "hist_step rnd s3 s4" unfolding s4_def by (rule hist_step.sum) (simp add: s3_def)
  ultimately have "hist_reachable rnd bs s4" using assms(1) by (blast intro: hist_reachable.reach)
  moreover have "s4 = observed rnd v s"
    using assms(2) by (cases s) (simp add: s4_def s3_def s2_def s1_def observed_def observe_def fun_eq_iff)
  ultimately show ?thesis by simp
qed

text \<open>
  However the observing threads interleave, a histogram that is scraped when none of them is in between shows, for each bound, the number of
  values up to it, and the last bucket is the total count, all modulo the width of the counters.
\<close>

theorem histogram_counts_observations:
  assumes "hist_reachable rnd bs s" "observers s = (\<lambda>_. None)"
  shows "s_counts (hist_snapshot (hist s)) = cumulative_counts bs (bucketed s) \<and>
    s_count (hist_snapshot (hist s)) = of_nat (length (bucketed s))"
  using hist_reachable_inv [OF assms(1)] assms(2) cumulate_bucket_counts [of bs "bucketed s"]
  by (simp add: hist_inv_def hist_snapshot_def)

theorem histogram_counts_observations_witness:
  "s_counts (hist_snapshot (observe (\<lambda>x. x) 1 \<lparr>bounds = [1, 2], counts = [0, 0, 0], hcount = 0, hsum = 0\<rparr>)) = cumulative_counts [1, 2] [1] \<and>
   s_count (hist_snapshot (observe (\<lambda>x. x) 1 \<lparr>bounds = [1, 2], counts = [0, 0, 0], hcount = 0, hsum = 0\<rparr>)) = of_nat (length [1 :: real])"
proof -
  let ?s = "hist_sys_new \<lparr>bounds = [1, 2], counts = [0, 0, 0], hcount = 0, hsum = 0\<rparr>"
  have "hist_reachable (\<lambda>x. x) [1, 2] ?s"
    by (rule hist_reachable.initial) (simp add: Histogram_new_def numeral_3_eq_3)
  then have "hist_reachable (\<lambda>x. x) [1, 2] (observed (\<lambda>x. x) 1 ?s)"
    by (rule observe_alone) (simp add: hist_sys_new_def)
  from histogram_counts_observations [OF this] show ?thesis by (simp add: observed_def hist_sys_new_def)
qed

text \<open>In the middle of an observation the last bucket and the total can differ.\<close>

lemma scrape_during_observation:
  "Histogram_new bs = Some h \<Longrightarrow>
   \<exists>s. hist_reachable rnd bs s \<and> last (s_counts (hist_snapshot (hist s))) = 1 \<and> s_count (hist_snapshot (hist s)) = 0"
proof -
  assume h: "Histogram_new bs = Some h"
  define s1 where "s1 = (hist_sys_new h)\<lparr>observers := (observers (hist_sys_new h))(0 \<mapsto> AtBucket 0)\<rparr>"
  define s2 where "s2 = s1\<lparr>hist := add_bucket 0 (hist s1), observers := (observers s1)(0 \<mapsto> AtCount 0), bucketed := bucketed s1 @ [0]\<rparr>"
  have "hist_step rnd (hist_sys_new h) s1" unfolding s1_def by (rule hist_step.enter) (simp add: hist_sys_new_def)
  then have "hist_reachable rnd bs s1" using hist_reachable.initial [OF h] by (rule hist_reachable.reach [rotated])
  moreover have "hist_step rnd s1 s2" unfolding s2_def by (rule hist_step.bucket) (simp add: s1_def)
  ultimately have r: "hist_reachable rnd bs s2" by (rule hist_reachable.reach)
  note I = hist_reachable_inv [OF r]
  have "bucketed s2 = [0]" by (simp add: s2_def s1_def hist_sys_new_def)
  then have "s_counts (hist_snapshot (hist s2)) = cumulative_counts bs [0]"
    using I cumulate_bucket_counts [of bs "[0]"] by (simp add: hist_inv_def hist_snapshot_def)
  moreover have "s_count (hist_snapshot (hist s2)) = 0"
    using h by (auto simp: s2_def s1_def hist_sys_new_def hist_snapshot_def add_bucket_def Let_def Histogram_new_def split: if_splits)
  ultimately show ?thesis using r by (auto simp: cumulative_counts_def)
qed

section \<open>The registry\<close>

datatype mtype = kCounter | kGauge | kHistogram

type_synonym Labels = "(string \<times> string) list"

text \<open>A sampling callback is a number; what it returns at scrape time is a parameter.\<close>

record Entry =
  e_name :: string
  e_help :: string
  e_type :: mtype
  e_labels :: Labels
  e_counter :: "Counter option"
  e_gauge :: "Gauge option"
  e_histogram :: "Histogram option"
  e_sample :: "nat option"

datatype reg_error = DifferentType | InvalidArgument | SampledHistogram

fun sameLabels :: "Labels \<Rightarrow> Labels \<Rightarrow> bool" where
  "sameLabels [] [] = True"
| "sameLabels (x # xs) (y # ys) = (fst x = fst y \<and> snd x = snd y \<and> sameLabels xs ys)"
| "sameLabels _ _ = False"

fun typeName :: "mtype \<Rightarrow> string" where
  "typeName kCounter = ''counter''"
| "typeName kGauge = ''gauge''"
| "typeName kHistogram = ''histogram''"

definition entry_new :: "string \<Rightarrow> string \<Rightarrow> mtype \<Rightarrow> Labels \<Rightarrow> Entry" where
  "entry_new name help t labels =
     \<lparr>e_name = name, e_help = help, e_type = t, e_labels = labels, e_counter = None, e_gauge = None, e_histogram = None, e_sample = None\<rparr>"

text \<open>The index of the first entry with the name and the labels.\<close>

fun find_entry :: "string \<Rightarrow> Labels \<Rightarrow> Entry list \<Rightarrow> nat option" where
  "find_entry name labels [] = None"
| "find_entry name labels (e # es) =
     (if e_name e = name \<and> sameLabels (e_labels e) labels then Some 0 else map_option Suc (find_entry name labels es))"

definition findOrCreate :: "string \<Rightarrow> string \<Rightarrow> mtype \<Rightarrow> Labels \<Rightarrow> Entry list \<Rightarrow> (reg_error + nat) \<times> Entry list" where
  "findOrCreate name help t labels es =
     (case find_entry name labels es of
        Some i \<Rightarrow> if e_type (es ! i) \<noteq> t then (Inl DifferentType, es) else (Inr i, es)
      | None \<Rightarrow> (Inr (length es), es @ [entry_new name help t labels]))"

text \<open>The instruments; the result is the entry that owns the instrument, or the exception.\<close>

definition reg_counter :: "string \<Rightarrow> string \<Rightarrow> Labels \<Rightarrow> Entry list \<Rightarrow> (reg_error + nat) \<times> Entry list" where
  "reg_counter name help labels es =
     (case findOrCreate name help kCounter labels es of
        (Inl err, es1) \<Rightarrow> (Inl err, es1)
      | (Inr i, es1) \<Rightarrow>
          (Inr i, if e_counter (es1 ! i) = None then es1[i := (es1 ! i)\<lparr>e_counter := Some Counter_new\<rparr>] else es1))"

definition reg_gauge :: "string \<Rightarrow> string \<Rightarrow> Labels \<Rightarrow> Entry list \<Rightarrow> (reg_error + nat) \<times> Entry list" where
  "reg_gauge name help labels es =
     (case findOrCreate name help kGauge labels es of
        (Inl err, es1) \<Rightarrow> (Inl err, es1)
      | (Inr i, es1) \<Rightarrow>
          (Inr i, if e_gauge (es1 ! i) = None then es1[i := (es1 ! i)\<lparr>e_gauge := Some Gauge_new\<rparr>] else es1))"

definition reg_histogram :: "string \<Rightarrow> string \<Rightarrow> real list \<Rightarrow> Labels \<Rightarrow> Entry list \<Rightarrow> (reg_error + nat) \<times> Entry list" where
  "reg_histogram name help buckets labels es =
     (case findOrCreate name help kHistogram labels es of
        (Inl err, es1) \<Rightarrow> (Inl err, es1)
      | (Inr i, es1) \<Rightarrow>
          if e_histogram (es1 ! i) = None
          then (case Histogram_new buckets of
                  None \<Rightarrow> (Inl InvalidArgument, es1)
                | Some h \<Rightarrow> (Inr i, es1[i := (es1 ! i)\<lparr>e_histogram := Some h\<rparr>]))
          else (Inr i, es1))"

definition registerSampled :: "string \<Rightarrow> string \<Rightarrow> mtype \<Rightarrow> nat option \<Rightarrow> Labels \<Rightarrow> Entry list \<Rightarrow> (reg_error + nat) \<times> Entry list" where
  "registerSampled name help t sample labels es =
     (if t = kHistogram then (Inl SampledHistogram, es)
      else case findOrCreate name help t labels es of
        (Inl err, es1) \<Rightarrow> (Inl err, es1)
      | (Inr i, es1) \<Rightarrow> (Inr i, es1[i := (es1 ! i)\<lparr>e_sample := sample\<rparr>]))"

record MetricPoint =
  p_name :: string
  p_help :: string
  p_type :: mtype
  p_labels :: Labels
  p_value :: real
  bucket_bounds :: "real list"
  bucket_counts_of :: "64 word list"
  hist_count :: "64 word"
  hist_sum :: real

record ScrapeFilter =
  name_prefix :: string
  include_histograms :: bool
  predicate :: "(MetricPoint \<Rightarrow> bool) option"

definition everything :: ScrapeFilter where
  "everything = \<lparr>name_prefix = [], include_histograms = True, predicate = None\<rparr>"

definition starts_with :: "string \<Rightarrow> string \<Rightarrow> bool" where
  "starts_with pre name = (length pre \<le> length name \<and> take (length pre) name = pre)"

definition matches :: "ScrapeFilter \<Rightarrow> MetricPoint \<Rightarrow> bool" where
  "matches f p =
     (if name_prefix f \<noteq> [] \<and> \<not> starts_with (name_prefix f) (p_name p) then False
      else if \<not> include_histograms f \<and> p_type p = kHistogram then False
      else case predicate f of None \<Rightarrow> True | Some P \<Rightarrow> P p)"

text \<open>
  The point of one entry. \<open>rnd\<close> is the conversion of an integer to a \<^verbatim>\<open>double\<close> and \<open>call\<close> the value a sampling callback returns;
  \<open>None\<close> is the dereference of a null instrument.
\<close>

definition point_of :: "(real \<Rightarrow> real) \<Rightarrow> (nat \<Rightarrow> real) \<Rightarrow> Entry \<Rightarrow> MetricPoint option" where
  "point_of rnd call e =
     (let p = \<lparr>p_name = e_name e, p_help = e_help e, p_type = e_type e, p_labels = e_labels e, p_value = 0,
               bucket_bounds = [], bucket_counts_of = [], hist_count = 0, hist_sum = 0\<rparr> in
      case e_sample e of
        Some k \<Rightarrow> Some (p\<lparr>p_value := call k\<rparr>)
      | None \<Rightarrow>
          (case e_type e of
             kCounter \<Rightarrow> map_option (\<lambda>c. p\<lparr>p_value := rnd (real (unat (c_value c)))\<rparr>) (e_counter e)
           | kGauge \<Rightarrow> map_option (\<lambda>g. p\<lparr>p_value := rnd (real_of_int (sint (g_value g)))\<rparr>) (e_gauge e)
           | kHistogram \<Rightarrow>
               map_option (\<lambda>h. let hs = hist_snapshot h in
                   p\<lparr>bucket_bounds := s_bounds hs, bucket_counts_of := s_counts hs, hist_count := s_count hs, hist_sum := s_sum hs\<rparr>)
                 (e_histogram e)))"

fun scrape :: "(real \<Rightarrow> real) \<Rightarrow> (nat \<Rightarrow> real) \<Rightarrow> ScrapeFilter \<Rightarrow> Entry list \<Rightarrow> MetricPoint list option" where
  "scrape rnd call f [] = Some []"
| "scrape rnd call f (e # es) =
     (if name_prefix f \<noteq> [] \<and> \<not> starts_with (name_prefix f) (e_name e) then scrape rnd call f es
      else if \<not> include_histograms f \<and> e_type e = kHistogram then scrape rnd call f es
      else case point_of rnd call e of
        None \<Rightarrow> None
      | Some p \<Rightarrow>
          if (case predicate f of None \<Rightarrow> False | Some P \<Rightarrow> \<not> P p) then scrape rnd call f es
          else map_option (\<lambda>snap. p # snap) (scrape rnd call f es))"

section \<open>The text exposition\<close>

definition label_text :: "string \<Rightarrow> string \<Rightarrow> string" where
  "label_text k v = k @ ''='' @ [DQ] @ v @ [DQ]"

fun join_labels :: "bool \<Rightarrow> Labels \<Rightarrow> string" where
  "join_labels first [] = []"
| "join_labels first (l # ls) = (if first then [] else '','') @ label_text (fst l) (snd l) @ join_labels False ls"

definition renderLabels :: "Labels \<Rightarrow> string \<Rightarrow> string \<Rightarrow> string" where
  "renderLabels labels extra_key extra_val =
     (if labels = [] \<and> extra_key = [] then []
      else ''{'' @ join_labels True labels @
        (if extra_key \<noteq> [] then (if labels \<noteq> [] then '','' else []) @ label_text extra_key extra_val else []) @ ''}'')"

text \<open>\<open>dbl\<close> prints a \<^verbatim>\<open>double\<close> to a stream.\<close>

definition bucket_line :: "(real \<Rightarrow> string) \<Rightarrow> MetricPoint \<Rightarrow> string \<Rightarrow> 64 word \<Rightarrow> string" where
  "bucket_line dbl p le n = p_name p @ ''_bucket'' @ renderLabels (p_labels p) ''le'' le @ '' '' @ to_string (unat n) @ [LF]"

definition point_text :: "(real \<Rightarrow> string) \<Rightarrow> MetricPoint \<Rightarrow> string" where
  "point_text dbl p =
     ''# HELP '' @ p_name p @ '' '' @ p_help p @ [LF] @
     ''# TYPE '' @ p_name p @ '' '' @ typeName (p_type p) @ [LF] @
     (if p_type p = kHistogram
      then concat (map (\<lambda>i. bucket_line dbl p (dbl (bucket_bounds p ! i)) (bucket_counts_of p ! i)) [0..<length (bucket_bounds p)]) @
        bucket_line dbl p ''+Inf'' (last (bucket_counts_of p)) @
        p_name p @ ''_sum'' @ renderLabels (p_labels p) [] [] @ '' '' @ dbl (hist_sum p) @ [LF] @
        p_name p @ ''_count'' @ renderLabels (p_labels p) [] [] @ '' '' @ to_string (unat (hist_count p)) @ [LF]
      else p_name p @ renderLabels (p_labels p) [] [] @ '' '' @ dbl (p_value p) @ [LF])"

definition prometheus :: "(real \<Rightarrow> string) \<Rightarrow> MetricPoint list \<Rightarrow> string" where
  "prometheus dbl snap = concat (map (point_text dbl) snap)"

section \<open>Properties of the registry\<close>

lemma sameLabels_eq [simp]: "sameLabels a b = (a = b)"
  by (induction a b rule: sameLabels.induct) (auto simp: prod_eq_iff)

text \<open>The instrument a caller asked for is known by its name and labels.\<close>

definition key_of :: "Entry \<Rightarrow> string \<times> Labels" where
  "key_of e = (e_name e, e_labels e)"

lemma find_entry_Some:
  "find_entry n l es = Some i \<Longrightarrow> i < length es \<and> e_name (es ! i) = n \<and> e_labels (es ! i) = l"
proof (induction es arbitrary: i)
  case (Cons e es)
  then show ?case by (auto split: if_splits)
qed simp

lemma find_entry_None: "find_entry n l es = None \<longleftrightarrow> (n, l) \<notin> key_of ` set es"
  by (induction es) (auto simp: key_of_def)

lemma find_entry_prefix: "find_entry n l es = Some i \<Longrightarrow> find_entry n l (es @ es') = Some i"
  by (induction es arbitrary: i) (auto split: if_splits)

lemma find_entry_new: "find_entry n l es = None \<Longrightarrow> find_entry n l (es @ [entry_new n h t l]) = Some (length es)"
  by (induction es) (auto simp: entry_new_def split: if_splits)

lemma find_entry_update:
  "key_of e = key_of (es ! i) \<Longrightarrow> find_entry n l (es[i := e]) = find_entry n l es"
proof (induction es arbitrary: i)
  case (Cons a es)
  then show ?case by (cases i) (auto simp: key_of_def)
qed simp

datatype reg_op =
    OpCounter string string Labels
  | OpGauge string string Labels
  | OpHistogram string string "real list" Labels
  | OpSampled string string mtype "nat option" Labels

fun reg_apply :: "reg_op \<Rightarrow> Entry list \<Rightarrow> (reg_error + nat) \<times> Entry list" where
  "reg_apply (OpCounter n h l) es = reg_counter n h l es"
| "reg_apply (OpGauge n h l) es = reg_gauge n h l es"
| "reg_apply (OpHistogram n h b l) es = reg_histogram n h b l es"
| "reg_apply (OpSampled n h t f l) es = registerSampled n h t f l es"

fun op_type :: "reg_op \<Rightarrow> mtype" where
  "op_type (OpCounter n h l) = kCounter"
| "op_type (OpGauge n h l) = kGauge"
| "op_type (OpHistogram n h b l) = kHistogram"
| "op_type (OpSampled n h t f l) = t"

fun op_key :: "reg_op \<Rightarrow> string \<times> Labels" where
  "op_key (OpCounter n h l) = (n, l)"
| "op_key (OpGauge n h l) = (n, l)"
| "op_key (OpHistogram n h b l) = (n, l)"
| "op_key (OpSampled n h t f l) = (n, l)"

definition reg_run :: "reg_op list \<Rightarrow> Entry list \<Rightarrow> Entry list" where
  "reg_run ops es = fold (\<lambda>q es. snd (reg_apply q es)) ops es"

text \<open>What no operation changes of an entry that is there: its key and its type.\<close>

definition keeps :: "Entry list \<Rightarrow> Entry list \<Rightarrow> bool" where
  "keeps es es' = (\<exists>new. map (\<lambda>e. (key_of e, e_type e)) es' = map (\<lambda>e. (key_of e, e_type e)) es @ new)"

lemma keeps_refl [simp]: "keeps es es"
  by (simp add: keeps_def)

lemma keeps_trans: "keeps a b \<Longrightarrow> keeps b c \<Longrightarrow> keeps a c"
  by (auto simp: keeps_def)

lemma keeps_update:
  assumes "keeps es es'" "key_of e = key_of (es' ! i)" "e_type e = e_type (es' ! i)"
  shows "keeps es (es'[i := e])"
proof -
  have "map (\<lambda>e. (key_of e, e_type e)) (es'[i := e]) = map (\<lambda>e. (key_of e, e_type e)) es'"
    using assms(2,3) by (cases "i < length es'") (simp_all add: map_update list_update_same_conv list_update_beyond)
  then show ?thesis using assms(1) by (simp only: keeps_def)
qed

text \<open>Every operation finds or creates its entry and then at most gives it an instrument.\<close>

definition op_shape :: "reg_op \<Rightarrow> Entry list \<Rightarrow> (reg_error + nat) \<Rightarrow> Entry list \<Rightarrow> bool" where
  "op_shape q es r es' =
     ((es' = es \<and> (\<exists>err. r = Inl err)) \<or>
      (\<exists>h i es1. findOrCreate (fst (op_key q)) h (op_type q) (snd (op_key q)) es = (Inr i, es1) \<and>
        (r = Inr i \<or> (\<exists>err. r = Inl err)) \<and>
        (\<exists>e. es' = es1[i := e] \<and> key_of e = key_of (es1 ! i) \<and> e_type e = e_type (es1 ! i))))"

lemma op_shapeI:
  "findOrCreate (fst (op_key q)) h (op_type q) (snd (op_key q)) es = (Inr i, es1) \<Longrightarrow> r = Inr i \<or> (\<exists>err. r = Inl err) \<Longrightarrow>
   es' = es1[i := e] \<Longrightarrow> key_of e = key_of (es1 ! i) \<Longrightarrow> e_type e = e_type (es1 ! i) \<Longrightarrow> op_shape q es r es'"
  unfolding op_shape_def by blast

lemma op_shape_same:
  "findOrCreate (fst (op_key q)) h (op_type q) (snd (op_key q)) es = (Inr i, es1) \<Longrightarrow> r = Inr i \<or> (\<exists>err. r = Inl err) \<Longrightarrow>
   op_shape q es r es1"
  by (rule op_shapeI [where e = "es1 ! i"]) auto

lemma op_shape_error: "op_shape q es (Inl err) es"
  by (simp add: op_shape_def)

lemma findOrCreate_error: "findOrCreate n h t l es = (Inl err, es1) \<Longrightarrow> es1 = es"
  by (auto simp: findOrCreate_def split: option.splits if_splits)

lemma reg_apply_shape:
  assumes "reg_apply q es = (r, es')"
  shows "op_shape q es r es'"
proof (cases "\<exists>n h t f l. q = OpSampled n h t f l \<and> t = kHistogram")
  case True
  then show ?thesis using assms by (auto simp: registerSampled_def op_shape_error)
next
  case False
  define h where "h = (case q of OpCounter n h l \<Rightarrow> h | OpGauge n h l \<Rightarrow> h | OpHistogram n h b l \<Rightarrow> h | OpSampled n h t f l \<Rightarrow> h)"
  obtain r1 es1 where f: "findOrCreate (fst (op_key q)) h (op_type q) (snd (op_key q)) es = (r1, es1)" by fastforce
  show ?thesis
  proof (cases r1)
    case (Inl err)
    then have "es1 = es" "(r, es') = (Inl err, es1)"
      using f findOrCreate_error assms False
      by (cases q; force simp: h_def reg_counter_def reg_gauge_def reg_histogram_def registerSampled_def)+
    then show ?thesis by (simp add: op_shape_error)
  next
    case (Inr i)
    note f' = f [unfolded Inr]
    have "(r = Inr i \<or> (\<exists>err. r = Inl err)) \<and>
      (es' = es1 \<or> (\<exists>c g hs sm. es' = es1[i := (es1 ! i)\<lparr>e_counter := c, e_gauge := g, e_histogram := hs, e_sample := sm\<rparr>]))"
      using f' assms False
      by (cases q; cases "es1 ! i") (auto simp: h_def reg_counter_def reg_gauge_def reg_histogram_def registerSampled_def
        split: if_splits option.splits)
    then show ?thesis using op_shape_same [OF f'] by (auto intro!: op_shapeI [OF f'] simp: key_of_def)
  qed
qed

lemma keeps_findOrCreate: "findOrCreate n h t l es = (r, es') \<Longrightarrow> keeps es es'"
  by (auto simp: findOrCreate_def keeps_def split: option.splits if_splits)

lemma keeps_apply: "keeps es (snd (reg_apply q es))"
proof -
  obtain r es' where r: "reg_apply q es = (r, es')" by fastforce
  from reg_apply_shape [OF r] have "keeps es es'" unfolding op_shape_def
  proof (elim disjE exE conjE)
    fix h i es1 e
    assume "findOrCreate (fst (op_key q)) h (op_type q) (snd (op_key q)) es = (Inr i, es1)"
      and e: "es' = es1[i := e]" "key_of e = key_of (es1 ! i)" "e_type e = e_type (es1 ! i)"
    then show "keeps es es'" using keeps_update [OF keeps_findOrCreate] by metis
  qed (simp_all add: keeps_update [OF keeps_findOrCreate])
  then show ?thesis by (simp add: r)
qed

lemma keeps_run: "keeps es (reg_run ops es)"
proof (induction ops arbitrary: es)
  case (Cons q ops)
  show ?case using keeps_trans [OF keeps_apply Cons.IH] by (simp add: reg_run_def)
qed (simp add: reg_run_def)

lemma keeps_find:
  assumes "keeps es es'" "find_entry n l es = Some i"
  shows "find_entry n l es' = Some i \<and> e_type (es' ! i) = e_type (es ! i)"
proof -
  obtain new where new: "map (\<lambda>e. (key_of e, e_type e)) es' = map (\<lambda>e. (key_of e, e_type e)) es @ new"
    using assms(1) by (auto simp: keeps_def)
  show ?thesis using new assms(2)
  proof (induction es arbitrary: es' i)
    case (Cons e es)
    then obtain e' es1 where es': "es' = e' # es1" "key_of e' = key_of e" "e_type e' = e_type e"
      "map (\<lambda>e. (key_of e, e_type e)) es1 = map (\<lambda>e. (key_of e, e_type e)) es @ new"
      by (cases es') auto
    show ?case
    proof (cases "e_name e = n \<and> e_labels e = l")
      case True
      then show ?thesis using Cons.prems(2) es' by (auto simp: key_of_def)
    next
      case False
      then obtain j where "find_entry n l es = Some j" "i = Suc j" using Cons.prems(2) by (auto split: if_splits)
      then show ?thesis using Cons.IH [OF es'(4)] False es' by (auto simp: key_of_def)
    qed
  qed simp
qed

lemma findOrCreate_found:
  "findOrCreate n h t l es = (Inr i, es') \<Longrightarrow> find_entry n l es' = Some i \<and> e_type (es' ! i) = t"
  using find_entry_new [of n l es h t] by (auto simp: findOrCreate_def entry_new_def split: option.splits if_splits)

lemma reg_apply_found:
  assumes "reg_apply q es = (Inr i, es')"
  shows "find_entry (fst (op_key q)) (snd (op_key q)) es' = Some i \<and> e_type (es' ! i) = op_type q"
proof -
  obtain h es1 e where f: "findOrCreate (fst (op_key q)) h (op_type q) (snd (op_key q)) es = (Inr i, es1)"
    and e: "es' = es1[i := e]" "key_of e = key_of (es1 ! i)" "e_type e = e_type (es1 ! i)"
    using reg_apply_shape [OF assms] by (auto simp: op_shape_def)
  show ?thesis using findOrCreate_found [OF f] find_entry_Some e find_entry_update [of e es1 i] by fastforce
qed

text \<open>
  Asking again for an instrument by its name and labels, after any further registrations, gives the same instrument when the
  type is the same, and fails without changing the registry when the type differs.
\<close>

theorem same_instrument:
  assumes "reg_apply q es = (Inr i, es1)" "op_key q' = op_key q"
  shows "(op_type q' = op_type q \<longrightarrow> fst (reg_apply q' (reg_run ops es1)) \<in> {Inr i, Inl InvalidArgument, Inl SampledHistogram}) \<and>
    (op_type q' \<noteq> op_type q \<longrightarrow>
      fst (reg_apply q' (reg_run ops es1)) \<in> {Inl DifferentType, Inl SampledHistogram} \<and> snd (reg_apply q' (reg_run ops es1)) = reg_run ops es1)"
proof -
  let ?es = "reg_run ops es1"
  have f: "find_entry (fst (op_key q')) (snd (op_key q')) ?es = Some i" "e_type (?es ! i) = op_type q"
    using keeps_find [OF keeps_run [of es1 ops]] reg_apply_found [OF assms(1)] assms(2) by auto
  then have foc: "findOrCreate (fst (op_key q')) h t (snd (op_key q')) ?es =
    (if t = op_type q then (Inr i, ?es) else (Inl DifferentType, ?es))" for h t
    by (simp add: findOrCreate_def)
  show ?thesis
  proof (cases q')
    case (OpCounter n h l)
    then show ?thesis using foc [of h kCounter] by (simp add: reg_counter_def)
  next
    case (OpGauge n h l)
    then show ?thesis using foc [of h kGauge] by (simp add: reg_gauge_def)
  next
    case (OpHistogram n h b l)
    then show ?thesis using foc [of h kHistogram] by (simp add: reg_histogram_def split: option.split)
  next
    case (OpSampled n h t f l)
    then show ?thesis using foc [of h t] by (cases "t = op_type q") (auto simp: registerSampled_def)
  qed
qed

theorem same_instrument_witness:
  "fst (reg_apply (OpCounter ''a'' ''again'' []) (reg_run [OpGauge ''b'' [] []] [(entry_new ''a'' ''first'' kCounter [])\<lparr>e_counter := Some Counter_new\<rparr>]))
     \<in> {Inr 0, Inl InvalidArgument, Inl SampledHistogram}"
proof -
  have r: "reg_apply (OpCounter ''a'' ''first'' []) [] = (Inr 0, [(entry_new ''a'' ''first'' kCounter [])\<lparr>e_counter := Some Counter_new\<rparr>])"
    by (simp add: reg_counter_def findOrCreate_def entry_new_def)
  from same_instrument [OF r, of "OpCounter ''a'' ''again'' []" "[OpGauge ''b'' [] []]"] show ?thesis by simp
qed

text \<open>Skipping an entry before its point is built is the same as filtering the points.\<close>

lemma point_of_key: "point_of rnd call e = Some p \<Longrightarrow> p_name p = e_name e \<and> p_type p = e_type e"
  by (auto simp: point_of_def Let_def split: option.splits mtype.splits)

lemma scrape_everything: "scrape rnd call everything es = those (map (point_of rnd call) es)"
  by (induction es) (auto simp: everything_def split: option.splits)

lemma scrape_filter:
  "those (map (point_of rnd call) es) = Some pts \<Longrightarrow> scrape rnd call f es = Some (filter (matches f) pts)"
proof (induction es arbitrary: pts)
  case (Cons e es)
  then obtain p ps where p: "point_of rnd call e = Some p" "those (map (point_of rnd call) es) = Some ps" "pts = p # ps"
    by (auto split: option.splits)
  then show ?case using Cons.IH [OF p(2)] point_of_key [OF p(1)] by (auto simp: matches_def split: option.split)
qed simp

text \<open>
  A filtered scrape, which skips excluded instruments before it reads them, returns the points of the full scrape that match the filter, in
  the same order.
\<close>

theorem scrape_is_filter:
  assumes "scrape rnd call everything es = Some pts"
  shows "scrape rnd call f es = Some (filter (matches f) pts)"
  using scrape_filter assms by (simp add: scrape_everything)

theorem scrape_is_filter_witness:
  "map_option (map p_name) (scrape id (\<lambda>_. 7) \<lparr>name_prefix = ''b'', include_histograms = False, predicate = Some (\<lambda>p. p_value p > 0)\<rparr>
     [(entry_new ''a'' [] kCounter [])\<lparr>e_counter := Some Counter_new\<rparr>, (entry_new ''bc'' [] kGauge [])\<lparr>e_sample := Some 3\<rparr>]) =
   Some [''bc'']"
proof -
  let ?es = "[(entry_new ''a'' [] kCounter [])\<lparr>e_counter := Some Counter_new\<rparr>, (entry_new ''bc'' [] kGauge [])\<lparr>e_sample := Some 3\<rparr>]"
  obtain pts where pts: "scrape id (\<lambda>_. 7) everything ?es = Some pts" "map (\<lambda>p. (p_name p, p_type p, p_value p)) pts = [(''a'', kCounter, 0), (''bc'', kGauge, 7)]"
    by (simp add: everything_def point_of_def entry_new_def Counter_new_def)
  obtain p1 p2 where "pts = [p1, p2]" "p_name p1 = ''a''" "p_name p2 = ''bc''" "p_type p2 = kGauge" "p_value p2 = 7"
    using pts(2) by (auto simp: map_eq_Cons_conv)
  then show ?thesis
    using scrape_is_filter [OF pts(1), of "\<lparr>name_prefix = ''b'', include_histograms = False, predicate = Some (\<lambda>p. p_value p > 0)\<rparr>"]
    by (simp add: matches_def starts_with_def del: scrape.simps)
qed

text \<open>
  A histogram with bounds that do not ascend: the constructor throws after the entry is in the registry, and the next scrape
  dereferences the null instrument.
\<close>

theorem bad_histogram_breaks_scrape:
  assumes "find_entry n l es = None" "Histogram_new b = None"
  shows "fst (reg_histogram n h b l es) = Inl InvalidArgument \<and> scrape rnd call everything (snd (reg_histogram n h b l es)) = None"
proof -
  have "point_of rnd call (entry_new n h kHistogram l) = None" by (simp add: point_of_def entry_new_def)
  then have "those (map (point_of rnd call) (es @ [entry_new n h kHistogram l])) = None"
    by (induction es) (auto split: option.splits)
  then show ?thesis using assms
    by (simp add: reg_histogram_def findOrCreate_def scrape_everything entry_new_def)
qed

text \<open>A sampling callback registered on an owned counter hides the counter: the scrape no longer shows its value.\<close>

theorem sampled_hides_counter:
  assumes "reg_counter n h l [] = (Inr i, es)" "registerSampled n h' kCounter (Some k) l es = (r, es')"
  shows "e_counter (es' ! i) \<noteq> None \<and> e_sample (es' ! i) = Some k \<and> map_option (map p_value) (scrape rnd call everything es') = Some [call k]"
  using assms by (auto simp: reg_counter_def registerSampled_def findOrCreate_def entry_new_def scrape_everything point_of_def)

text \<open>Label values are printed as they are: two label sets of one metric can be printed alike.\<close>

theorem labels_ambiguous:
  "renderLabels [(''a'', v @ [DQ] @ '','' @ ''b='' @ [DQ] @ w)] [] [] = renderLabels [(''a'', v), (''b'', w)] [] []"
  by (simp add: renderLabels_def label_text_def)

section \<open>Metrics of a server\<close>

text \<open>
  \<^verbatim>\<open>installServerMetrics\<close>: the registrations in the order of the code; an exception of one of them ends the installation. The
  result is the entries of the six instruments.
\<close>

fun reg_all :: "reg_op list \<Rightarrow> Entry list \<Rightarrow> (reg_error + nat list) \<times> Entry list" where
  "reg_all [] es = (Inr [], es)"
| "reg_all (q # qs) es =
     (case reg_apply q es of
        (Inl err, es1) \<Rightarrow> (Inl err, es1)
      | (Inr i, es1) \<Rightarrow>
          (case reg_all qs es1 of (Inl err, es2) \<Rightarrow> (Inl err, es2) | (Inr is, es2) \<Rightarrow> (Inr (i # is), es2)))"

definition server_instruments :: "reg_op list" where
  "server_instruments =
     [OpCounter ''cox_connections_accepted_total'' ''Total connections accepted by the server'' [],
      OpCounter ''cox_connections_closed_total'' ''Total connections closed'' [],
      OpGauge ''cox_connections_live'' ''Currently open connections'' [],
      OpCounter ''cox_connections_rejected_total'' ''Connections shed due to overload (cap or rate limit)'' [],
      OpCounter ''cox_connection_bytes_in_total'' ''Total application bytes received (summed on close)'' [],
      OpCounter ''cox_connection_bytes_out_total'' ''Total application bytes sent (summed on close)'' []]"

definition http_instruments :: "reg_op list" where
  "http_instruments =
     map (\<lambda>c. OpCounter ''cox_http_requests_total'' ''HTTP requests'' [(''status_class'', c)]) [''1xx'', ''2xx'', ''3xx'', ''4xx'', ''5xx''] @
     [OpHistogram ''cox_http_request_duration_seconds'' ''HTTP handler wall time'' defaultLatencyBuckets []]"

definition loop_instruments :: "nat \<Rightarrow> nat \<Rightarrow> Labels \<Rightarrow> reg_op list" where
  "loop_instruments iterations wait labels =
     [OpSampled ''cox_loop_iterations_total'' ''Event-loop iterations'' kCounter (Some iterations) labels,
      OpSampled ''cox_loop_poll_wait_seconds_total'' ''Cumulative time blocked in poll()'' kCounter (Some wait) labels]"

text \<open>
  The state the callbacks share: the instruments, the set of names of the open connections, and, in order, what was handed to the callbacks
  that were there before.
\<close>

record ServerMetrics =
  accepted :: Counter
  closed_total :: Counter
  live :: Gauge
  rejected :: Counter
  bytes_in :: Counter
  bytes_out :: Counter
  dedup :: "string set"

definition ServerMetrics_new :: ServerMetrics where
  "ServerMetrics_new = \<lparr>accepted = Counter_new, closed_total = Counter_new, live = Gauge_new, rejected = Counter_new,
     bytes_in = Counter_new, bytes_out = Counter_new, dedup = {}\<rparr>"

text \<open>
  The connection callback asks \<^verbatim>\<open>connected()\<close> twice, once under the lock and once after it; \<open>c1\<close> and \<open>c2\<close> are the answers.
\<close>

record conn_note =
  n_name :: string
  n_c1 :: bool
  n_c2 :: bool
  n_read :: "64 word"
  n_written :: "64 word"

definition dedup_note :: "conn_note \<Rightarrow> ServerMetrics \<Rightarrow> bool \<times> ServerMetrics" where
  "dedup_note c m =
     (if n_c1 c then (False, m\<lparr>dedup := insert (n_name c) (dedup m)\<rparr>)
      else (n_name c \<in> dedup m, m\<lparr>dedup := dedup m - {n_name c}\<rparr>))"

definition onConnection :: "conn_note \<Rightarrow> ServerMetrics \<Rightarrow> ServerMetrics" where
  "onConnection c m =
     (let (account_disconnect, m1) = dedup_note c m in
      if n_c2 c then m1\<lparr>accepted := c_inc 1 (accepted m1), live := g_inc 1 (live m1)\<rparr>
      else if account_disconnect
      then m1\<lparr>closed_total := c_inc 1 (closed_total m1), live := g_dec 1 (live m1),
              bytes_in := c_inc (n_read c) (bytes_in m1), bytes_out := c_inc (n_written c) (bytes_out m1)\<rparr>
      else m1)"

definition onOverload :: "ServerMetrics \<Rightarrow> ServerMetrics" where
  "onOverload m = m\<lparr>rejected := c_inc 1 (rejected m)\<rparr>"

datatype server_note = Note conn_note | Shed

fun on_note :: "server_note \<Rightarrow> ServerMetrics \<Rightarrow> ServerMetrics" where
  "on_note (Note c) m = onConnection c m"
| "on_note Shed m = onOverload m"

section \<open>Metrics of the HTTP server\<close>

definition statusClass :: "int \<Rightarrow> string" where
  "statusClass status =
     (if status \<ge> 500 then ''5xx'' else if status \<ge> 400 then ''4xx'' else if status \<ge> 300 then ''3xx''
      else if status \<ge> 200 then ''2xx'' else ''1xx'')"

record HttpMetrics =
  c1xx :: Counter
  c2xx :: Counter
  c3xx :: Counter
  c4xx :: Counter
  c5xx :: Counter
  dur :: Histogram

definition onRequest :: "(real \<Rightarrow> real) \<Rightarrow> int \<Rightarrow> real \<Rightarrow> HttpMetrics \<Rightarrow> HttpMetrics" where
  "onRequest rnd status secs m =
     (let k = hd (statusClass status);
          m1 = (if k = CHR ''2'' then m\<lparr>c2xx := c_inc 1 (c2xx m)\<rparr>
                else if k = CHR ''3'' then m\<lparr>c3xx := c_inc 1 (c3xx m)\<rparr>
                else if k = CHR ''4'' then m\<lparr>c4xx := c_inc 1 (c4xx m)\<rparr>
                else if k = CHR ''5'' then m\<lparr>c5xx := c_inc 1 (c5xx m)\<rparr>
                else m\<lparr>c1xx := c_inc 1 (c1xx m)\<rparr>)
      in m1\<lparr>dur := observe rnd secs (dur m1)\<rparr>)"

section \<open>Properties of the server's metrics\<close>

text \<open>
  A history of notes in which the two answers agree and a name is announced as connected only while it is not open; a disconnect may be
  reported any number of times. The reference reads off the history which connections are open and which notes close one.
\<close>

fun opens :: "server_note list \<Rightarrow> conn_note list" where
  "opens [] = []"
| "opens (Note c # ns) = (if n_c1 c then c # opens ns else opens ns)"
| "opens (Shed # ns) = opens ns"

fun closes :: "string set \<Rightarrow> server_note list \<Rightarrow> conn_note list" where
  "closes S [] = []"
| "closes S (Note c # ns) =
     (if n_c1 c then closes (insert (n_name c) S) ns
      else if n_name c \<in> S then c # closes (S - {n_name c}) ns else closes S ns)"
| "closes S (Shed # ns) = closes S ns"

fun still_open :: "string set \<Rightarrow> server_note list \<Rightarrow> string set" where
  "still_open S [] = S"
| "still_open S (Note c # ns) = still_open (if n_c1 c then insert (n_name c) S else S - {n_name c}) ns"
| "still_open S (Shed # ns) = still_open S ns"

fun coherent :: "string set \<Rightarrow> server_note list \<Rightarrow> bool" where
  "coherent S [] = True"
| "coherent S (Note c # ns) =
     (n_c1 c = n_c2 c \<and> (if n_c1 c then n_name c \<notin> S \<and> coherent (insert (n_name c) S) ns else coherent (S - {n_name c}) ns))"
| "coherent S (Shed # ns) = coherent S ns"

lemmas sm_ops = onConnection_def dedup_note_def onOverload_def c_inc_def g_inc_def g_dec_def

definition sm_run :: "server_note list \<Rightarrow> ServerMetrics \<Rightarrow> ServerMetrics" where
  "sm_run ns m = fold on_note ns m"

lemma sm_run_simps [simp]: "sm_run [] m = m" "sm_run (n # ns) m = sm_run ns (on_note n m)"
  by (simp_all add: sm_run_def)

lemma sm_run_dedup: "dedup (sm_run ns m) = still_open (dedup m) ns"
proof (induction ns arbitrary: m)
  case (Cons n ns)
  then show ?case by (cases n) (simp_all add: sm_ops Let_def split: prod.splits)
qed simp

lemma sm_run_counts:
  assumes "coherent (dedup m) ns" "finite (dedup m)" "g_value (live m) = of_nat (card (dedup m))"
  shows "c_value (accepted (sm_run ns m)) = c_value (accepted m) + of_nat (length (opens ns)) \<and>
    c_value (closed_total (sm_run ns m)) = c_value (closed_total m) + of_nat (length (closes (dedup m) ns)) \<and>
    c_value (rejected (sm_run ns m)) = c_value (rejected m) + of_nat (length (filter (\<lambda>n. n = Shed) ns)) \<and>
    c_value (bytes_in (sm_run ns m)) = c_value (bytes_in m) + sum_list (map n_read (closes (dedup m) ns)) \<and>
    c_value (bytes_out (sm_run ns m)) = c_value (bytes_out m) + sum_list (map n_written (closes (dedup m) ns)) \<and>
    finite (dedup (sm_run ns m)) \<and> g_value (live (sm_run ns m)) = of_nat (card (dedup (sm_run ns m)))"
  using assms
proof (induction ns arbitrary: m)
  case (Cons n ns)
  show ?case
  proof (cases n)
    case (Note c)
    show ?thesis
    proof (cases "n_c1 c")
      case True
      then show ?thesis using Note Cons.prems Cons.IH [of "onConnection c m"] by (simp add: sm_ops add.assoc)
    next
      case False
      show ?thesis
      proof (cases "n_name c \<in> dedup m")
        case True
        then have "card (dedup m) = Suc (card (dedup m - {n_name c}))" using Cons.prems(2) by (metis card_Suc_Diff1)
        then show ?thesis using True False Note Cons.prems Cons.IH [of "onConnection c m"] by (simp add: sm_ops add.assoc)
      next
        case False
        then have "dedup m - {n_name c} = dedup m" by simp
        then show ?thesis using False \<open>\<not> n_c1 c\<close> Note Cons.prems Cons.IH [of "onConnection c m"] by (simp add: sm_ops)
      qed
    qed
  next
    case Shed
    then show ?thesis using Cons.prems Cons.IH [of "onOverload m"] by (simp add: sm_ops add.assoc)
  qed
qed simp



text \<open>
  When another thread's \<^verbatim>\<open>shutdown\<close> falls between the two questions, the connection is recorded as open but not counted; its
  close then takes the live gauge below zero.
\<close>

theorem shutdown_between_questions:
  "g_value (live (sm_run
     [Note \<lparr>n_name = c, n_c1 = True, n_c2 = False, n_read = 0, n_written = 0\<rparr>,
      Note \<lparr>n_name = c, n_c1 = False, n_c2 = False, n_read = r, n_written = w\<rparr>] ServerMetrics_new)) = -1"
  by (simp add: sm_ops ServerMetrics_new_def Gauge_new_def)

text \<open>Each request is counted in one class, and observed once.\<close>

theorem request_counted_once:
  "let m' = onRequest rnd status secs m in
     c_value (c1xx m') + c_value (c2xx m') + c_value (c3xx m') + c_value (c4xx m') + c_value (c5xx m') =
       c_value (c1xx m) + c_value (c2xx m) + c_value (c3xx m) + c_value (c4xx m) + c_value (c5xx m) + 1 \<and>
     hcount (dur m') = hcount (dur m) + 1"
  by (simp add: onRequest_def statusClass_def c_inc_def observe_def add_bucket_def add_count_def add_sum_def Let_def)

text \<open>The installation on an empty registry succeeds, and a second one finds the same instruments.\<close>

lemma install_server_metrics:
  "fst (reg_all server_instruments []) = Inr [0, 1, 2, 3, 4, 5] \<and>
   reg_all server_instruments (snd (reg_all server_instruments [])) = reg_all server_instruments []"
  by (simp add: server_instruments_def reg_counter_def reg_gauge_def findOrCreate_def entry_new_def)

end
