(* ===== verification/Log_Format.thy ===== *)
theory Log_Format
  imports Cox_Prelude "HOL-Library.Word" "HOL-Library.Signed_Division"
begin

text \<open>
  Log records, their two formatters and the logger: \<^verbatim>\<open>logging/log_record.h\<close>, \<^verbatim>\<open>formatter.cc\<close>, \<^verbatim>\<open>default_formatter.cc\<close>,
  \<^verbatim>\<open>json_formatter.cc\<close>, \<^verbatim>\<open>logger.cc\<close> and the printing of a time stamp in \<^verbatim>\<open>timestamp.cc\<close>. Strings are bytes. The broken-down
  time of \<^verbatim>\<open>gmtime_r\<close> is a parameter. The theory shows that a JSON line is read back to the record's members
  and never holds a line break, and that the logger hands to its sink exactly the records of its level, in order.
\<close>

section \<open>Records\<close>

datatype LogLevel = Debug | Info | Warning | Error | Fatal

type_synonym LogFields = "(string \<times> string) list"

record LogRecord =
  level :: LogLevel
  timestamp :: "64 word"
  tid :: string
  message :: string
  r_fields :: LogFields

fun level_toString :: "LogLevel \<Rightarrow> string" where
  "level_toString Debug = ''DEBUG''"
| "level_toString Info = ''INFO''"
| "level_toString Warning = ''WARNING''"
| "level_toString Error = ''ERROR''"
| "level_toString Fatal = ''FATAL''"

text \<open>The underlying value of the enumeration.\<close>

fun level_int :: "LogLevel \<Rightarrow> int" where
  "level_int Debug = 0"
| "level_int Info = 1"
| "level_int Warning = 2"
| "level_int Error = 3"
| "level_int Fatal = 4"

section \<open>Time stamps as text\<close>

record tm =
  tm_year :: int
  tm_mon :: int
  tm_mday :: int
  tm_hour :: int
  tm_min :: int
  tm_sec :: int

text \<open>\<^verbatim>\<open>%0wd\<close> and \<^verbatim>\<open>%0wlu\<close>: the sign counts into the width.\<close>

definition zero_pad :: "nat \<Rightarrow> string \<Rightarrow> string" where
  "zero_pad w s = replicate (w - length s) CHR ''0'' @ s"

definition dec_pad :: "nat \<Rightarrow> int \<Rightarrow> string" where
  "dec_pad w i = (if i < 0 then CHR ''-'' # zero_pad (w - 1) (to_string (nat (- i))) else zero_pad w (to_string (nat i)))"

text \<open>The member is a signed \<^verbatim>\<open>long\<close>: division and remainder truncate towards zero. The buffer takes 63 characters.\<close>

definition ts_toString :: "(int \<Rightarrow> tm) \<Rightarrow> 64 word \<Rightarrow> string" where
  "ts_toString gmtime us =
     (let t = gmtime (sint us sdiv 1000000);
          micros = unat (word_of_int (sint us smod 1000000) :: 64 word)
      in take 63 (dec_pad 4 (tm_year t + 1900) @ ''-'' @ dec_pad 2 (tm_mon t + 1) @ ''-'' @ dec_pad 2 (tm_mday t) @ '' '' @
           dec_pad 2 (tm_hour t) @ '':'' @ dec_pad 2 (tm_min t) @ '':'' @ dec_pad 2 (tm_sec t) @ ''.'' @ zero_pad 6 (to_string micros)))"

section \<open>Formatters\<close>

definition default_format :: "(int \<Rightarrow> tm) \<Rightarrow> LogRecord \<Rightarrow> string" where
  "default_format gmtime r =
     ''['' @ tid r @ ''] '' @ ts_toString gmtime (timestamp r) @ '' '' @ level_toString (level r) @ '' '' @ message r @
     concat (map (\<lambda>(key, value). '' '' @ key @ ''='' @ value) (r_fields r))"

definition hex_lower :: "nat \<Rightarrow> char" where
  "hex_lower d = (if d < 10 then digit_char d else char_of (87 + d))"

definition escape_char :: "char \<Rightarrow> string" where
  "escape_char c =
     (if c = DQ then [BSL, DQ]
      else if c = BSL then [BSL, BSL]
      else if c = LF then BSL # ''n''
      else if c = CR then BSL # ''r''
      else if c = CHR 0x09 then BSL # ''t''
      else if c = CHR 0x08 then BSL # ''b''
      else if c = CHR 0x0C then BSL # ''f''
      else if (of_char c :: nat) < 0x20
      then BSL # ''u00'' @ [hex_lower (of_char c div 16), hex_lower (of_char c mod 16)]
      else [c])"

fun appendEscaped :: "string \<Rightarrow> string \<Rightarrow> string" where
  "appendEscaped out [] = out"
| "appendEscaped out (c # s) = appendEscaped (out @ escape_char c) s"

fun append_fields :: "string \<Rightarrow> LogFields \<Rightarrow> string" where
  "append_fields out [] = out"
| "append_fields out ((key, value) # fs) =
     append_fields (appendEscaped (appendEscaped (out @ '','' @ [DQ]) key @ [DQ] @ '':'' @ [DQ]) value @ [DQ]) fs"

definition json_format :: "(int \<Rightarrow> tm) \<Rightarrow> LogRecord \<Rightarrow> string" where
  "json_format gmtime r =
     (let o1 = appendEscaped (''{'' @ [DQ] @ ''ts'' @ [DQ] @ '':'' @ [DQ]) (ts_toString gmtime (timestamp r));
          o2 = o1 @ [DQ] @ '','' @ [DQ] @ ''level'' @ [DQ] @ '':'' @ [DQ];
          o3 = o2 @ level_toString (level r) @ [DQ] @ '','' @ [DQ] @ ''tid'' @ [DQ] @ '':'' @ [DQ];
          o4 = appendEscaped o3 (tid r) @ [DQ] @ '','' @ [DQ] @ ''msg'' @ [DQ] @ '':'' @ [DQ];
          o5 = appendEscaped o4 (message r) @ [DQ]
      in append_fields o5 (r_fields r) @ ''}'')"

section \<open>Reading a JSON line\<close>

text \<open>
  A reader of the JSON the formatter uses: an object whose members are strings, without white space. A \<^verbatim>\<open>\u\<close> escape is
  accepted for the code points that are one byte in UTF-8.
\<close>

fun unescape :: "char \<Rightarrow> char option" where
  "unescape c =
     (if c = DQ \<or> c = BSL \<or> c = CHR ''/'' then Some c
      else if c = CHR ''n'' then Some LF
      else if c = CHR ''r'' then Some CR
      else if c = CHR ''t'' then Some (CHR 0x09)
      else if c = CHR ''b'' then Some (CHR 0x08)
      else if c = CHR ''f'' then Some (CHR 0x0C)
      else None)"

definition hex_code :: "char \<Rightarrow> char \<Rightarrow> char \<Rightarrow> char \<Rightarrow> char option" where
  "hex_code a b c d =
     (case (digit_value 16 a, digit_value 16 b, digit_value 16 c, digit_value 16 d) of
        (Some a, Some b, Some c, Some d) \<Rightarrow>
          let n = ((a * 16 + b) * 16 + c) * 16 + d in if n < 128 then Some (char_of n) else None
      | _ \<Rightarrow> None)"

fun json_string :: "string \<Rightarrow> (string \<times> string) option" where
  "json_string [] = None"
| "json_string (c # s) =
     (if c = DQ then Some ([], s)
      else if c = BSL then
        (case s of
           [] \<Rightarrow> None
         | e # s1 \<Rightarrow>
             if e = CHR ''u''
             then (case s1 of
                     h1 # h2 # h3 # h4 # s2 \<Rightarrow>
                       (case hex_code h1 h2 h3 h4 of
                          None \<Rightarrow> None
                        | Some x \<Rightarrow> map_option (\<lambda>(v, rest). (x # v, rest)) (json_string s2))
                   | _ \<Rightarrow> None)
             else (case unescape e of
                     None \<Rightarrow> None
                   | Some x \<Rightarrow> map_option (\<lambda>(v, rest). (x # v, rest)) (json_string s1)))
      else if (of_char c :: nat) < 0x20 then None
      else map_option (\<lambda>(v, rest). (c # v, rest)) (json_string s))"

definition json_member :: "string \<Rightarrow> ((string \<times> string) \<times> string) option" where
  "json_member s =
     (case s of
        [] \<Rightarrow> None
      | q # s1 \<Rightarrow>
          if q \<noteq> DQ then None
          else case json_string s1 of
            Some (k, c # q2 # s2) \<Rightarrow>
              if c = CHR '':'' \<and> q2 = DQ then map_option (\<lambda>(v, rest). ((k, v), rest)) (json_string s2) else None
          | _ \<Rightarrow> None)"

text \<open>The members up to the closing brace; each member but the first follows a comma.\<close>

fun json_members :: "nat \<Rightarrow> string \<Rightarrow> LogFields option" where
  "json_members 0 s = None"
| "json_members (Suc n) s =
     (if s = ''}'' then Some []
      else case s of
        c # s1 \<Rightarrow>
          if c \<noteq> CHR '','' then None
          else (case json_member s1 of
                  None \<Rightarrow> None
                | Some (m, rest) \<Rightarrow> map_option (\<lambda>ms. m # ms) (json_members n rest))
      | [] \<Rightarrow> None)"

definition json_object :: "string \<Rightarrow> LogFields option" where
  "json_object s =
     (case s of
        c # s1 \<Rightarrow> if c = CHR ''{'' then (if s1 = ''}'' then Some [] else json_members (length s) ('','' @ s1)) else None
      | [] \<Rightarrow> None)"

section \<open>Round trip\<close>

lemma appendEscaped_eq: "appendEscaped out s = out @ concat (map escape_char s)"
  by (induction out s rule: appendEscaped.induct) simp_all

definition member_text :: "string \<times> string \<Rightarrow> string" where
  "member_text m = [DQ] @ concat (map escape_char (fst m)) @ [DQ] @ '':'' @ [DQ] @ concat (map escape_char (snd m)) @ [DQ]"

lemma append_fields_eq: "append_fields out fs = out @ concat (map (\<lambda>m. '','' @ member_text m) fs)"
  by (induction out fs rule: append_fields.induct) (simp_all add: appendEscaped_eq member_text_def)

text \<open>The literal keys and the level names need no escaping.\<close>

lemma escape_letters:
  "escape_char (CHR ''t'') = ''t''" "escape_char (CHR ''s'') = ''s''" "escape_char (CHR ''l'') = ''l''" "escape_char (CHR ''e'') = ''e''"
  "escape_char (CHR ''v'') = ''v''" "escape_char (CHR ''i'') = ''i''" "escape_char (CHR ''d'') = ''d''" "escape_char (CHR ''m'') = ''m''"
  "escape_char (CHR ''g'') = ''g''"
  by (simp_all add: escape_char_def)

lemma escape_level: "concat (map escape_char (level_toString l)) = level_toString l"
  by (cases l) (simp_all add: escape_char_def)

definition record_members :: "(int \<Rightarrow> tm) \<Rightarrow> LogRecord \<Rightarrow> LogFields" where
  "record_members gmtime r =
     [(''ts'', ts_toString gmtime (timestamp r)), (''level'', level_toString (level r)), (''tid'', tid r), (''msg'', message r)] @ r_fields r"

lemma json_format_eq:
  "json_format gmtime r = ''{'' @ tl (concat (map (\<lambda>m. '','' @ member_text m) (record_members gmtime r))) @ ''}''"
  by (simp add: json_format_def Let_def appendEscaped_eq append_fields_eq record_members_def member_text_def escape_letters escape_level)

lemma control_code:
  assumes "(of_char c :: nat) < 0x20"
  shows "hex_code (CHR ''0'') (CHR ''0'') (hex_lower (of_char c div 16)) (hex_lower (of_char c mod 16)) = Some c"
proof -
  let ?n = "of_char c :: nat"
  have "digit_value 16 (hex_lower d) = Some d" if "d < 16" for d
    using that by (auto simp: hex_lower_def digit_value_def digit_char_def)
  moreover have "digit_value 16 (CHR ''0'') = Some 0" by (simp add: digit_value_def)
  ultimately show ?thesis using assms by (simp add: hex_code_def)
qed

lemma json_string_char: "json_string (escape_char c @ s) = map_option (\<lambda>(v, rest). (c # v, rest)) (json_string s)"
  using control_code [of c] by (auto simp: escape_char_def)

lemma json_string_escaped: "json_string (concat (map escape_char v) @ DQ # s) = Some (v, s)"
proof (induction v)
  case (Cons c v)
  then show ?case by (simp add: json_string_char del: json_string.simps)
qed simp

lemma json_member_text: "json_member (member_text m @ s) = Some (m, s)"
  using json_string_escaped [of "fst m" "CHR '':'' # DQ # concat (map escape_char (snd m)) @ DQ # s"] json_string_escaped [of "snd m" s]
  by (simp add: json_member_def member_text_def del: json_string.simps)

lemma json_members_text:
  "length ms < n \<Longrightarrow> json_members n (concat (map (\<lambda>m. '','' @ member_text m) ms) @ ''}'') = Some ms"
proof (induction ms arbitrary: n)
  case Nil
  then show ?case by (cases n) simp_all
next
  case (Cons m ms)
  then obtain k where "n = Suc k" by (cases n) auto
  then show ?case using Cons json_member_text [of m "concat (map (\<lambda>m. '','' @ member_text m) ms) @ ''}''"] by simp
qed

text \<open>
  C32: a line of the JSON formatter, read as a JSON object, gives the members of the record: time, level, thread, message and the fields in
  order, whatever bytes they hold.
\<close>

theorem json_roundtrip: "json_object (json_format gmtime r) = Some (record_members gmtime r)"
proof -
  let ?t = "\<lambda>ms. concat (map (\<lambda>m. '','' @ member_text m) ms)"
  let ?ms = "record_members gmtime r"
  have le: "length ms \<le> length (?t ms)" for ms by (induction ms) auto
  obtain x where x: "?t ?ms = CHR '','' # x" "x \<noteq> []"
    by (simp add: record_members_def member_text_def)
  then have f: "json_format gmtime r = CHR ''{'' # x @ ''}''" by (simp add: json_format_eq)
  have n: "length ?ms < length (json_format gmtime r)" using le [of ?ms] unfolding x(1) f by simp
  have "json_object (json_format gmtime r) = json_members (length (json_format gmtime r)) (?t ?ms @ ''}'')"
    using x by (simp add: f json_object_def del: json_members.simps)
  then show ?thesis using json_members_text [OF n] by simp
qed

text \<open>A JSON line is one line: it holds no control character, so no line break.\<close>

lemma escape_char_printable: "c' \<in> set (escape_char c) \<Longrightarrow> (of_char c' :: nat) \<ge> 0x20"
  by (auto simp: escape_char_def hex_lower_def digit_char_def split: if_splits)

theorem json_one_line: "c \<in> set (json_format gmtime r) \<Longrightarrow> (of_char c :: nat) \<ge> 0x20"
proof -
  have m: "c \<in> set (member_text m) \<Longrightarrow> (of_char c :: nat) \<ge> 0x20" for m c
    using escape_char_printable by (auto simp: member_text_def)
  have tl: "set (tl xs) \<subseteq> set xs" for xs :: string by (cases xs) auto
  assume "c \<in> set (json_format gmtime r)"
  then have "c \<in> set ''{}'' \<or> c \<in> set (concat (map (\<lambda>m. '','' @ member_text m) (record_members gmtime r)))"
    using tl unfolding json_format_eq by fastforce
  then show ?thesis by (auto dest: m split: if_splits)
qed

text \<open>
  The default formatter copies the message: a message with a line break prints the same text as two records would, although a
  formatter is to produce a single line.
\<close>

theorem default_format_forged:
  "default_format gmtime (r1\<lparr>message := message r1 @ [LF] @ default_format gmtime r2, r_fields := []\<rparr>) @ [LF] =
   default_format gmtime (r1\<lparr>r_fields := []\<rparr>) @ [LF] @ default_format gmtime r2 @ [LF]"
  by (simp add: default_format_def)

section \<open>The logger\<close>

text \<open>
  A logger holds its level, the level from which it flushes, and the thread identification of the thread that constructed it. Its sink is any
  type of state with an operation for a line and one to flush; the formatter is a function.
\<close>

record Logger =
  min_level :: LogLevel
  flush_level :: LogLevel
  pid :: string

definition Logger_new :: "LogLevel \<Rightarrow> string \<Rightarrow> Logger" where
  "Logger_new l t = \<lparr>min_level = l, flush_level = Fatal, pid = t\<rparr>"

definition setLevel :: "LogLevel \<Rightarrow> Logger \<Rightarrow> Logger" where
  "setLevel l g = g\<lparr>min_level := l\<rparr>"

definition setFlushLevel :: "LogLevel \<Rightarrow> Logger \<Rightarrow> Logger" where
  "setFlushLevel l g = g\<lparr>flush_level := l\<rparr>"

definition log :: "(LogRecord \<Rightarrow> string) \<Rightarrow> (string \<Rightarrow> 's \<Rightarrow> 's) \<Rightarrow> ('s \<Rightarrow> 's) \<Rightarrow> Logger \<Rightarrow> 64 word \<Rightarrow> LogLevel \<Rightarrow> string \<Rightarrow> LogFields \<Rightarrow> 's \<Rightarrow> 's" where
  "log format put flush g now l msg fs sink =
     (if level_int l < level_int (min_level g) then sink
      else let record = \<lparr>level = l, timestamp = now, tid = pid g, message = msg, r_fields = fs\<rparr>;
               sink1 = put (format record) sink
           in if level_int l \<ge> level_int (flush_level g) then flush sink1 else sink1)"

text \<open>The macro \<^verbatim>\<open>COX_LOG_EMIT\<close>: the level is asked before the message is built, and the function's name goes in front.\<close>

definition COX_LOG_EMIT :: "(LogRecord \<Rightarrow> string) \<Rightarrow> (string \<Rightarrow> 's \<Rightarrow> 's) \<Rightarrow> ('s \<Rightarrow> 's) \<Rightarrow> Logger \<Rightarrow> 64 word \<Rightarrow> LogLevel \<Rightarrow> string \<Rightarrow> string \<Rightarrow> LogFields \<Rightarrow> 's \<Rightarrow> 's" where
  "COX_LOG_EMIT format put flush g now l func msg fs sink =
     (if level_int (min_level g) \<le> level_int l then log format put flush g now l (func @ '': '' @ msg) fs sink else sink)"

lemma log_macro_same:
  "COX_LOG_EMIT format put flush g now l func msg fs sink = log format put flush g now l (func @ '': '' @ msg) fs sink"
  by (simp add: COX_LOG_EMIT_def log_def)

text \<open>A run of the logger: the entries are time, level, message and fields.\<close>

definition log_run :: "(LogRecord \<Rightarrow> string) \<Rightarrow> (string \<Rightarrow> 's \<Rightarrow> 's) \<Rightarrow> ('s \<Rightarrow> 's) \<Rightarrow> Logger \<Rightarrow> (64 word \<times> LogLevel \<times> string \<times> LogFields) list \<Rightarrow> 's \<Rightarrow> 's" where
  "log_run format put flush g es s = fold (\<lambda>(now, l, msg, fs). log format put flush g now l msg fs) es s"

definition shown :: "(LogRecord \<Rightarrow> string) \<Rightarrow> Logger \<Rightarrow> (64 word \<times> LogLevel \<times> string \<times> LogFields) list \<Rightarrow> string list" where
  "shown format g es =
     map (\<lambda>(now, l, msg, fs). format \<lparr>level = l, timestamp = now, tid = pid g, message = msg, r_fields = fs\<rparr>)
       (filter (\<lambda>(now, l, msg, fs). level_int l \<ge> level_int (min_level g)) es)"

text \<open>
  A sink as its clients see it: \<open>text\<close> is what has been handed to the destination, \<open>usable\<close> that the destination could be opened. A line goes behind
  what is there, with its terminator, and flushing writes nothing.
\<close>

locale line_sink =
  fixes put :: "string \<Rightarrow> 's \<Rightarrow> 's"
    and flush :: "'s \<Rightarrow> 's"
    and sink_text :: "'s \<Rightarrow> string"
    and usable :: "'s \<Rightarrow> bool"
  assumes put_text: "usable s \<Longrightarrow> sink_text (put l s) = sink_text s @ l @ [LF]"
    and flush_text: "usable s \<Longrightarrow> sink_text (flush s) = sink_text s"
    and put_usable: "usable s \<Longrightarrow> usable (put l s)"
    and flush_usable: "usable s \<Longrightarrow> usable (flush s)"
begin

lemma log_run_text:
  "usable s \<Longrightarrow> sink_text (log_run format put flush g es s) = sink_text s @ concat (map (\<lambda>l. l @ [LF]) (shown format g es)) \<and> usable (log_run format put flush g es s)"
proof (induction es arbitrary: s)
  case (Cons e es)
  obtain now l msg fs where e: "e = (now, l, msg, fs)" by (cases e)
  let ?s = "log format put flush g now l msg fs s"
  have "usable ?s" using Cons.prems by (simp add: log_def Let_def put_usable flush_usable)
  moreover have "sink_text ?s = sink_text s @ (if level_int l < level_int (min_level g) then []
      else format \<lparr>level = l, timestamp = now, tid = pid g, message = msg, r_fields = fs\<rparr> @ [LF])"
    using Cons.prems by (simp add: log_def Let_def put_text flush_text put_usable)
  ultimately show ?case using Cons.IH [of ?s] by (simp add: e log_run_def shown_def)
qed (simp add: log_run_def shown_def)

end

end
