(* ===== verification/Log_Sink.thy ===== *)
theory Log_Sink
  imports Log_Format "HOL-Library.Sublist"
begin

text \<open>
  The synchronous destinations of log lines, \<^verbatim>\<open>logging/sink.cc\<close>: standard output, a plain file, a file that rotates, the fan-out to
  several sinks, and the sink that collects lines in memory. A file system is a map from paths to contents; whether a call of the C
  library succeeds is a parameter. A call locks the sink's mutex for its whole length, so it is one step. Buffered data
  counts as written: every stream is flushed before its file is closed or renamed. The theory shows that the plain
  sinks keep the contract of a sink, that rotation is a shift of whole files which loses only
  the oldest, and the bound it gives for the disk.
\<close>

section \<open>Standard output, a file, and memory\<close>

type_synonym file_system = "string \<rightharpoonup> string"

definition StdoutSink_append :: "string \<Rightarrow> string \<Rightarrow> string" where
  "StdoutSink_append line out = out @ line @ [LF]"

definition StdoutSink_flush :: "string \<Rightarrow> string" where
  "StdoutSink_flush out = out"

text \<open>The stream of a file sink: \<open>None\<close> after a failed open, otherwise the contents of the file.\<close>

type_synonym FileSink = "string option"

definition FileSink_new :: "bool \<Rightarrow> string \<Rightarrow> bool \<Rightarrow> file_system \<Rightarrow> FileSink" where
  "FileSink_new open_ok path append_mode fs =
     (if \<not> open_ok then None
      else if append_mode then Some (case fs path of None \<Rightarrow> [] | Some s \<Rightarrow> s) else Some [])"

definition FileSink_append :: "string \<Rightarrow> FileSink \<Rightarrow> FileSink" where
  "FileSink_append line fp = (case fp of None \<Rightarrow> None | Some s \<Rightarrow> Some (s @ line @ [LF]))"

definition FileSink_flush :: "FileSink \<Rightarrow> FileSink" where
  "FileSink_flush fp = fp"

record MemorySink =
  m_lines :: "string list"
  m_flush_count :: nat

definition MemorySink_append :: "string \<Rightarrow> MemorySink \<Rightarrow> MemorySink" where
  "MemorySink_append line m = m\<lparr>m_lines := m_lines m @ [line]\<rparr>"

definition MemorySink_flush :: "MemorySink \<Rightarrow> MemorySink" where
  "MemorySink_flush m = m\<lparr>m_flush_count := m_flush_count m + 1\<rparr>"

fun join_nl :: "string \<Rightarrow> string list \<Rightarrow> string" where
  "join_nl out [] = out"
| "join_nl out (l # ls) = join_nl ((if out \<noteq> [] then out @ [LF] else out) @ l) ls"

definition MemorySink_text :: "MemorySink \<Rightarrow> string" where
  "MemorySink_text m = join_nl [] (m_lines m)"

definition MemorySink_clear :: "MemorySink \<Rightarrow> MemorySink" where
  "MemorySink_clear m = m\<lparr>m_lines := [], m_flush_count := 0\<rparr>"

text \<open>The fan-out: each sink of the list in turn.\<close>

definition MultiSink_append :: "(string \<Rightarrow> 's \<Rightarrow> 's) \<Rightarrow> string \<Rightarrow> 's list \<Rightarrow> 's list" where
  "MultiSink_append put line sinks = map (put line) sinks"

definition MultiSink_flush :: "('s \<Rightarrow> 's) \<Rightarrow> 's list \<Rightarrow> 's list" where
  "MultiSink_flush flush sinks = map flush sinks"

definition lines_text :: "string list \<Rightarrow> string" where
  "lines_text ls = concat (map (\<lambda>l. l @ [LF]) ls)"

interpretation osink: line_sink StdoutSink_append StdoutSink_flush "\<lambda>s. s" "\<lambda>_. True"
  by unfold_locales (simp_all add: StdoutSink_append_def StdoutSink_flush_def)

interpretation fsink: line_sink FileSink_append FileSink_flush the "\<lambda>fp. fp \<noteq> None"
  by unfold_locales (auto simp: FileSink_append_def FileSink_flush_def split: option.splits)

interpretation msink: line_sink MemorySink_append MemorySink_flush "\<lambda>m. lines_text (m_lines m)" "\<lambda>_. True"
  by unfold_locales (simp_all add: MemorySink_append_def MemorySink_flush_def lines_text_def)

text \<open>A fan-out hands every line to every sink, whatever happened to the others.\<close>

context line_sink
begin

lemma fan_out:
  "\<forall>s \<in> set sinks. usable s \<Longrightarrow>
   map sink_text (MultiSink_flush flush (MultiSink_append put line sinks)) = map (\<lambda>s. sink_text s @ line @ [LF]) sinks"
  by (simp add: MultiSink_flush_def MultiSink_append_def put_text flush_text put_usable)

end

text \<open>
  The text in the log file is what was there before, followed by the formatted records of at least the logger's level, in the order
  logged, one line each.
\<close>

theorem log_file_text:
  assumes "fp \<noteq> None"
  shows "the (log_run format FileSink_append FileSink_flush g es fp) = the fp @ lines_text (shown format g es)"
  using fsink.log_run_text [OF assms] by (simp add: lines_text_def)

theorem log_file_text_witness:
  "the (log_run message FileSink_append FileSink_flush (Logger_new Info ''7'') [(0, Debug, ''a'', []), (1, Fatal, ''b'', [])] (Some [])) = ''b'' @ [LF]"
  using log_file_text [of "Some []" message "Logger_new Info ''7''" "[(0, Debug, ''a'', []), (1, Fatal, ''b'', [])]"]
  by (simp add: shown_def lines_text_def Logger_new_def)

text \<open>A sink that could not be opened drops every line.\<close>

lemma closed_file_drops: "log_run format FileSink_append FileSink_flush g es None = None"
proof (induction es)
  case (Cons e es)
  have "log format FileSink_append FileSink_flush g now l msg fs None = None" for now l msg fs
    by (simp add: log_def Let_def FileSink_append_def FileSink_flush_def)
  then show ?case using Cons by (cases e) (simp add: log_run_def)
qed (simp add: log_run_def)

text \<open>Every record of a logger carries the identification of the thread that made the logger, whichever thread logs.\<close>

theorem logger_thread_of_constructor:
  "m_lines (log tid MemorySink_append MemorySink_flush (Logger_new Debug t) now l msg fs m) = m_lines m @ [t]"
  by (cases l) (simp_all add: log_def Let_def Logger_new_def MemorySink_append_def MemorySink_flush_def)

section \<open>The rotating file\<close>

record RotatingFileSink =
  path :: string
  max_bytes :: nat
  max_files :: nat
  is_open :: bool
  written :: nat

text \<open>Which calls of the C library succeed during one operation; \<open>rename_ok i\<close> is the call that moves a file to number \<open>i\<close>.\<close>

record io =
  open_ok :: bool
  trunc_ok :: bool
  remove_ok :: bool
  rename_ok :: "nat \<Rightarrow> bool"

definition rolled :: "string \<Rightarrow> nat \<Rightarrow> string" where
  "rolled base n = base @ ''.'' @ to_string n"

definition fs_rename :: "bool \<Rightarrow> string \<Rightarrow> string \<Rightarrow> file_system \<Rightarrow> file_system" where
  "fs_rename ok a b fs = (if ok \<and> fs a \<noteq> None then (fs(b := fs a))(a := None) else fs)"

definition fs_remove :: "bool \<Rightarrow> string \<Rightarrow> file_system \<Rightarrow> file_system" where
  "fs_remove ok a fs = (if ok then fs(a := None) else fs)"

text \<open>\<^verbatim>\<open>open\<close>: in append mode the file is created if it is missing, and the bytes in it are counted.\<close>

definition rf_open :: "bool \<Rightarrow> RotatingFileSink \<times> file_system \<Rightarrow> RotatingFileSink \<times> file_system" where
  "rf_open ok = (\<lambda>(s, fs).
     if \<not> ok then (s\<lparr>is_open := False, written := 0\<rparr>, fs)
     else case fs (path s) of
       None \<Rightarrow> (s\<lparr>is_open := True, written := 0\<rparr>, fs(path s \<mapsto> []))
     | Some c \<Rightarrow> (s\<lparr>is_open := True, written := length c\<rparr>, fs))"

definition RotatingFileSink_new :: "bool \<Rightarrow> string \<Rightarrow> nat \<Rightarrow> nat \<Rightarrow> file_system \<Rightarrow> RotatingFileSink \<times> file_system" where
  "RotatingFileSink_new ok p mb mf fs =
     rf_open ok (\<lparr>path = p, max_bytes = (if mb = 0 then 1 else mb), max_files = mf, is_open = False, written = 0\<rparr>, fs)"

definition rf_close :: "RotatingFileSink \<Rightarrow> RotatingFileSink" where
  "rf_close s = s\<lparr>is_open := False\<rparr>"

text \<open>The loop of \<^verbatim>\<open>rotate\<close>, from \<open>i\<close> down to 2.\<close>

fun shift_files :: "io \<Rightarrow> string \<Rightarrow> nat \<Rightarrow> file_system \<Rightarrow> file_system" where
  "shift_files k p (Suc (Suc i)) fs = shift_files k p (Suc i) (fs_rename (rename_ok k (Suc (Suc i))) (rolled p (Suc i)) (rolled p (Suc (Suc i))) fs)"
| "shift_files k p _ fs = fs"

definition rf_rotate :: "io \<Rightarrow> RotatingFileSink \<times> file_system \<Rightarrow> RotatingFileSink \<times> file_system" where
  "rf_rotate k = (\<lambda>(s, fs).
     let s1 = rf_close s in
     if max_files s1 = 0
     then rf_open (open_ok k) (s1, if trunc_ok k then fs(path s1 \<mapsto> []) else fs)
     else let fs1 = fs_remove (remove_ok k) (rolled (path s1) (max_files s1)) fs;
              fs2 = shift_files k (path s1) (max_files s1) fs1;
              fs3 = fs_rename (rename_ok k 1) (path s1) (rolled (path s1) 1) fs2
          in rf_open (open_ok k) (s1, fs3))"

text \<open>\<^verbatim>\<open>append\<close>; \<open>None\<close> is a write to a null stream.\<close>

definition rf_append :: "io \<Rightarrow> string \<Rightarrow> RotatingFileSink \<times> file_system \<Rightarrow> (RotatingFileSink \<times> file_system) option" where
  "rf_append k line st =
     (if \<not> is_open (fst st) then Some st
      else let st1 = (if written (fst st) + length line + 1 > max_bytes (fst st) \<and> written (fst st) > 0 then rf_rotate k st else st) in
        if \<not> is_open (fst st1) then None
        else let (s1, fs1) = st1 in
          Some (s1\<lparr>written := written s1 + (length line + 1)\<rparr>,
                fs1(path s1 \<mapsto> (case fs1 (path s1) of None \<Rightarrow> [] | Some c \<Rightarrow> c) @ line @ [LF])))"

section \<open>Properties of the rotating file\<close>

definition all_ok :: io where
  "all_ok = \<lparr>open_ok = True, trunc_ok = True, remove_ok = True, rename_ok = (\<lambda>_. True)\<rparr>"

lemma rolled_inject [simp]: "rolled p i = rolled p j \<longleftrightarrow> i = j"
proof
  assume "rolled p i = rolled p j"
  then have "to_string i = to_string j" by (simp add: rolled_def)
  then show "i = j" using read_digits_to_string by metis
qed simp

lemma rolled_base [simp]: "rolled p i \<noteq> p" "p \<noteq> rolled p i"
  by (simp_all add: rolled_def)

text \<open>The loop moves every rolled file up by one.\<close>

lemma shift_files_step:
  "shift_files all_ok p (Suc (Suc i)) fs = shift_files all_ok p (Suc i) (fs_rename True (rolled p (Suc i)) (rolled p (Suc (Suc i))) fs)"
  by (simp add: all_ok_def)

lemma fs_rename_gone: "a \<noteq> b \<Longrightarrow> fs_rename True a b fs a = None"
  by (simp add: fs_rename_def)

lemma shift_files_rolled:
  "fs (rolled p (Suc n)) = None \<Longrightarrow> shift_files all_ok p (Suc n) fs (rolled p j) =
     (if j = 1 then None else if 2 \<le> j \<and> j \<le> Suc n then fs (rolled p (j - 1)) else fs (rolled p j))"
proof (induction n arbitrary: fs)
  case (Suc n)
  show ?case
    unfolding shift_files_step using Suc.IH [of "fs_rename True (rolled p (Suc n)) (rolled p (Suc (Suc n))) fs"] Suc.prems
    by (auto simp: fs_rename_def le_Suc_eq)
qed auto

lemma shift_files_other:
  "fs (rolled p (Suc n)) = None \<Longrightarrow> (\<And>i. q \<noteq> rolled p i) \<Longrightarrow> shift_files all_ok p (Suc n) fs q = fs q"
proof (induction n arbitrary: fs)
  case (Suc n)
  show ?case
    unfolding shift_files_step using Suc.IH [of "fs_rename True (rolled p (Suc n)) (rolled p (Suc (Suc n))) fs"] Suc.prems
    by (auto simp: fs_rename_def)
qed simp

lemma rotate_files:
  assumes "rf_rotate all_ok (s, fs) = (s', fs')" "fs (path s) \<noteq> None"
  shows "s' = s\<lparr>is_open := True, written := 0\<rparr>" "fs' (path s) = Some []"
    and "1 \<le> j \<Longrightarrow> j \<le> max_files s \<Longrightarrow> fs' (rolled (path s) j) = (if j = 1 then fs (path s) else fs (rolled (path s) (j - 1)))"
proof -
  let ?n = "max_files s" and ?p = "path s"
  let ?fs1 = "fs(rolled ?p ?n := None)"
  let ?fs2 = "shift_files all_ok ?p ?n ?fs1"
  have p: "?fs2 ?p = fs ?p" if "?n \<noteq> 0" using shift_files_other [of ?fs1 ?p "?n - 1" ?p] that by simp
  have r: "rf_rotate all_ok (s, fs) = (s\<lparr>is_open := True, written := 0\<rparr>, (?fs2(rolled ?p 1 := fs ?p))(?p \<mapsto> []))" if "?n \<noteq> 0"
    using that p [OF that] assms(2) by (simp add: rf_rotate_def rf_close_def rf_open_def Let_def fs_remove_def fs_rename_def all_ok_def)
  have r0: "rf_rotate all_ok (s, fs) = (s\<lparr>is_open := True, written := 0\<rparr>, fs(?p \<mapsto> []))" if "?n = 0"
    using that by (simp add: rf_rotate_def rf_close_def rf_open_def Let_def all_ok_def)
  show "s' = s\<lparr>is_open := True, written := 0\<rparr>" "fs' ?p = Some []"
    using r r0 assms(1) by (cases "?n = 0"; simp)+
  show "fs' (rolled ?p j) = (if j = 1 then fs ?p else fs (rolled ?p (j - 1)))" if "1 \<le> j" "j \<le> ?n"
    using r assms(1) that shift_files_rolled [of ?fs1 ?p "?n - 1" j] by (auto split: if_splits)
qed

text \<open>
  The files of a sink as segments of the lines logged, the active file first; \<open>seg_inv\<close> ties them to the file system. A segment is within the limit
  or is a single line.
\<close>

definition content :: "string option \<Rightarrow> string" where
  "content f = (case f of None \<Rightarrow> [] | Some c \<Rightarrow> c)"

definition seg_inv :: "string \<Rightarrow> nat \<Rightarrow> nat \<Rightarrow> string list \<Rightarrow> string list list \<Rightarrow> RotatingFileSink \<times> file_system \<Rightarrow> bool" where
  "seg_inv p mb n ls segs st =
     (path (fst st) = p \<and> max_bytes (fst st) = mb \<and> max_files (fst st) = n \<and> is_open (fst st) \<and>
      length segs = Suc n \<and> snd st p = Some (lines_text (segs ! 0)) \<and> written (fst st) = length (lines_text (segs ! 0)) \<and>
      (\<forall>j \<in> {1..n}. content (snd st (rolled p j)) = lines_text (segs ! j)) \<and>
      suffix (concat (rev segs)) ls \<and> (ls \<noteq> [] \<longrightarrow> segs ! 0 \<noteq> []) \<and>
      (\<forall>seg \<in> set segs. length (lines_text seg) \<le> mb \<or> length seg \<le> 1))"

lemma lines_text_simps [simp]:
  "lines_text [] = []" "lines_text (l # ls) = l @ [LF] @ lines_text ls" "lines_text (xs @ ys) = lines_text xs @ lines_text ys"
  by (simp_all add: lines_text_def)

lemma lines_text_empty [simp]: "lines_text ls = [] \<longleftrightarrow> ls = []"
  by (cases ls) simp_all

text \<open>A rotation pushes an empty segment and drops the oldest.\<close>

lemma seg_inv_rotate:
  assumes "seg_inv p mb n ls segs (s, fs)"
  shows "\<exists>s' fs'. rf_rotate all_ok (s, fs) = (s', fs') \<and> path s' = p \<and> max_bytes s' = mb \<and> max_files s' = n \<and> is_open s' \<and> written s' = 0 \<and>
    fs' p = Some [] \<and> (\<forall>j \<in> {1..n}. content (fs' (rolled p j)) = lines_text (segs ! (j - 1))) \<and>
    suffix (concat (rev (butlast segs))) ls"
proof -
  obtain s' fs' where r: "rf_rotate all_ok (s, fs) = (s', fs')" by fastforce
  have i: "path s = p" "max_files s = n" "max_bytes s = mb" "length segs = Suc n" "fs p = Some (lines_text (segs ! 0))"
    using assms by (simp_all add: seg_inv_def)
  have sg: "segs = butlast segs @ [last segs]" using i(4) by (metis append_butlast_last_id length_0_conv nat.distinct(1))
  have "suffix (concat (rev segs)) ls" using assms by (simp add: seg_inv_def)
  then have "suffix (concat (rev (butlast segs))) ls"
    by (subst (asm) sg) (auto dest: suffix_appendD)
  moreover have "content (fs' (rolled p j)) = lines_text (segs ! (j - 1))" if "j \<in> {1..n}" for j
  proof (cases "j = 1")
    case True
    then show ?thesis using rotate_files(3) [OF r, of j] i that by (simp add: content_def)
  next
    case False
    then have "j - 1 \<in> {1..n}" using that by auto
    then have "content (fs (rolled p (j - 1))) = lines_text (segs ! (j - 1))" using assms unfolding seg_inv_def by simp
    then show ?thesis using rotate_files(3) [OF r, of j] i that False by simp
  qed
  ultimately show ?thesis using r rotate_files(1,2) [OF r] i by auto
qed

lemma seg_inv_append:
  assumes "seg_inv p mb n ls segs st"
  shows "\<exists>segs' st'. rf_append all_ok l st = Some st' \<and> seg_inv p mb n (ls @ [l]) segs' st'"
proof -
  obtain s fs where st: "st = (s, fs)" by (cases st)
  have i: "path s = p" "max_bytes s = mb" "max_files s = n" "is_open s" "length segs = Suc n"
    "fs p = Some (lines_text (segs ! 0))" "written s = length (lines_text (segs ! 0))"
    using assms by (simp_all add: seg_inv_def st)
  obtain seg rest where segs: "segs = seg # rest" using i(5) by (cases segs) auto
  show ?thesis
  proof (cases "written s + length l + 1 > mb \<and> written s > 0")
    case True
    obtain s' fs' where r: "rf_rotate all_ok (s, fs) = (s', fs')" "path s' = p" "max_bytes s' = mb" "max_files s' = n" "is_open s'" "written s' = 0"
      "fs' p = Some []" "\<forall>j \<in> {1..n}. content (fs' (rolled p j)) = lines_text (segs ! (j - 1))" "suffix (concat (rev (butlast segs))) ls"
      using seg_inv_rotate [OF assms [unfolded st]] by auto
    have "rf_append all_ok l st = Some (s'\<lparr>written := length l + 1\<rparr>, fs'(p \<mapsto> l @ [LF]))"
      using True r i by (simp add: rf_append_def st)
    moreover have "seg_inv p mb n (ls @ [l]) ([l] # butlast segs) (s'\<lparr>written := length l + 1\<rparr>, fs'(p \<mapsto> l @ [LF]))"
    proof -
      have "suffix (concat (rev ([l] # butlast segs))) (ls @ [l])" using r(9) by simp
      moreover have "\<forall>g \<in> set (butlast segs). length (lines_text g) \<le> mb \<or> length g \<le> 1"
        using assms by (auto simp: seg_inv_def dest: in_set_butlastD)
      ultimately show ?thesis using r i
        by (auto simp: seg_inv_def content_def nth_Cons' nth_butlast)
    qed
    ultimately show ?thesis by blast
  next
    case False
    have "rf_append all_ok l st = Some (s\<lparr>written := written s + (length l + 1)\<rparr>, fs(p \<mapsto> lines_text seg @ l @ [LF]))"
      using False i by (auto simp: rf_append_def st segs)
    moreover have "seg_inv p mb n (ls @ [l]) ((seg @ [l]) # rest) (s\<lparr>written := written s + (length l + 1)\<rparr>, fs(p \<mapsto> lines_text seg @ l @ [LF]))"
    proof -
      have "suffix (concat (rev rest) @ seg) ls" using assms by (simp add: seg_inv_def segs)
      then have "suffix (concat (rev ((seg @ [l]) # rest))) (ls @ [l])" by (simp flip: append_assoc)
      moreover have "length (lines_text (seg @ [l])) \<le> mb \<or> length (seg @ [l]) \<le> 1" using False i(7) by (auto simp: segs)
      ultimately show ?thesis using assms i by (auto simp: seg_inv_def segs st nth_Cons')
    qed
    ultimately show ?thesis by blast
  qed
qed

fun rf_run :: "io \<Rightarrow> string list \<Rightarrow> RotatingFileSink \<times> file_system \<Rightarrow> (RotatingFileSink \<times> file_system) option" where
  "rf_run k [] st = Some st"
| "rf_run k (l # ls) st = (case rf_append k l st of None \<Rightarrow> None | Some st' \<Rightarrow> rf_run k ls st')"

lemma seg_inv_run:
  "seg_inv p mb n ls0 segs st \<Longrightarrow> \<exists>segs' st'. rf_run all_ok ls st = Some st' \<and> seg_inv p mb n (ls0 @ ls) segs' st'"
proof (induction ls arbitrary: ls0 segs st)
  case (Cons l ls)
  obtain segs1 st1 where "rf_append all_ok l st = Some st1" "seg_inv p mb n (ls0 @ [l]) segs1 st1"
    using seg_inv_append [OF Cons.prems] by blast
  then show ?case using Cons.IH [of "ls0 @ [l]" segs1 st1] by simp
qed auto

text \<open>What the files hold, oldest first.\<close>

definition archive :: "string \<Rightarrow> nat \<Rightarrow> file_system \<Rightarrow> string" where
  "archive p n fs = concat (map (\<lambda>j. content (fs (rolled p j))) (rev [1..<Suc n])) @ content (fs p)"

lemma concat_lines_text: "concat (map lines_text gs) = lines_text (concat gs)"
  by (induction gs) simp_all

lemma seg_inv_archive:
  assumes "seg_inv p mb n ls segs st"
  shows "archive p n (snd st) = lines_text (concat (rev segs))"
proof -
  have len: "length segs = Suc n" using assms by (simp add: seg_inv_def)
  have "map (\<lambda>j. content (snd st (rolled p j))) [1..<Suc n] = map (\<lambda>j. lines_text (segs ! j)) [1..<Suc n]"
    using assms by (auto simp: seg_inv_def)
  also have "\<dots> = map lines_text (tl segs)"
    using len by (intro nth_equalityI) (auto simp: nth_tl simp del: upt_Suc)
  finally have "map (\<lambda>j. content (snd st (rolled p j))) (rev [1..<Suc n]) = rev (map lines_text (tl segs))" by (simp only: rev_map [symmetric])
  moreover have "content (snd st p) = lines_text (hd segs)" using assms len by (cases segs) (auto simp: seg_inv_def content_def)
  moreover have sg: "segs = hd segs # tl segs" using len by (cases segs) auto
  have "lines_text (concat (rev segs)) = lines_text (concat (rev (tl segs))) @ lines_text (hd segs)" by (subst sg) simp
  moreover have "concat (rev (map lines_text (tl segs))) = lines_text (concat (rev (tl segs)))" by (simp add: rev_map concat_lines_text)
  ultimately show ?thesis by (simp add: archive_def del: upt_Suc)
qed



text \<open>When the file cannot be opened again after a rotation, the line that caused it is written to a null stream.\<close>

theorem reopen_failure_writes_null:
  assumes "is_open s" "written s > 0" "written s + length l + 1 > max_bytes s" "\<not> open_ok k"
  shows "rf_append k l (s, fs) = None"
  using assms by (auto simp: rf_append_def rf_rotate_def rf_close_def rf_open_def Let_def)

text \<open>When the active file cannot be renamed, rotation leaves it as it is and it grows past every limit.\<close>

theorem rename_failure_unbounded:
  assumes "is_open s" "max_files s > 0" "fs (path s) = Some c" "written s = length c" "open_ok k" "\<And>i. \<not> rename_ok k i"
  shows "\<exists>s' fs'. rf_append k l (s, fs) = Some (s', fs') \<and> fs' (path s) = Some (c @ l @ [LF]) \<and> written s' = length c + length l + 1"
proof -
  have sh: "shift_files k p n f = f" for p n f
    using assms(6) by (induction k p n f rule: shift_files.induct) (auto simp: fs_rename_def)
  show ?thesis using assms
    by (auto simp: rf_append_def rf_rotate_def rf_close_def rf_open_def Let_def sh fs_rename_def fs_remove_def split: if_splits)
qed

end
