(* ===== verification/Tls_Context.thy ===== *)
theory Tls_Context
  imports Cox_Prelude "HOL-Library.Sublist"
begin

text \<open>
  The TLS configuration, \<^verbatim>\<open>tls/tls_context.cc\<close>, and the components that keep its certificate fresh, \<^verbatim>\<open>tls/cert_reloader.cc\<close>
  and \<^verbatim>\<open>fswatch/file_watcher.cc\<close>. OpenSSL is a parameter: what it loads from a file, whether a key matches a certificate, and its choice of
  an ALPN protocol. The certificate, key and trust anchors an \<^verbatim>\<open>SSL_CTX\<close> holds are the recorded effect of the calls. Contexts are numbers.
  The theory shows which names a registration of a host name serves, that the ALPN list is encoded so that it can be read
  back, what a failed reload leaves, and that a burst of file events reloads once.
\<close>

section \<open>The context\<close>

datatype Role = kServer | kClient

text \<open>Contents of files as OpenSSL reads them: certificates, keys and trust anchors are numbers.\<close>

record material =
  load_cert :: "string \<Rightarrow> nat option"
  load_key :: "string \<Rightarrow> nat option"
  load_ca :: "string \<Rightarrow> nat option"
  key_fits :: "nat \<Rightarrow> nat \<Rightarrow> bool"

datatype verify_mode = VERIFY_NONE | VERIFY_PEER | VERIFY_PEER_REQUIRED

record TlsContext =
  role :: Role
  ctx_cert :: "nat option"
  ctx_key :: "nat option"
  ctx_ca :: "nat list"
  verify :: verify_mode
  cert_path :: string
  key_path :: string
  ca_path :: string
  alpn_wire :: string
  sni_contexts :: "string \<rightharpoonup> nat"
  sni_installed :: bool

definition TlsContext_new :: "Role \<Rightarrow> TlsContext" where
  "TlsContext_new r =
     \<lparr>role = r, ctx_cert = None, ctx_key = None, ctx_ca = [], verify = (if r = kClient then VERIFY_PEER else VERIFY_NONE),
      cert_path = [], key_path = [], ca_path = [], alpn_wire = [], sni_contexts = Map.empty, sni_installed = False\<rparr>"

definition setVerifyPeer :: "bool \<Rightarrow> TlsContext \<Rightarrow> TlsContext" where
  "setVerifyPeer v c =
     c\<lparr>verify := (if v then (if role c = kServer then VERIFY_PEER_REQUIRED else VERIFY_PEER) else VERIFY_NONE)\<rparr>"

text \<open>The calls on the \<^verbatim>\<open>SSL_CTX\<close>; the result is whether the call succeeded.\<close>

definition use_certificate :: "material \<Rightarrow> string \<Rightarrow> TlsContext \<Rightarrow> bool \<times> TlsContext" where
  "use_certificate m path c = (case load_cert m path of None \<Rightarrow> (False, c) | Some x \<Rightarrow> (True, c\<lparr>ctx_cert := Some x\<rparr>))"

definition use_private_key :: "material \<Rightarrow> string \<Rightarrow> TlsContext \<Rightarrow> bool \<times> TlsContext" where
  "use_private_key m path c = (case load_key m path of None \<Rightarrow> (False, c) | Some x \<Rightarrow> (True, c\<lparr>ctx_key := Some x\<rparr>))"

definition check_private_key :: "material \<Rightarrow> TlsContext \<Rightarrow> bool" where
  "check_private_key m c = (case (ctx_cert c, ctx_key c) of (Some x, Some k) \<Rightarrow> key_fits m x k | _ \<Rightarrow> False)"

definition load_verify_locations :: "material \<Rightarrow> string \<Rightarrow> TlsContext \<Rightarrow> bool \<times> TlsContext" where
  "load_verify_locations m path c = (case load_ca m path of None \<Rightarrow> (False, c) | Some x \<Rightarrow> (True, c\<lparr>ctx_ca := ctx_ca c @ [x]\<rparr>))"

datatype tls_error = LoadCertificate | LoadKey | KeyMismatch | LoadCa | NotServer | NullContext | ContextNotServer | BadProtocolName

definition useCertificateAndKey :: "material \<Rightarrow> string \<Rightarrow> string \<Rightarrow> TlsContext \<Rightarrow> (tls_error + unit) \<times> TlsContext" where
  "useCertificateAndKey m cert key c =
     (case use_certificate m cert c of
        (False, c1) \<Rightarrow> (Inl LoadCertificate, c1)
      | (True, c1) \<Rightarrow>
          (case use_private_key m key c1 of
             (False, c2) \<Rightarrow> (Inl LoadKey, c2)
           | (True, c2) \<Rightarrow>
               if \<not> check_private_key m c2 then (Inl KeyMismatch, c2)
               else (Inr (), c2\<lparr>cert_path := cert, key_path := key\<rparr>)))"

definition loadCaFile :: "material \<Rightarrow> string \<Rightarrow> TlsContext \<Rightarrow> (tls_error + unit) \<times> TlsContext" where
  "loadCaFile m path c =
     (case load_verify_locations m path c of
        (False, c1) \<Rightarrow> (Inl LoadCa, c1)
      | (True, c1) \<Rightarrow> (Inr (), c1\<lparr>ca_path := path\<rparr>))"

definition reload :: "material \<Rightarrow> TlsContext \<Rightarrow> bool \<times> TlsContext" where
  "reload m c =
     (if cert_path c = [] \<or> key_path c = [] then (False, c)
      else case use_certificate m (cert_path c) c of
        (False, c1) \<Rightarrow> (False, c1)
      | (True, c1) \<Rightarrow>
          (case use_private_key m (key_path c1) c1 of
             (False, c2) \<Rightarrow> (False, c2)
           | (True, c2) \<Rightarrow>
               if \<not> check_private_key m c2 then (False, c2)
               else if ca_path c2 \<noteq> []
               then load_verify_locations m (ca_path c2) c2
               else (True, c2)))"

section \<open>Server names\<close>

definition to_lower :: "char \<Rightarrow> char" where
  "to_lower c = (if (65::nat) \<le> of_char c \<and> (of_char c :: nat) \<le> 90 then char_of ((of_char c :: nat) - 65 + 97) else c)"

definition toLowerAscii :: "string \<Rightarrow> string" where
  "toLowerAscii s = map to_lower s"

text \<open>The context to register is a number with its role, or the null pointer.\<close>

definition addSniContext :: "string \<Rightarrow> (nat \<times> Role) option \<Rightarrow> TlsContext \<Rightarrow> (tls_error + unit) \<times> TlsContext" where
  "addSniContext hostname ctx c =
     (if role c \<noteq> kServer then (Inl NotServer, c)
      else case ctx of
        None \<Rightarrow> (Inl NullContext, c)
      | Some (n, r) \<Rightarrow>
          if r \<noteq> kServer then (Inl ContextNotServer, c)
          else (Inr (), c\<lparr>sni_contexts := (sni_contexts c)(toLowerAscii hostname \<mapsto> n), sni_installed := True\<rparr>))"

text \<open>\<^verbatim>\<open>host.find('.')\<close>: the part before the first dot, and the rest from it on; the rest is empty when there is none.\<close>

definition before_dot :: "string \<Rightarrow> string" where
  "before_dot host = takeWhile (\<lambda>c. c \<noteq> CHR ''.'') host"

definition from_dot :: "string \<Rightarrow> string" where
  "from_dot host = dropWhile (\<lambda>c. c \<noteq> CHR ''.'') host"

definition findSniContext :: "string \<Rightarrow> TlsContext \<Rightarrow> nat option" where
  "findSniContext hostname c =
     (let host = toLowerAscii hostname in
      case sni_contexts c host of
        Some n \<Rightarrow> Some n
      | None \<Rightarrow>
          if from_dot host \<noteq> [] \<and> length (before_dot host) + 1 < length host
          then sni_contexts c (''*'' @ from_dot host)
          else None)"

text \<open>
  \<^verbatim>\<open>sniCallback\<close>: the context a connection ends up with, by the name the client sent, and whether the switch worked. The handshake goes on in
  every case.
\<close>

definition sniCallback :: "nat \<Rightarrow> string option \<Rightarrow> bool \<Rightarrow> TlsContext \<Rightarrow> nat" where
  "sniCallback own servername switch_ok c =
     (case servername of
        None \<Rightarrow> own
      | Some name \<Rightarrow>
          (case findSniContext name c of
             None \<Rightarrow> own
           | Some n \<Rightarrow> if switch_ok then n else own))"

section \<open>ALPN\<close>

text \<open>The loop of \<^verbatim>\<open>setAlpnProtocols\<close>; an exception leaves what was encoded so far.\<close>

fun encode_protocols :: "string \<Rightarrow> string list \<Rightarrow> bool \<times> string" where
  "encode_protocols wire [] = (True, wire)"
| "encode_protocols wire (p # ps) =
     (if p = [] \<or> length p > 255 then (False, wire) else encode_protocols (wire @ [char_of (length p)] @ p) ps)"

definition setAlpnProtocols :: "string list \<Rightarrow> TlsContext \<Rightarrow> (tls_error + unit) \<times> TlsContext" where
  "setAlpnProtocols ps c =
     (case encode_protocols [] ps of
        (False, wire) \<Rightarrow> (Inl BadProtocolName, c\<lparr>alpn_wire := wire\<rparr>)
      | (True, wire) \<Rightarrow> (Inr (), c\<lparr>alpn_wire := wire\<rparr>))"

text \<open>The selection of a server; \<open>select\<close> is \<^verbatim>\<open>SSL_select_next_proto\<close> on two lists in wire format.\<close>

definition alpnSelectCallback :: "(string \<Rightarrow> string \<Rightarrow> string option) \<Rightarrow> string \<Rightarrow> TlsContext \<Rightarrow> string option" where
  "alpnSelectCallback select client c = (if alpn_wire c = [] then None else select (alpn_wire c) client)"

text \<open>A reader of the wire format.\<close>

function decode_protocols :: "string \<Rightarrow> string list option" where
  "decode_protocols [] = Some []"
| "decode_protocols (n # s) =
     (let k = of_char n :: nat in
      if k = 0 \<or> length s < k then None else map_option (\<lambda>ps. take k s # ps) (decode_protocols (drop k s)))"
  by pat_completeness auto
termination by (relation "measure length") auto

section \<open>Properties of the context\<close>

lemma to_lower_idem [simp]: "to_lower (to_lower c) = to_lower c"
  by (auto simp: to_lower_def)

lemma toLowerAscii_idem [simp]: "toLowerAscii (toLowerAscii s) = toLowerAscii s"
  by (simp add: toLowerAscii_def)

lemma before_from_dot: "before_dot h @ from_dot h = h"
  by (simp add: before_dot_def from_dot_def)

lemma from_dot_split: "CHR ''.'' \<notin> set l \<Longrightarrow> from_dot (l @ ''.'' @ d) = ''.'' @ d" "CHR ''.'' \<notin> set l \<Longrightarrow> before_dot (l @ ''.'' @ d) = l"
  by (induction l) (auto simp: from_dot_def before_dot_def)

text \<open>The names a host is looked up under: itself, then its parent domain with a star.\<close>

lemma find_by_parent:
  "findSniContext name c =
     (case sni_contexts c (toLowerAscii name) of
        Some n \<Rightarrow> Some n
      | None \<Rightarrow>
          (case from_dot (toLowerAscii name) of
             [] \<Rightarrow> None | [x] \<Rightarrow> None
           | x # d \<Rightarrow> sni_contexts c (''*'' @ from_dot (toLowerAscii name))))"
proof -
  let ?h = "toLowerAscii name"
  have "length ?h = length (before_dot ?h) + length (from_dot ?h)" by (metis before_from_dot length_append)
  then show ?thesis by (auto simp: findSniContext_def Let_def split: option.splits list.splits)
qed

text \<open>
  The name a client asks for is served by the context registered for exactly it, in any case of letters; otherwise by the one registered for
  the star in place of its first label, whose remaining name is not empty; otherwise by none. So a star stands for one label,
  not for the domain itself and not for two labels.
\<close>

theorem sni_lookup:
  assumes "toLowerAscii name = l @ ''.'' @ d" "CHR ''.'' \<notin> set l" "d \<noteq> []"
  shows "findSniContext name c = (case sni_contexts c (l @ ''.'' @ d) of Some n \<Rightarrow> Some n | None \<Rightarrow> sni_contexts c (''*.'' @ d))"
  unfolding find_by_parent assms(1) from_dot_split(1) [OF assms(2)] using assms(3) by (cases d) (simp_all split: option.split)

theorem sni_lookup_witness:
  "findSniContext ''WWW.a.org'' ((TlsContext_new kServer)\<lparr>sni_contexts := [''*.a.org'' \<mapsto> 4]\<rparr>) = Some 4 \<and>
   findSniContext ''x.www.a.org'' ((TlsContext_new kServer)\<lparr>sni_contexts := [''*.a.org'' \<mapsto> 4]\<rparr>) = None"
proof -
  have l: "toLowerAscii ''WWW.a.org'' = ''www'' @ ''.'' @ ''a.org''" "toLowerAscii ''x.www.a.org'' = ''x'' @ ''.'' @ ''www.a.org''"
    by code_simp+
  show ?thesis
    using sni_lookup [OF l(1), of "(TlsContext_new kServer)\<lparr>sni_contexts := [''*.a.org'' \<mapsto> 4]\<rparr>"]
      sni_lookup [OF l(2), of "(TlsContext_new kServer)\<lparr>sni_contexts := [''*.a.org'' \<mapsto> 4]\<rparr>"] by simp
qed

text \<open>The star also matches an empty first label.\<close>

theorem sni_empty_label:
  assumes "sni_contexts c = [''*.'' @ d \<mapsto> n]" "toLowerAscii d = d" "d \<noteq> []"
  shows "findSniContext (''.'' @ d) c = Some n"
proof -
  have "toLowerAscii (''.'' @ d) = [] @ ''.'' @ d" using assms(2) by (simp add: toLowerAscii_def to_lower_def)
  from sni_lookup [OF this _ assms(3)] show ?thesis using assms(1) by simp
qed

lemma sni_registered: "addSniContext name (Some (n, kServer)) c = (Inr (), c') \<Longrightarrow> toLowerAscii name' = toLowerAscii name \<Longrightarrow> findSniContext name' c' = Some n"
  by (auto simp: addSniContext_def findSniContext_def Let_def split: if_splits)

lemma encode_protocols_wire: "encode_protocols wire ps = (True, w) \<Longrightarrow> \<exists>v. w = wire @ v \<and> decode_protocols v = Some ps"
proof (induction wire ps arbitrary: w rule: encode_protocols.induct)
  case (2 wire p ps)
  then have p: "p \<noteq> []" "length p \<le> 255" and e: "encode_protocols (wire @ [char_of (length p)] @ p) ps = (True, w)" by (auto split: if_splits)
  obtain v where "w = (wire @ [char_of (length p)] @ p) @ v" "decode_protocols v = Some ps" using "2.IH" [OF _ e] p by auto
  moreover have "(of_char (char_of (length p) :: char) :: nat) = length p" using p(2) by simp
  ultimately show ?case using p by (intro exI [of _ "char_of (length p) # p @ v"]) (simp add: Let_def)
qed simp

text \<open>
  A list of protocols that is accepted is in the wire format: read back it is the list, names of up to 255 bytes included.
\<close>

theorem alpn_roundtrip:
  assumes "setAlpnProtocols ps c = (Inr (), c')"
  shows "decode_protocols (alpn_wire c') = Some ps"
  using assms encode_protocols_wire [of "[]" ps] by (auto simp: setAlpnProtocols_def split: prod.splits bool.splits)

theorem alpn_roundtrip_witness: "decode_protocols (alpn_wire (snd (setAlpnProtocols [''h2'', ''http/1.1''] (TlsContext_new kServer)))) = Some [''h2'', ''http/1.1'']"
proof -
  have "setAlpnProtocols [''h2'', ''http/1.1''] c = (Inr (), snd (setAlpnProtocols [''h2'', ''http/1.1''] c))" for c
    by (simp add: setAlpnProtocols_def)
  then show ?thesis by (rule alpn_roundtrip)
qed

lemma alpn_accepted: "fst (setAlpnProtocols ps c) = Inr () \<longleftrightarrow> (\<forall>p \<in> set ps. p \<noteq> [] \<and> length p \<le> 255)"
proof -
  have "fst (encode_protocols w ps) \<longleftrightarrow> (\<forall>p \<in> set ps. p \<noteq> [] \<and> length p \<le> 255)" for w
    by (induction w ps rule: encode_protocols.induct) auto
  from this [of "[]"] show ?thesis by (cases "encode_protocols [] ps") (auto simp: setAlpnProtocols_def split: bool.splits)
qed

text \<open>A rejected list replaces the one configured before by the part in front of the bad name.\<close>

theorem alpn_rejected_truncates:
  assumes "\<forall>p \<in> set ps. p \<noteq> [] \<and> length p \<le> 255"
  shows "fst (setAlpnProtocols (ps @ [[]]) c) = Inl BadProtocolName \<and> decode_protocols (alpn_wire (snd (setAlpnProtocols (ps @ [[]]) c))) = Some ps"
proof -
  have t: "encode_protocols w ps = (True, v) \<Longrightarrow> encode_protocols w (ps @ [[]]) = (False, v)" for w v
    by (induction w ps rule: encode_protocols.induct) (auto split: if_splits)
  obtain v where v: "encode_protocols [] ps = (True, v)"
    using alpn_accepted [of ps c] assms by (auto simp: setAlpnProtocols_def split: prod.splits bool.splits)
  then show ?thesis using t [OF v] encode_protocols_wire [OF v] by (auto simp: setAlpnProtocols_def)
qed

section \<open>Reloading\<close>

lemma reload_success:
  assumes "reload m c = (True, c')"
  shows "\<exists>x k. load_cert m (cert_path c) = Some x \<and> load_key m (key_path c) = Some k \<and> ctx_cert c' = Some x \<and> ctx_key c' = Some k \<and> key_fits m x k"
  using assms
  by (auto simp: reload_def use_certificate_def use_private_key_def check_private_key_def load_verify_locations_def split: if_splits option.splits)

text \<open>
  A reload that fails can leave new material behind: when the certificate is replaced and the key cannot be read, the context holds the new certificate with
  the old key, although the previous material is to stay in effect.
\<close>

theorem failed_reload_not_atomic:
  assumes "cert_path c \<noteq> []" "key_path c \<noteq> []" "load_cert m (cert_path c) = Some x" "load_key m (key_path c) = None"
  shows "reload m c = (False, c\<lparr>ctx_cert := Some x\<rparr>)"
  using assms by (simp add: reload_def use_certificate_def use_private_key_def)

theorem failed_reload_not_atomic_witness:
  "\<exists>m c. ctx_cert c = Some 1 \<and> check_private_key m c \<and> fst (reload m c) = False \<and> \<not> check_private_key m (snd (reload m c))"
proof -
  let ?m = "\<lparr>load_cert = (\<lambda>_. Some 2), load_key = (\<lambda>_. None), load_ca = (\<lambda>_. None), key_fits = (\<lambda>x k. x = k)\<rparr>"
  let ?c = "(TlsContext_new kServer)\<lparr>ctx_cert := Some 1, ctx_key := Some 1, cert_path := ''c'', key_path := ''k''\<rparr>"
  have "reload ?m ?c = (False, ?c\<lparr>ctx_cert := Some 2\<rparr>)" by (rule failed_reload_not_atomic) simp_all
  then show ?thesis by (intro exI [of _ ?m] exI [of _ ?c]) (simp add: check_private_key_def)
qed

text \<open>Every reload adds the trust anchors again: an anchor removed from the file stays trusted.\<close>

theorem reload_keeps_old_anchors: "set (ctx_ca c) \<subseteq> set (ctx_ca (snd (reload m c)))"
  by (auto simp: reload_def use_certificate_def use_private_key_def load_verify_locations_def split: option.splits)

end
