(* ===== verification/Fs_Watch.thy ===== *)
theory Fs_Watch
  imports Tls_Context
begin

text \<open>
  The file watcher, \<^verbatim>\<open>fswatch/file_watcher.cc\<close>, and the component that reloads a certificate when its files change, \<^verbatim>\<open>tls/cert_reloader.cc\<close>. The
  kernel's inotify instance is a parameter: the watch descriptor it gives for a path and the events it delivers at a read. Callbacks are numbers; what they do is
  not part of the watcher, except that a reload is run by the reloader's own callback. The theory shows that a burst of events runs each
  callback once, that the two tables of the watcher agree as long as descriptors are not shared, and when a change on disk leads to a reload.
\<close>

section \<open>The file watcher\<close>

record FileWatcher =
  inotify_ok :: bool
  watches :: "int \<rightharpoonup> string \<times> nat option"
  by_path :: "string \<rightharpoonup> int"
  channel_on :: bool

definition FileWatcher_new :: "bool \<Rightarrow> FileWatcher" where
  "FileWatcher_new init_ok = \<lparr>inotify_ok = init_ok, watches = Map.empty, by_path = Map.empty, channel_on = init_ok\<rparr>"

text \<open>\<^verbatim>\<open>watchDirectory\<close> and \<^verbatim>\<open>watchFile\<close> differ in the mask only; \<open>wd\<close> is what \<^verbatim>\<open>inotify_add_watch\<close> returns.\<close>

definition watch_path :: "int \<Rightarrow> string \<Rightarrow> nat option \<Rightarrow> FileWatcher \<Rightarrow> bool \<times> FileWatcher" where
  "watch_path wd path cb w =
     (if \<not> inotify_ok w \<or> wd < 0 then (False, w)
      else (True, w\<lparr>watches := (watches w)(wd \<mapsto> (path, cb)), by_path := (by_path w)(path \<mapsto> wd)\<rparr>))"

definition unwatch :: "string \<Rightarrow> FileWatcher \<Rightarrow> FileWatcher" where
  "unwatch path w =
     (case by_path w path of
        None \<Rightarrow> w
      | Some wd \<Rightarrow> w\<lparr>watches := (watches w)(wd := None), by_path := (by_path w)(path := None)\<rparr>)"

text \<open>What a read of the inotify descriptor gives: events, an interruption, or anything else that ends the loop.\<close>

datatype inotify_read = Events "int list" | Interrupted | Drained

fun collect :: "FileWatcher \<Rightarrow> inotify_read list \<Rightarrow> int list" where
  "collect w [] = []"
| "collect w (Events evs # rs) = filter (\<lambda>wd. watches w wd \<noteq> None) evs @ collect w rs"
| "collect w (Interrupted # rs) = collect w rs"
| "collect w (Drained # rs) = []"

text \<open>\<^verbatim>\<open>std::unique\<close> drops an element that equals the one before it.\<close>

fun unique :: "int list \<Rightarrow> int list" where
  "unique (x # y # xs) = (if x = y then unique (y # xs) else x # unique (y # xs))"
| "unique xs = xs"

text \<open>The dispatch: the callbacks run, with the path they get; \<open>act\<close> is what a callback does to the watcher.\<close>

fun dispatch_fired :: "(nat \<Rightarrow> FileWatcher \<Rightarrow> FileWatcher) \<Rightarrow> int list \<Rightarrow> FileWatcher \<Rightarrow> (nat \<times> string) list \<times> FileWatcher" where
  "dispatch_fired act [] w = ([], w)"
| "dispatch_fired act (wd # wds) w =
     (case watches w wd of
        Some (path, Some cb) \<Rightarrow> (let (log, w') = dispatch_fired act wds (act cb w) in ((cb, path) # log, w'))
      | _ \<Rightarrow> dispatch_fired act wds w)"

definition fw_handleRead :: "(nat \<Rightarrow> FileWatcher \<Rightarrow> FileWatcher) \<Rightarrow> inotify_read list \<Rightarrow> FileWatcher \<Rightarrow> (nat \<times> string) list \<times> FileWatcher" where
  "fw_handleRead act reads w = dispatch_fired act (unique (sort (collect w reads))) w"

section \<open>Properties of the watcher\<close>

lemma set_unique [simp]: "set (unique xs) = set xs"
  by (induction xs rule: unique.induct) auto

lemma unique_strict: "sorted xs \<Longrightarrow> sorted_wrt (<) (unique xs)"
proof (induction xs rule: unique.induct)
  case (1 x y xs)
  then have "\<forall>z \<in> set (y # xs). y \<le> z" by simp
  moreover have "x \<noteq> y \<Longrightarrow> x < y" using 1(3) by auto
  ultimately show ?case using 1 by (auto intro: less_le_trans)
qed auto

lemma unique_sort: "unique (sort xs) = sorted_list_of_set (set xs)"
proof (rule sorted_distinct_set_unique)
  show "sorted (unique (sort xs))" "distinct (unique (sort xs))"
    using unique_strict [of "sort xs"] strict_sorted_iff by auto
qed simp_all

lemma dispatch_passive:
  "dispatch_fired (\<lambda>_ w. w) wds w = (map (\<lambda>wd. (the (snd (the (watches w wd))), fst (the (watches w wd)))) (filter (\<lambda>wd. \<exists>p cb. watches w wd = Some (p, Some cb)) wds), w)"
  by (induction wds) (auto split: option.splits)

text \<open>
  A burst of events, over any number of reads and interruptions, runs the callback of each watched path that changed exactly once, in the order of the
  descriptors, and no other callback.
\<close>

theorem burst_coalesced:
  assumes "Drained \<notin> set reads"
  shows "fst (fw_handleRead (\<lambda>_ w. w) (reads @ [Drained]) w) =
    map (\<lambda>wd. (the (snd (the (watches w wd))), fst (the (watches w wd))))
      (filter (\<lambda>wd. \<exists>p cb. watches w wd = Some (p, Some cb)) (sorted_list_of_set {wd. \<exists>evs. Events evs \<in> set reads \<and> wd \<in> set evs \<and> watches w wd \<noteq> None}))"
proof -
  have "set (collect w (reads @ [Drained])) = {wd. \<exists>evs. Events evs \<in> set reads \<and> wd \<in> set evs \<and> watches w wd \<noteq> None}"
    using assms by (induction w reads rule: collect.induct) auto
  then show ?thesis by (simp add: fw_handleRead_def unique_sort dispatch_passive)
qed

theorem burst_coalesced_witness:
  "fst (fw_handleRead (\<lambda>_ w. w) ([Events [1, 1], Interrupted, Events [1]] @ [Drained]) ((FileWatcher_new True)\<lparr>watches := [1 \<mapsto> (''a'', Some 7)]\<rparr>)) = [(7, ''a'')]"
proof -
  let ?w = "(FileWatcher_new True)\<lparr>watches := [1 \<mapsto> (''a'', Some 7)]\<rparr>"
  have "\<exists>evs. Events evs \<in> set [Events [1, 1], Interrupted, Events [1]] \<and> 1 \<in> set evs" by (intro exI [of _ "[1]"]) simp
  then have eq: "{wd. \<exists>evs. Events evs \<in> set [Events [1, 1], Interrupted, Events [1]] \<and> wd \<in> set evs \<and> watches ?w wd \<noteq> None} = {1}"
    by (auto split: if_splits)
  have sl: "sorted_list_of_set {1 :: int} = [1]" by (rule sorted_distinct_set_unique) simp_all
  have "Drained \<notin> set [Events [1, 1], Interrupted, Events [1]]" by simp
  from burst_coalesced [OF this, of ?w] show ?thesis unfolding eq sl by simp
qed

text \<open>The two tables agree when the kernel gives different paths different descriptors.\<close>

definition tables_ok :: "FileWatcher \<Rightarrow> bool" where
  "tables_ok w = (\<forall>path wd. by_path w path = Some wd \<longleftrightarrow> (\<exists>cb. watches w wd = Some (path, cb)))"

lemma tables_watch:
  assumes "tables_ok w" "\<And>p cb. watches w wd = Some (p, cb) \<Longrightarrow> p = path" "\<And>wd'. by_path w path = Some wd' \<Longrightarrow> wd' = wd"
  shows "tables_ok (snd (watch_path wd path cb w))"
  using assms by (auto simp: tables_ok_def watch_path_def)

lemma tables_unwatch:
  assumes "tables_ok w"
  shows "tables_ok (unwatch path w)"
proof (cases "by_path w path")
  case None
  then show ?thesis using assms by (simp add: unwatch_def)
next
  case (Some wd)
  have t: "by_path w p = Some d \<longleftrightarrow> (\<exists>cb. watches w d = Some (p, cb))" for p d using assms by (simp add: tables_ok_def)
  obtain cb where cb: "watches w wd = Some (path, cb)" using Some t by auto
  have uniq: "d = wd" if "watches w d = Some (path, cb)" for d cb using Some t [of path d] that by auto
  have u: "unwatch path w = w\<lparr>watches := (watches w)(wd := None), by_path := (by_path w)(path := None)\<rparr>"
    using Some by (simp add: unwatch_def)
  have "by_path (unwatch path w) p = Some d \<longleftrightarrow> (\<exists>cb. watches (unwatch path w) d = Some (p, cb))" for p d
  proof (cases "d = wd")
    case True
    then show ?thesis using cb by (simp add: u t)
  next
    case False
    then have "p = path \<Longrightarrow> watches w d \<noteq> Some (p, c)" for c using uniq by blast
    then show ?thesis using False by (simp add: u t)
  qed
  then show ?thesis by (simp add: tables_ok_def)
qed

text \<open>
  Two names of one directory share a descriptor: the second registration replaces the callback of the first, and removing the first name ends the watch of the
  second.
\<close>

theorem aliased_paths_share_watch:
  assumes "inotify_ok w" "0 \<le> wd" "p \<noteq> q"
  shows "let w1 = snd (watch_path wd q (Some b) (snd (watch_path wd p (Some a) w))) in
    fst (fw_handleRead (\<lambda>_ w. w) [Events [wd], Drained] w1) = [(b, q)] \<and>
    fst (fw_handleRead (\<lambda>_ w. w) [Events [wd], Drained] (unwatch p w1)) = [] \<and> by_path (unwatch p w1) q = Some wd"
  using assms by (simp add: watch_path_def fw_handleRead_def unwatch_def)

section \<open>The reloader\<close>

record CertReloader =
  cr_ctx :: TlsContext
  cr_watcher :: "FileWatcher option"
  cr_cert :: string
  cr_key :: string
  cr_ca :: string
  cert_mtime :: int
  key_mtime :: int
  ca_mtime :: int
  polling :: bool
  reloads :: "bool list"

definition CertReloader_new :: "TlsContext \<Rightarrow> CertReloader" where
  "CertReloader_new c = \<lparr>cr_ctx = c, cr_watcher = None, cr_cert = [], cr_key = [], cr_ca = [], cert_mtime = 0, key_mtime = 0, ca_mtime = 0,
     polling = False, reloads = []\<rparr>"

text \<open>\<open>stat\<close> is the modification time of a file in seconds, or a failure.\<close>

definition mtimeOf :: "(string \<Rightarrow> int option) \<Rightarrow> string \<Rightarrow> int" where
  "mtimeOf stat path = (if path = [] then 0 else case stat path of None \<Rightarrow> 0 | Some t \<Rightarrow> t)"

text \<open>\<^verbatim>\<open>reloadNow\<close>; the results handed to the reload callback are recorded in order.\<close>

definition reloadNow :: "material \<Rightarrow> CertReloader \<Rightarrow> CertReloader" where
  "reloadNow m r = (let (ok, c) = reload m (cr_ctx r) in r\<lparr>cr_ctx := c, reloads := reloads r @ [ok]\<rparr>)"

definition startWatching :: "bool \<Rightarrow> int \<Rightarrow> string \<Rightarrow> CertReloader \<Rightarrow> bool \<times> CertReloader" where
  "startWatching init_ok wd dir r =
     (let (ok, w) = watch_path wd dir (Some 0) (FileWatcher_new init_ok)
      in (ok, r\<lparr>cr_watcher := (if ok then Some w else None)\<rparr>))"

text \<open>An event on the watched directory runs the reload callback.\<close>

definition onWatch :: "material \<Rightarrow> inotify_read list \<Rightarrow> CertReloader \<Rightarrow> CertReloader" where
  "onWatch m reads r =
     (case cr_watcher r of
        None \<Rightarrow> r
      | Some w \<Rightarrow> fold (\<lambda>_. reloadNow m) (fst (fw_handleRead (\<lambda>_ w. w) reads w)) r)"

definition startPolling :: "(string \<Rightarrow> int option) \<Rightarrow> string \<Rightarrow> string \<Rightarrow> string \<Rightarrow> CertReloader \<Rightarrow> CertReloader" where
  "startPolling stat cert key ca r =
     r\<lparr>cr_cert := cert, cr_key := key, cr_ca := ca, cert_mtime := mtimeOf stat cert, key_mtime := mtimeOf stat key, ca_mtime := mtimeOf stat ca,
       polling := True\<rparr>"

definition filesChanged :: "(string \<Rightarrow> int option) \<Rightarrow> CertReloader \<Rightarrow> bool \<times> CertReloader" where
  "filesChanged stat r =
     (let c = mtimeOf stat (cr_cert r); k = mtimeOf stat (cr_key r); a = mtimeOf stat (cr_ca r);
          changed = (c \<noteq> cert_mtime r \<or> k \<noteq> key_mtime r \<or> a \<noteq> ca_mtime r)
      in (changed, if changed then r\<lparr>cert_mtime := c, key_mtime := k, ca_mtime := a\<rparr> else r))"

text \<open>The repeating timer's callback.\<close>

definition onPoll :: "(string \<Rightarrow> int option) \<Rightarrow> material \<Rightarrow> CertReloader \<Rightarrow> CertReloader" where
  "onPoll stat m r =
     (if polling r then (let (changed, r1) = filesChanged stat r in if changed then reloadNow m r1 else r1) else r)"

section \<open>Properties of the reloader\<close>

text \<open>The modification times a poll looks at.\<close>

definition stamps :: "(string \<Rightarrow> int option) \<Rightarrow> CertReloader \<Rightarrow> int \<times> int \<times> int" where
  "stamps stat r = (mtimeOf stat (cr_cert r), mtimeOf stat (cr_key r), mtimeOf stat (cr_ca r))"

definition seen :: "CertReloader \<Rightarrow> int \<times> int \<times> int" where
  "seen r = (cert_mtime r, key_mtime r, ca_mtime r)"

lemma onPoll_step:
  assumes "polling r"
  shows "seen (onPoll stat m r) = stamps stat r" "polling (onPoll stat m r)" "stamps stat' (onPoll stat m r) = stamps stat' r"
    "reloads (onPoll stat m r) = reloads r @ (if stamps stat r = seen r then [] else [fst (reload m (cr_ctx r))])"
    "cr_ctx (onPoll stat m r) = (if stamps stat r = seen r then cr_ctx r else snd (reload m (cr_ctx r)))"
  using assms by (auto simp: onPoll_def filesChanged_def reloadNow_def stamps_def seen_def Let_def split: prod.split)

text \<open>
  One tick after another: \<open>ticks\<close> lists the state of the disk, times and material, at each.
\<close>

definition poll_run :: "((string \<Rightarrow> int option) \<times> material) list \<Rightarrow> CertReloader \<Rightarrow> CertReloader" where
  "poll_run ticks r = fold (\<lambda>(stat, m). onPoll stat m) ticks r"

fun changes :: "'a \<Rightarrow> 'a list \<Rightarrow> nat" where
  "changes x [] = 0"
| "changes x (y # ys) = (if x = y then 0 else 1) + changes y ys"

text \<open>
  Polling reloads once for every tick at which a modification time differs from the tick before, and never otherwise.
\<close>

theorem poll_reloads_per_change:
  assumes "polling r"
  shows "length (reloads (poll_run ticks r)) = length (reloads r) + changes (seen r) (map (\<lambda>(stat, m). stamps stat r) ticks)"
  using assms
proof (induction ticks arbitrary: r)
  case (Cons t ticks)
  obtain stat m where t: "t = (stat, m)" by (cases t)
  let ?r = "onPoll stat m r"
  have "poll_run (t # ticks) r = poll_run ticks ?r" by (simp add: poll_run_def t)
  moreover have "map (\<lambda>(stat, m). stamps stat ?r) ticks = map (\<lambda>(stat, m). stamps stat r) ticks"
    using onPoll_step(3) [OF Cons.prems] by auto
  ultimately show ?case
    using Cons.IH [OF onPoll_step(2) [OF Cons.prems, of stat m]] onPoll_step(1,4) [OF Cons.prems, of stat m]
    by (auto simp: t simp del: map_eq_conv)
qed (simp add: poll_run_def)

theorem poll_reloads_per_change_witness:
  "length (reloads (poll_run [(\<lambda>_. Some 5, m), (\<lambda>_. Some 5, m), (\<lambda>_. Some 6, m)] (startPolling (\<lambda>_. Some 5) ''c'' ''k'' [] (CertReloader_new (TlsContext_new kServer))))) = 1"
  using poll_reloads_per_change [of "startPolling (\<lambda>_. Some 5) ''c'' ''k'' [] (CertReloader_new (TlsContext_new kServer))" "[(\<lambda>_. Some 5, m), (\<lambda>_. Some 5, m), (\<lambda>_. Some 6, m)]"]
  by (simp add: startPolling_def CertReloader_new_def seen_def stamps_def mtimeOf_def)

text \<open>A reload that failed is not tried again while the times stay as they are, even when the files have become good.\<close>

theorem failed_reload_not_retried:
  assumes "polling r" "stamps stat r \<noteq> seen r" "\<not> fst (reload m (cr_ctx r))"
  shows "reloads (poll_run ((stat, m) # replicate n (stat, m')) r) = reloads r @ [False]"
proof -
  let ?r = "onPoll stat m r"
  have "polling q \<Longrightarrow> stamps stat q = seen q \<Longrightarrow> poll_run (replicate n (stat, m')) q = q" for q
  proof (induction n)
    case (Suc n)
    then have "onPoll stat m' q = q" by (simp add: onPoll_def filesChanged_def stamps_def seen_def Let_def)
    then show ?case using Suc by (simp add: poll_run_def)
  qed (simp add: poll_run_def)
  then have "poll_run (replicate n (stat, m')) ?r = ?r" using onPoll_step(1-3) [OF assms(1)] by simp
  then show ?thesis using onPoll_step(4) [OF assms(1), of stat m] assms(2,3) by (simp add: poll_run_def)
qed

text \<open>A burst of changes in the watched directory reloads once.\<close>

lemma watch_burst_reloads_once:
  assumes "startWatching True wd dir r = (True, r1)" "\<exists>evs. Events evs \<in> set reads \<and> wd \<in> set evs" "Drained \<notin> set reads"
  shows "reloads (onWatch m (reads @ [Drained]) r1) = reloads r @ [fst (reload m (cr_ctx r))]"
proof -
  have w: "cr_watcher r1 = Some (snd (watch_path wd dir (Some 0) (FileWatcher_new True)))" "reloads r1 = reloads r" "cr_ctx r1 = cr_ctx r" "0 \<le> wd"
    using assms(1) by (auto simp: startWatching_def watch_path_def FileWatcher_new_def split: if_splits)
  let ?w = "snd (watch_path wd dir (Some 0) (FileWatcher_new True))"
  have ws: "watches ?w = [wd \<mapsto> (dir, Some 0)]" using w(4) by (simp add: watch_path_def FileWatcher_new_def)
  have "set (collect ?w (reads @ [Drained])) = {wd}"
  proof -
    have "set (collect ?w (rs @ [Drained])) \<subseteq> {wd}" for rs by (induction ?w rs rule: collect.induct) (auto simp: ws split: if_splits)
    moreover have "Drained \<notin> set rs \<Longrightarrow> \<exists>evs. Events evs \<in> set rs \<and> wd \<in> set evs \<Longrightarrow> wd \<in> set (collect ?w (rs @ [Drained]))" for rs
      by (induction ?w rs rule: collect.induct) (auto simp: ws)
    ultimately show ?thesis using assms(2,3) by blast
  qed
  then have "fst (fw_handleRead (\<lambda>_ w. w) (reads @ [Drained]) ?w) = [(0, dir)]" by (simp add: fw_handleRead_def unique_sort ws)
  then show ?thesis using w by (simp add: onWatch_def reloadNow_def split: prod.split)
qed

end
