(* ===== verification/Tls_Connection.thy ===== *)
theory Tls_Connection
  imports Cox_Prelude "HOL-Library.Sublist"
begin

text \<open>
  A TLS connection over a TCP connection: \<^verbatim>\<open>tls/tls_engine.cc\<close> and \<^verbatim>\<open>tls/tls_connection.cc\<close>. The OpenSSL library is a parameter, a record of
  the calls the engine makes on a state of any type; the TCP connection is the list of calls made on it. The callbacks of the application are lists of the calls they make on
  the connection. The loops that end only when the library says so are partial functions whose value \<open>None\<close> is a loop that does not return. The
  theory shows that plaintext is handed to the library complete and in order or the connection is closed, that application data and the completion callback
  come only in their order and once, when the loops return, and that a write waiting for input never does.
\<close>

section \<open>The library\<close>

datatype ssl_error = ERR_NONE | WANT_READ | WANT_WRITE | ZERO_RETURN | ERR_FATAL

text \<open>A call gives a positive count, data for a read, or an error code; \<^verbatim>\<open>SSL_do_handshake\<close> gives 1 when it is complete.\<close>

datatype 'a ssl_ret = Done 'a | Fail ssl_error

record 's ssl_lib =
  do_handshake :: "'s \<Rightarrow> unit ssl_ret \<times> 's"
  init_finished :: "'s \<Rightarrow> bool"
  ssl_write :: "string \<Rightarrow> 's \<Rightarrow> nat ssl_ret \<times> 's"
  ssl_read :: "'s \<Rightarrow> string ssl_ret \<times> 's"
  ssl_shutdown :: "'s \<Rightarrow> 's"
  bio_write :: "string \<Rightarrow> 's \<Rightarrow> 's"
  bio_read :: "'s \<Rightarrow> string \<times> 's"

section \<open>The engine\<close>

datatype Status = kOk | kWantIo | kClosed | kError

fun mapError :: "ssl_error \<Rightarrow> Status" where
  "mapError ERR_NONE = kOk"
| "mapError WANT_READ = kWantIo"
| "mapError WANT_WRITE = kWantIo"
| "mapError ZERO_RETURN = kClosed"
| "mapError ERR_FATAL = kError"

definition looksLikeIpLiteral :: "string \<Rightarrow> bool" where
  "looksLikeIpLiteral host =
     (CHR '':'' \<in> set host \<or>
      (\<forall>c \<in> set host. (48 \<le> (of_char c :: nat) \<and> (of_char c :: nat) \<le> 57) \<or> c = CHR ''.''))"

text \<open>What a client sets up: the server name it sends and the name it verifies.\<close>

definition client_names :: "string \<Rightarrow> string option \<times> string option" where
  "client_names server_hostname =
     (if server_hostname = [] then (None, None)
      else (if looksLikeIpLiteral server_hostname then None else Some server_hostname, Some server_hostname))"

definition feedEncrypted :: "'s ssl_lib \<Rightarrow> string \<Rightarrow> 's \<Rightarrow> 's" where
  "feedEncrypted lib data s = (if data = [] then s else bio_write lib data s)"

partial_function (option) takeEncrypted :: "'s ssl_lib \<Rightarrow> string \<Rightarrow> 's \<Rightarrow> (string \<times> 's) option" where
  "takeEncrypted lib out s =
     (case bio_read lib s of (b, s') \<Rightarrow> if b \<noteq> [] then takeEncrypted lib (out @ b) s' else Some (out, s'))"

definition handshake :: "'s ssl_lib \<Rightarrow> 's \<Rightarrow> Status \<times> 's" where
  "handshake lib s = (case do_handshake lib s of (Done _, s') \<Rightarrow> (kOk, s') | (Fail e, s') \<Rightarrow> (mapError e, s'))"

definition writePlaintext :: "'s ssl_lib \<Rightarrow> string \<Rightarrow> 's \<Rightarrow> Status \<times> nat \<times> 's" where
  "writePlaintext lib data s =
     (if data = [] then (kOk, 0, s)
      else case ssl_write lib data s of
        (Done n, s') \<Rightarrow> (kOk, n, s')
      | (Fail e, s') \<Rightarrow> (mapError e, 0, s'))"

partial_function (option) readPlaintext :: "'s ssl_lib \<Rightarrow> string \<Rightarrow> 's \<Rightarrow> (Status \<times> string \<times> 's) option" where
  "readPlaintext lib out s =
     (case ssl_read lib s of
        (Done b, s') \<Rightarrow> readPlaintext lib (out @ b) s'
      | (Fail e, s') \<Rightarrow> Some (if mapError e = kWantIo then kOk else mapError e, out, s'))"

section \<open>The connection\<close>

datatype tls_effect = TcpSend string | TcpForceClose | TcpShutdown | HandshakeDoneCb | MessageCb string | CloseCb | Accepted string

datatype user_call = USend string | UShutdown

text \<open>The application: what its callbacks call, and \<open>None\<close> for a callback that is not set.\<close>

record user =
  on_handshake :: "user_call list option"
  on_message :: "(string \<Rightarrow> user_call list) option"
  on_close :: "user_call list option"

record 's TlsConn =
  engine :: 's
  handshake_done :: bool
  tls_closed :: bool
  effects :: "tls_effect list"

definition TlsConn_new :: "'s \<Rightarrow> 's TlsConn" where
  "TlsConn_new s = \<lparr>engine = s, handshake_done = False, tls_closed = False, effects = []\<rparr>"

definition tls_emit :: "tls_effect \<Rightarrow> 's TlsConn \<Rightarrow> 's TlsConn" where
  "tls_emit e c = c\<lparr>effects := effects c @ [e]\<rparr>"

definition flushOutbound :: "'s ssl_lib \<Rightarrow> 's TlsConn \<Rightarrow> 's TlsConn option" where
  "flushOutbound lib c =
     (case takeEncrypted lib [] (engine c) of
        None \<Rightarrow> None
      | Some (enc, s) \<Rightarrow>
          let c1 = c\<lparr>engine := s\<rparr> in Some (if enc \<noteq> [] then tls_emit (TcpSend enc) c1 else c1))"

text \<open>The loop of \<^verbatim>\<open>send\<close> on the data that is left. \<open>Accepted\<close> records what the library took.\<close>

partial_function (option) send_loop :: "'s ssl_lib \<Rightarrow> string \<Rightarrow> 's TlsConn \<Rightarrow> 's TlsConn option" where
  "send_loop lib data c =
     (if data = [] then Some c
      else case writePlaintext lib data (engine c) of
        (st, n, s) \<Rightarrow>
          if st = kOk
          then Option.bind (flushOutbound lib (tls_emit (Accepted (take n data)) (c\<lparr>engine := s\<rparr>))) (send_loop lib (drop n data))
          else if st = kWantIo then Option.bind (flushOutbound lib (c\<lparr>engine := s\<rparr>)) (send_loop lib data)
          else Some (tls_emit TcpForceClose (c\<lparr>engine := s\<rparr>)))"

definition tls_send :: "'s ssl_lib \<Rightarrow> string \<Rightarrow> 's TlsConn \<Rightarrow> 's TlsConn option" where
  "tls_send lib data c = (if \<not> handshake_done c \<or> tls_closed c then Some c else send_loop lib data c)"

definition tls_shutdown :: "'s ssl_lib \<Rightarrow> 's TlsConn \<Rightarrow> 's TlsConn option" where
  "tls_shutdown lib c =
     (if tls_closed c then Some c
      else map_option (tls_emit TcpShutdown) (flushOutbound lib (c\<lparr>engine := ssl_shutdown lib (engine c)\<rparr>)))"

fun run_calls :: "'s ssl_lib \<Rightarrow> user_call list \<Rightarrow> 's TlsConn \<Rightarrow> 's TlsConn option" where
  "run_calls lib [] c = Some c"
| "run_calls lib (USend d # us) c = Option.bind (tls_send lib d c) (run_calls lib us)"
| "run_calls lib (UShutdown # us) c = Option.bind (tls_shutdown lib c) (run_calls lib us)"

definition driveHandshake :: "'s ssl_lib \<Rightarrow> user \<Rightarrow> 's TlsConn \<Rightarrow> 's TlsConn option" where
  "driveHandshake lib u c =
     (if handshake_done c \<or> tls_closed c then Some c
      else case handshake lib (engine c) of
        (st, s) \<Rightarrow>
          Option.bind (flushOutbound lib (c\<lparr>engine := s\<rparr>)) (\<lambda>c1.
            if st = kError then Some (tls_emit TcpForceClose c1)
            else if init_finished lib (engine c1)
            then (case on_handshake u of
                    None \<Rightarrow> Some (c1\<lparr>handshake_done := True\<rparr>)
                  | Some us \<Rightarrow> run_calls lib us (tls_emit HandshakeDoneCb (c1\<lparr>handshake_done := True\<rparr>)))
            else Some c1))"

definition read_app :: "'s ssl_lib \<Rightarrow> user \<Rightarrow> 's TlsConn \<Rightarrow> 's TlsConn option" where
  "read_app lib u c =
     (case readPlaintext lib [] (engine c) of
        None \<Rightarrow> None
      | Some (st, plaintext, s) \<Rightarrow>
          Option.bind (flushOutbound lib (c\<lparr>engine := s\<rparr>)) (\<lambda>c1.
          Option.bind (if plaintext \<noteq> [] then (case on_message u of None \<Rightarrow> Some c1 | Some f \<Rightarrow> run_calls lib (f plaintext) (tls_emit (MessageCb plaintext) c1)) else Some c1) (\<lambda>c2.
            Some (if st = kClosed then tls_emit TcpShutdown c2 else if st = kError then tls_emit TcpForceClose c2 else c2))))"

definition onTcpMessage :: "'s ssl_lib \<Rightarrow> user \<Rightarrow> string \<Rightarrow> 's TlsConn \<Rightarrow> 's TlsConn option" where
  "onTcpMessage lib u data c =
     (let c1 = c\<lparr>engine := feedEncrypted lib data (engine c)\<rparr> in
      if handshake_done c1 then read_app lib u c1
      else Option.bind (driveHandshake lib u c1) (\<lambda>c2. if \<not> handshake_done c2 then Some c2 else read_app lib u c2))"

definition onTcpClose :: "'s ssl_lib \<Rightarrow> user \<Rightarrow> 's TlsConn \<Rightarrow> 's TlsConn option" where
  "onTcpClose lib u c =
     (if tls_closed c then Some c
      else let c1 = c\<lparr>tls_closed := True\<rparr> in
        case on_close u of None \<Rightarrow> Some c1 | Some us \<Rightarrow> run_calls lib us (tls_emit CloseCb c1))"

definition tls_start :: "'s ssl_lib \<Rightarrow> user \<Rightarrow> 's TlsConn \<Rightarrow> 's TlsConn option" where
  "tls_start lib u c = driveHandshake lib u c"

section \<open>Sending\<close>

fun taken :: "tls_effect list \<Rightarrow> string" where
  "taken [] = []"
| "taken (Accepted d # es) = d @ taken es"
| "taken (_ # es) = taken es"

lemma taken_append [simp]: "taken (a @ b) = taken a @ taken b"
  by (induction a rule: taken.induct) simp_all

lemma flush_effects:
  "flushOutbound lib c = Some c' \<Longrightarrow> \<exists>e. effects c' = effects c @ e \<and> taken e = [] \<and> set e \<subseteq> range TcpSend \<and> handshake_done c' = handshake_done c \<and> tls_closed c' = tls_closed c"
  by (auto simp: flushOutbound_def tls_emit_def Let_def split: option.splits if_splits)

text \<open>All of the data was taken, or a part of it and then the connection was closed by force.\<close>

definition sent_ok :: "string \<Rightarrow> tls_effect list \<Rightarrow> bool" where
  "sent_ok data e = (taken e = data \<and> TcpForceClose \<notin> set e \<or> (\<exists>e'. e = e' @ [TcpForceClose] \<and> prefix (taken e) data))"

lemma sent_ok_chunk:
  assumes "sent_ok (drop n data) r" "taken f = []" "TcpForceClose \<notin> set f"
  shows "sent_ok data (Accepted (take n data) # f @ r)"
proof -
  have "taken r = drop n data \<and> TcpForceClose \<notin> set r \<or> (\<exists>e'. r = e' @ [TcpForceClose] \<and> prefix (taken r) (drop n data))"
    using assms(1) by (simp add: sent_ok_def)
  then show ?thesis
  proof (elim disjE exE conjE)
    fix e' assume e': "r = e' @ [TcpForceClose]" "prefix (taken r) (drop n data)"
    then have "prefix (take n data @ taken r) (take n data @ drop n data)" by (simp only: same_prefix_prefix)
    then show ?thesis using e'(1) assms(2) unfolding sent_ok_def by (intro disjI2 exI [of _ "Accepted (take n data) # f @ e'"]) simp
  qed (use assms in \<open>simp add: sent_ok_def\<close>)
qed

lemma sent_ok_flush: "sent_ok data r \<Longrightarrow> taken f = [] \<Longrightarrow> TcpForceClose \<notin> set f \<Longrightarrow> sent_ok data (f @ r)"
  by (auto simp: sent_ok_def)

lemma flush_plain: "flushOutbound lib c = Some c' \<Longrightarrow> \<exists>f. effects c' = effects c @ f \<and> taken f = [] \<and> TcpForceClose \<notin> set f"
  using flush_effects [of lib c c'] by auto

lemma send_loop_effects:
  assumes "send_loop lib data c = Some c'"
  shows "\<exists>e. effects c' = effects c @ e \<and> sent_ok data e"
proof (rule send_loop.raw_induct [where P = "\<lambda>lib data c c'. \<exists>e. effects c' = effects c @ e \<and> sent_ok data e", OF _ assms])
  fix f :: "'a ssl_lib \<Rightarrow> string \<Rightarrow> 'a TlsConn \<Rightarrow> 'a TlsConn option" and lib data and c c' :: "'a TlsConn"
  assume IH: "\<And>lib data c c'. f lib data c = Some c' \<Longrightarrow> \<exists>e. effects c' = effects c @ e \<and> sent_ok data e"
  obtain st n s where w: "writePlaintext lib data (engine c) = (st, n, s)" by (cases "writePlaintext lib data (engine c)")
  assume body: "(if data = [] then Some c
      else case writePlaintext lib data (engine c) of
        (st, n, s) \<Rightarrow>
          if st = kOk
          then Option.bind (flushOutbound lib (tls_emit (Accepted (take n data)) (c\<lparr>engine := s\<rparr>))) (f lib (drop n data))
          else if st = kWantIo then Option.bind (flushOutbound lib (c\<lparr>engine := s\<rparr>)) (f lib data)
          else Some (tls_emit TcpForceClose (c\<lparr>engine := s\<rparr>))) = Some c'"
  consider "data = []" | "data \<noteq> []" "st = kOk" | "data \<noteq> []" "st = kWantIo" | "data \<noteq> []" "st \<noteq> kOk" "st \<noteq> kWantIo" by blast
  then show "\<exists>e. effects c' = effects c @ e \<and> sent_ok data e"
  proof cases
    case 1
    then show ?thesis using body by (simp add: sent_ok_def)
  next
    case 2
    then obtain c1 where c1: "flushOutbound lib (tls_emit (Accepted (take n data)) (c\<lparr>engine := s\<rparr>)) = Some c1" "f lib (drop n data) c1 = Some c'"
      using body w by (auto split: bind_splits)
    obtain g where g: "effects c1 = effects c @ Accepted (take n data) # g" "taken g = []" "TcpForceClose \<notin> set g"
      using flush_plain [OF c1(1)] by (auto simp: tls_emit_def)
    obtain r where "effects c' = effects c1 @ r" "sent_ok (drop n data) r" using IH [OF c1(2)] by blast
    then show ?thesis using sent_ok_chunk [of n data r g] g by auto
  next
    case 3
    then obtain c1 where c1: "flushOutbound lib (c\<lparr>engine := s\<rparr>) = Some c1" "f lib data c1 = Some c'"
      using body w by (auto split: bind_splits)
    obtain g where g: "effects c1 = effects c @ g" "taken g = []" "TcpForceClose \<notin> set g" using flush_plain [OF c1(1)] by auto
    obtain r where "effects c' = effects c1 @ r" "sent_ok data r" using IH [OF c1(2)] by blast
    then show ?thesis using sent_ok_flush [of data r g] g by auto
  next
    case 4
    then show ?thesis using body w by (auto simp: tls_emit_def sent_ok_def)
  qed
qed

text \<open>
  When \<^verbatim>\<open>send\<close> on an established connection returns, the library has taken the whole of the data, in order and without gaps, or it has taken a part of it and
  the connection was closed by force.
\<close>

lemma tls_send_takes:
  assumes "tls_send lib data c = Some c'" "handshake_done c" "\<not> tls_closed c"
  shows "\<exists>e. effects c' = effects c @ e \<and> (taken e = data \<or> TcpForceClose \<in> set e \<and> prefix (taken e) data)"
proof -
  obtain e where "effects c' = effects c @ e" "sent_ok data e"
    using send_loop_effects [of lib data c c'] assms by (auto simp: tls_send_def)
  then show ?thesis by (auto simp: sent_ok_def)
qed

section \<open>Loops that return\<close>

text \<open>
  Documented behaviour of the library: reading the output queue takes something from it, and a write takes at least one byte or fails for good.
\<close>

definition queue_drains :: "'s ssl_lib \<Rightarrow> ('s \<Rightarrow> nat) \<Rightarrow> bool" where
  "queue_drains lib pending = (\<forall>s b s'. bio_read lib s = (b, s') \<longrightarrow> b \<noteq> [] \<longrightarrow> pending s' < pending s)"

definition writes_progress :: "'s ssl_lib \<Rightarrow> bool" where
  "writes_progress lib = (\<forall>d s. d \<noteq> [] \<longrightarrow>
     (case fst (ssl_write lib d s) of Done n \<Rightarrow> 0 < n | Fail e \<Rightarrow> e \<noteq> ERR_NONE \<and> e \<noteq> WANT_READ \<and> e \<noteq> WANT_WRITE))"

lemma takeEncrypted_returns:
  assumes "queue_drains lib pending"
  shows "\<exists>out' s'. takeEncrypted lib out s = Some (out', s')"
proof (induction "pending s" arbitrary: s out rule: less_induct)
  case less
  obtain b s' where b: "bio_read lib s = (b, s')" by (cases "bio_read lib s")
  show ?case
  proof (cases "b = []")
    case True
    then show ?thesis using b by (simp add: takeEncrypted.simps [of lib out s])
  next
    case False
    then have "pending s' < pending s" using assms b by (auto simp: queue_drains_def)
    then show ?thesis using less [of s' "out @ b"] b False by (simp add: takeEncrypted.simps [of lib out s])
  qed
qed

lemma flush_returns: "queue_drains lib pending \<Longrightarrow> \<exists>c'. flushOutbound lib c = Some c'"
  using takeEncrypted_returns [of lib pending "[]" "engine c"] by (auto simp: flushOutbound_def Let_def)

text \<open>
  When the library takes a byte or fails for good at every write, and reading its output queue empties it, \<^verbatim>\<open>send\<close> returns for every data.
\<close>

theorem tls_send_returns:
  assumes "queue_drains lib pending" "writes_progress lib"
  shows "\<exists>c'. tls_send lib data c = Some c'"
proof -
  have "\<exists>c'. send_loop lib data c = Some c'"
  proof (induction "length data" arbitrary: data c rule: less_induct)
    case less
    show ?case
    proof (cases "data = []")
      case True
      then show ?thesis by (simp add: send_loop.simps [of lib "[]" c])
    next
      case False
      obtain r s where w: "ssl_write lib data (engine c) = (r, s)" by (cases "ssl_write lib data (engine c)")
      have p: "case r of Done n \<Rightarrow> 0 < n | Fail e \<Rightarrow> e \<noteq> ERR_NONE \<and> e \<noteq> WANT_READ \<and> e \<noteq> WANT_WRITE"
        using assms(2) False w unfolding writes_progress_def by (metis fst_conv)
      show ?thesis
      proof (cases r)
        case (Done n)
        obtain c1 where "flushOutbound lib (tls_emit (Accepted (take n data)) (c\<lparr>engine := s\<rparr>)) = Some c1"
          using flush_returns [OF assms(1)] by blast
        moreover have "length (drop n data) < length data" using Done p False by (simp add: diff_less)
        ultimately show ?thesis using less [of "drop n data" c1] False w Done by (simp add: send_loop.simps [of lib data c] writePlaintext_def)
      next
        case (Fail e)
        then have "mapError e \<noteq> kOk" "mapError e \<noteq> kWantIo" using p by (cases e; simp)+
        then show ?thesis using False w Fail by (simp add: send_loop.simps [of lib data c] writePlaintext_def)
      qed
    qed
  qed
  then show ?thesis by (simp add: tls_send_def)
qed

text \<open>A library that copies its input, for the witnesses: the state is the input queue, the output queue and whether the handshake is over.\<close>

definition copy_lib :: "(string \<times> string) ssl_lib" where
  "copy_lib = \<lparr>do_handshake = (\<lambda>s. (Done (), s)), init_finished = (\<lambda>_. True),
     ssl_write = (\<lambda>d (i, out). (Done 1, (i, out @ take 1 d))),
     ssl_read = (\<lambda>(i, out). if i = [] then (Fail WANT_READ, (i, out)) else (Done i, ([], out))),
     ssl_shutdown = (\<lambda>s. s), bio_write = (\<lambda>d (i, out). (i @ d, out)), bio_read = (\<lambda>(i, out). (out, (i, [])))\<rparr>"

lemma copy_lib_lawful: "queue_drains copy_lib (\<lambda>(i, out). length out)" "writes_progress copy_lib"
  by (auto simp: queue_drains_def writes_progress_def copy_lib_def)

text \<open>
  C20: \<^verbatim>\<open>send\<close> on an established connection. When it returns, the library has taken the whole of the data, in order and without gaps, or a first part of it
  and the connection was closed by force. It does return when every write takes a byte or fails for good and reading the output queue empties it.
\<close>

theorem tls_send_complete:
  assumes "handshake_done c" "\<not> tls_closed c"
  shows "(\<forall>c'. tls_send lib data c = Some c' \<longrightarrow>
      (\<exists>e. effects c' = effects c @ e \<and> (taken e = data \<or> TcpForceClose \<in> set e \<and> prefix (taken e) data))) \<and>
    (queue_drains lib pending \<and> writes_progress lib \<longrightarrow> (\<exists>c'. tls_send lib data c = Some c'))"
  using tls_send_takes [OF _ assms] tls_send_returns by blast

theorem tls_send_complete_witness:
  "\<exists>c' e. tls_send copy_lib ''ab'' ((TlsConn_new ([], []))\<lparr>handshake_done := True\<rparr>) = Some c' \<and> effects c' = e \<and>
     (taken e = ''ab'' \<or> TcpForceClose \<in> set e \<and> prefix (taken e) ''ab'')"
proof -
  let ?c = "(TlsConn_new ([] :: string, [] :: string))\<lparr>handshake_done := True\<rparr>"
  have c: "handshake_done ?c" "\<not> tls_closed ?c" "effects ?c = []" by (simp_all add: TlsConn_new_def)
  have "\<exists>c'. tls_send copy_lib ''ab'' ?c = Some c'" using tls_send_complete [OF c(1,2)] copy_lib_lawful by blast
  then obtain c' where c': "tls_send copy_lib ''ab'' ?c = Some c'" by blast
  moreover have "\<exists>e. effects c' = effects ?c @ e \<and> (taken e = ''ab'' \<or> TcpForceClose \<in> set e \<and> prefix (taken e) ''ab'')"
    by (rule conjunct1 [OF tls_send_complete [OF c(1,2)], rule_format, OF c'])
  ultimately show ?thesis using c(3) by simp
qed

text \<open>
  A write that waits for input from the peer never ends: \<^verbatim>\<open>send\<close> repeats it on the loop thread, which is the thread that would have to read the input.
\<close>

theorem tls_send_spins:
  assumes "handshake_done c" "\<not> tls_closed c" "data \<noteq> []"
    and "ssl_write lib data (engine c) = (Fail WANT_READ, engine c)" "bio_read lib (engine c) = ([], engine c)"
  shows "tls_send lib data c = None"
proof -
  have fl: "flushOutbound lib c = Some c" if "bio_read lib (engine c) = ([], engine c)" for lib :: "'a ssl_lib" and c
    using that by (simp add: flushOutbound_def takeEncrypted.simps [of lib "[]" "engine c"])
  have "send_loop lib data c = Some c' \<Longrightarrow>
      \<not> (data \<noteq> [] \<and> ssl_write lib data (engine c) = (Fail WANT_READ, engine c) \<and> bio_read lib (engine c) = ([], engine c))" for c'
  proof (induction rule: send_loop.raw_induct [where P = "\<lambda>lib data c c'.
      \<not> (data \<noteq> [] \<and> ssl_write lib data (engine c) = (Fail WANT_READ, engine c) \<and> bio_read lib (engine c) = ([], engine c))", rotated, consumes 1])
    case (1 f lib data c c')
    show ?case
    proof
      assume a: "data \<noteq> [] \<and> ssl_write lib data (engine c) = (Fail WANT_READ, engine c) \<and> bio_read lib (engine c) = ([], engine c)"
      then have "f lib data c = Some c'" using 1(2) fl [of lib c] by (simp add: writePlaintext_def)
      from 1(1) [OF this] show False using a by simp
    qed
  qed
  then show ?thesis using assms by (cases "send_loop lib data c") (auto simp: tls_send_def)
qed

theorem tls_send_spins_witness:
  "tls_send (copy_lib\<lparr>ssl_write := (\<lambda>_ s. (Fail WANT_READ, s))\<rparr>) ''a'' ((TlsConn_new ([], []))\<lparr>handshake_done := True\<rparr>) = None"
  by (rule tls_send_spins) (simp_all add: copy_lib_def TlsConn_new_def)

section \<open>Order of the callbacks\<close>

text \<open>
  The order of effects, from whether the handshake was announced and the close was reported: the handshake is announced once, plaintext passes in either
  direction only after it, the close is reported once, and nothing is encrypted after it.
\<close>

fun ordered :: "bool \<Rightarrow> bool \<Rightarrow> tls_effect list \<Rightarrow> bool" where
  "ordered h k [] = True"
| "ordered h k (HandshakeDoneCb # es) = (\<not> h \<and> ordered True k es)"
| "ordered h k (MessageCb m # es) = (h \<and> ordered h k es)"
| "ordered h k (Accepted d # es) = (h \<and> \<not> k \<and> ordered h k es)"
| "ordered h k (CloseCb # es) = (\<not> k \<and> ordered h True es)"
| "ordered h k (_ # es) = ordered h k es"

lemma ordered_append: "ordered h k (a @ b) \<longleftrightarrow> ordered h k a \<and> ordered (h \<or> HandshakeDoneCb \<in> set a) (k \<or> CloseCb \<in> set a) b"
  by (induction h k a rule: ordered.induct) auto

definition in_step :: "'s TlsConn \<Rightarrow> 's TlsConn \<Rightarrow> bool" where
  "in_step c c' =
     (\<exists>e. effects c' = effects c @ e \<and> ordered (handshake_done c) (tls_closed c) e \<and>
       handshake_done c' = (handshake_done c \<or> HandshakeDoneCb \<in> set e) \<and> tls_closed c' = (tls_closed c \<or> CloseCb \<in> set e))"

lemma in_step_refl [simp]: "in_step c c"
  by (simp add: in_step_def)

lemma in_step_trans:
  assumes "in_step a b" "in_step b c"
  shows "in_step a c"
proof -
  obtain e1 where "effects b = effects a @ e1" "ordered (handshake_done a) (tls_closed a) e1"
    "handshake_done b = (handshake_done a \<or> HandshakeDoneCb \<in> set e1)" "tls_closed b = (tls_closed a \<or> CloseCb \<in> set e1)"
    using assms(1) by (auto simp: in_step_def)
  moreover obtain e2 where "effects c = effects b @ e2" "ordered (handshake_done b) (tls_closed b) e2"
    "handshake_done c = (handshake_done b \<or> HandshakeDoneCb \<in> set e2)" "tls_closed c = (tls_closed b \<or> CloseCb \<in> set e2)"
    using assms(2) by (auto simp: in_step_def)
  ultimately show ?thesis unfolding in_step_def by (intro exI [of _ "e1 @ e2"]) (auto simp: ordered_append)
qed

lemma in_step_engine [simp]: "in_step (c\<lparr>engine := s\<rparr>) c' = in_step c c'" "in_step c (c'\<lparr>engine := s\<rparr>) = in_step c c'"
  by (simp_all add: in_step_def)

lemma in_step_emit:
  "ordered (handshake_done c) (tls_closed c) [e] \<Longrightarrow> e \<noteq> HandshakeDoneCb \<Longrightarrow> e \<noteq> CloseCb \<Longrightarrow> in_step c (tls_emit e c)"
  by (auto simp: in_step_def tls_emit_def)

lemma in_step_flush: "flushOutbound lib c = Some c' \<Longrightarrow> in_step c c'"
  by (auto simp: flushOutbound_def Let_def in_step_def tls_emit_def split: option.splits if_splits)

lemma in_step_flags: "in_step c c' \<Longrightarrow> (handshake_done c \<longrightarrow> handshake_done c') \<and> (tls_closed c \<longrightarrow> tls_closed c')"
  by (auto simp: in_step_def)

text \<open>The loop keeps both flags, so every chunk is encrypted on an open connection.\<close>

lemma flush_flags: "flushOutbound lib c = Some c' \<Longrightarrow> handshake_done c' = handshake_done c \<and> tls_closed c' = tls_closed c"
  using flush_effects [of lib c c'] by auto

lemma in_step_send_loop:
  assumes "send_loop lib data c = Some c'" "handshake_done c" "\<not> tls_closed c"
  shows "in_step c c'"
proof -
  have "handshake_done c \<longrightarrow> \<not> tls_closed c \<longrightarrow> in_step c c'"
  proof (rule send_loop.raw_induct [where P = "\<lambda>lib data c c'. handshake_done c \<longrightarrow> \<not> tls_closed c \<longrightarrow> in_step c c'", OF _ assms(1)], intro impI)
    fix f :: "'a ssl_lib \<Rightarrow> string \<Rightarrow> 'a TlsConn \<Rightarrow> 'a TlsConn option" and lib data and c c' :: "'a TlsConn"
    assume IH: "\<And>lib data c c'. f lib data c = Some c' \<Longrightarrow> handshake_done c \<longrightarrow> \<not> tls_closed c \<longrightarrow> in_step c c'"
      and h: "handshake_done c" "\<not> tls_closed c"
    obtain st n s where w: "writePlaintext lib data (engine c) = (st, n, s)" by (cases "writePlaintext lib data (engine c)")
    let ?a = "tls_emit (Accepted (take n data)) (c\<lparr>engine := s\<rparr>)"
    assume body: "(if data = [] then Some c
        else case writePlaintext lib data (engine c) of
          (st, n, s) \<Rightarrow>
            if st = kOk
            then Option.bind (flushOutbound lib (tls_emit (Accepted (take n data)) (c\<lparr>engine := s\<rparr>))) (f lib (drop n data))
            else if st = kWantIo then Option.bind (flushOutbound lib (c\<lparr>engine := s\<rparr>)) (f lib data)
            else Some (tls_emit TcpForceClose (c\<lparr>engine := s\<rparr>))) = Some c'"
    have a: "in_step c ?a" using in_step_emit [of "c\<lparr>engine := s\<rparr>" "Accepted (take n data)"] h by simp
    have a': "handshake_done ?a" "\<not> tls_closed ?a" using h by (simp_all add: tls_emit_def)
    consider "data = []" | "data \<noteq> []" "st = kOk" | "data \<noteq> []" "st = kWantIo" | "data \<noteq> []" "st \<noteq> kOk" "st \<noteq> kWantIo" by blast
    then show "in_step c c'"
    proof cases
      case 1
      then show ?thesis using body by simp
    next
      case 2
      then obtain c1 where c1: "flushOutbound lib ?a = Some c1" "f lib (drop n data) c1 = Some c'"
        using body w by (auto split: bind_splits)
      have "in_step c1 c'" using IH [OF c1(2)] flush_flags [OF c1(1)] a' by simp
      then show ?thesis using a in_step_flush [OF c1(1)] in_step_trans by blast
    next
      case 3
      then obtain c1 where c1: "flushOutbound lib (c\<lparr>engine := s\<rparr>) = Some c1" "f lib data c1 = Some c'"
        using body w by (auto split: bind_splits)
      have "in_step c1 c'" using IH [OF c1(2)] flush_flags [OF c1(1)] h by simp
      moreover have "in_step c c1" using in_step_flush [OF c1(1)] by simp
      ultimately show ?thesis using in_step_trans by blast
    next
      case 4
      then have "c' = tls_emit TcpForceClose (c\<lparr>engine := s\<rparr>)" using body w by auto
      then show ?thesis using in_step_emit [of "c\<lparr>engine := s\<rparr>" TcpForceClose] by simp
    qed
  qed
  then show ?thesis using assms(2,3) by simp
qed

lemma in_step_send: "tls_send lib data c = Some c' \<Longrightarrow> in_step c c'"
  by (auto simp: tls_send_def split: if_splits dest: in_step_send_loop)

lemma in_step_shutdown: "tls_shutdown lib c = Some c' \<Longrightarrow> in_step c c'"
proof (cases "tls_closed c")
  case False
  assume "tls_shutdown lib c = Some c'"
  then obtain c1 where c1: "flushOutbound lib (c\<lparr>engine := ssl_shutdown lib (engine c)\<rparr>) = Some c1" "c' = tls_emit TcpShutdown c1"
    using False by (auto simp: tls_shutdown_def)
  have "in_step c c1" using in_step_flush [OF c1(1)] by simp
  moreover have "in_step c1 c'" using in_step_emit [of c1 TcpShutdown] c1(2) by simp
  ultimately show ?thesis by (rule in_step_trans)
qed (simp add: tls_shutdown_def)

lemma in_step_calls: "run_calls lib us c = Some c' \<Longrightarrow> in_step c c'"
proof (induction lib us c rule: run_calls.induct)
  case (2 lib d us c)
  then show ?case using in_step_send in_step_trans by (fastforce split: bind_splits)
next
  case (3 lib us c)
  then show ?case using in_step_shutdown in_step_trans by (fastforce split: bind_splits)
qed simp

lemma in_step_drive:
  assumes "driveHandshake lib u c = Some c'" "on_handshake u = Some us"
  shows "in_step c c'"
proof (cases "handshake_done c \<or> tls_closed c")
  case True
  then show ?thesis using assms(1) by (simp add: driveHandshake_def)
next
  case False
  obtain st s where hs: "handshake lib (engine c) = (st, s)" by (cases "handshake lib (engine c)")
  obtain c1 where c1: "flushOutbound lib (c\<lparr>engine := s\<rparr>) = Some c1" using assms(1) False hs by (auto simp: driveHandshake_def split: bind_splits)
  have "in_step c c1" using in_step_flush [OF c1] by simp
  have f: "\<not> handshake_done c1" using flush_flags [OF c1] False by simp
  have e: "in_step c1 (tls_emit HandshakeDoneCb (c1\<lparr>handshake_done := True\<rparr>))" using f by (simp add: in_step_def tls_emit_def)
  consider "st = kError" | "st \<noteq> kError" "init_finished lib (engine c1)" | "st \<noteq> kError" "\<not> init_finished lib (engine c1)" by blast
  then have "in_step c1 c'"
  proof cases
    case 1
    then show ?thesis using assms(1) False hs c1 in_step_emit [of c1 TcpForceClose] by (simp add: driveHandshake_def)
  next
    case 2
    then have "run_calls lib us (tls_emit HandshakeDoneCb (c1\<lparr>handshake_done := True\<rparr>)) = Some c'"
      using assms False hs c1 by (simp add: driveHandshake_def)
    then show ?thesis using in_step_calls e in_step_trans by blast
  next
    case 3
    then show ?thesis using assms(1) False hs c1 by (simp add: driveHandshake_def)
  qed
  with \<open>in_step c c1\<close> show ?thesis by (rule in_step_trans)
qed

lemma in_step_read:
  assumes "read_app lib u c = Some c'" "handshake_done c"
  shows "in_step c c'"
proof -
  obtain st p s where r: "readPlaintext lib [] (engine c) = Some (st, p, s)" using assms(1) by (auto simp: read_app_def split: option.splits)
  obtain c1 where c1: "flushOutbound lib (c\<lparr>engine := s\<rparr>) = Some c1" using assms(1) r by (auto simp: read_app_def split: bind_splits)
  let ?m = "if p \<noteq> [] then (case on_message u of None \<Rightarrow> Some c1 | Some f \<Rightarrow> run_calls lib (f p) (tls_emit (MessageCb p) c1)) else Some c1"
  obtain c2 where c2: "?m = Some c2" "c' = (if st = kClosed then tls_emit TcpShutdown c2 else if st = kError then tls_emit TcpForceClose c2 else c2)"
    using assms(1) r c1 by (auto simp: read_app_def split: bind_splits)
  have s1: "in_step c c1" using in_step_flush [OF c1] by simp
  have "in_step c1 (tls_emit (MessageCb p) c1)" using in_step_emit [of c1 "MessageCb p"] in_step_flags [OF s1] assms(2) by simp
  then have "in_step c1 c2" using c2(1) by (auto split: if_splits option.splits dest: in_step_calls in_step_trans)
  moreover have "in_step c2 c'" using c2(2) in_step_emit [of c2 TcpShutdown] in_step_emit [of c2 TcpForceClose] by simp
  ultimately show ?thesis using s1 in_step_trans by blast
qed

text \<open>Everything that can happen to a connection.\<close>

datatype tls_event = EStart | EData string | EClose | ECall user_call

fun tls_handle :: "'s ssl_lib \<Rightarrow> user \<Rightarrow> tls_event \<Rightarrow> 's TlsConn \<Rightarrow> 's TlsConn option" where
  "tls_handle lib u EStart c = tls_start lib u c"
| "tls_handle lib u (EData d) c = onTcpMessage lib u d c"
| "tls_handle lib u EClose c = onTcpClose lib u c"
| "tls_handle lib u (ECall q) c = run_calls lib [q] c"

fun tls_run :: "'s ssl_lib \<Rightarrow> user \<Rightarrow> tls_event list \<Rightarrow> 's TlsConn \<Rightarrow> 's TlsConn option" where
  "tls_run lib u [] c = Some c"
| "tls_run lib u (e # es) c = Option.bind (tls_handle lib u e c) (tls_run lib u es)"

lemma in_step_handle:
  assumes "tls_handle lib u e c = Some c'" "on_handshake u = Some hs" "on_close u = Some cl"
  shows "in_step c c'"
proof (cases e)
  case EStart
  then show ?thesis using assms in_step_drive by (auto simp: tls_start_def)
next
  case (EData d)
  let ?c1 = "c\<lparr>engine := feedEncrypted lib d (engine c)\<rparr>"
  show ?thesis
  proof (cases "handshake_done c")
    case True
    then have "in_step ?c1 c'" using assms(1) EData in_step_read [of lib u ?c1 c'] by (simp add: onTcpMessage_def Let_def)
    then show ?thesis by simp
  next
    case False
    then obtain c2 where c2: "driveHandshake lib u ?c1 = Some c2" "(if \<not> handshake_done c2 then Some c2 else read_app lib u c2) = Some c'"
      using assms(1) EData by (auto simp: onTcpMessage_def Let_def split: bind_splits)
    have "in_step c c2" using in_step_drive [OF c2(1) assms(2)] by simp
    moreover have "in_step c2 c'" using c2(2) in_step_read by (auto split: if_splits)
    ultimately show ?thesis by (rule in_step_trans)
  qed
next
  case EClose
  have "\<not> tls_closed c \<Longrightarrow> in_step c (tls_emit CloseCb (c\<lparr>tls_closed := True\<rparr>))" by (simp add: in_step_def tls_emit_def)
  then show ?thesis using assms EClose in_step_calls in_step_trans by (fastforce simp: onTcpClose_def Let_def split: if_splits)
next
  case (ECall q)
  then show ?thesis using assms(1) in_step_calls by fastforce
qed

text \<open>
  C21: whatever arrives and whatever the application calls, in its callbacks and outside them, the handshake is announced once, plaintext is delivered or
  encrypted only after that, the close is reported at most once, and nothing is encrypted after it.
\<close>

theorem tls_callbacks_ordered:
  assumes "tls_run lib u es (TlsConn_new s) = Some c" "on_handshake u \<noteq> None" "on_close u \<noteq> None"
  shows "ordered False False (effects c)"
proof -
  have "tls_run lib u es c0 = Some c \<Longrightarrow> in_step c0 c" for c0
  proof (induction es arbitrary: c0)
    case (Cons e es)
    then obtain c1 where "tls_handle lib u e c0 = Some c1" "tls_run lib u es c1 = Some c" by (auto split: bind_splits)
    then show ?case using Cons.IH in_step_handle assms(2,3) in_step_trans by blast
  qed simp
  from this [OF assms(1)] show ?thesis by (simp add: in_step_def TlsConn_new_def)
qed

theorem tls_callbacks_ordered_witness:
  "\<exists>c. tls_run copy_lib \<lparr>on_handshake = Some [USend ''hi''], on_message = Some (\<lambda>m. [USend m]), on_close = Some []\<rparr>
      [EStart, EData ''x'', EClose, ECall (USend ''late'')] (TlsConn_new ([], [])) = Some c \<and>
    ordered False False (effects c) \<and> taken (effects c) = ''hix''"
proof -
  let ?u = "\<lparr>on_handshake = Some [USend ''hi''], on_message = Some (\<lambda>m. [USend m]), on_close = Some []\<rparr>"
  let ?es = "[EStart, EData ''x'', EClose, ECall (USend ''late'')]"
  have "\<exists>c. tls_run copy_lib ?u ?es (TlsConn_new ([], [])) = Some c \<and> taken (effects c) = ''hix''"
    by (simp add: tls_start_def driveHandshake_def handshake_def onTcpMessage_def onTcpClose_def read_app_def feedEncrypted_def tls_send_def TlsConn_new_def
        send_loop.simps takeEncrypted.simps readPlaintext.simps writePlaintext_def flushOutbound_def tls_emit_def copy_lib_def Let_def)
  then obtain c where c: "tls_run copy_lib ?u ?es (TlsConn_new ([], [])) = Some c" "taken (effects c) = ''hix''" by blast
  then show ?thesis using tls_callbacks_ordered [OF c(1)] by auto
qed

end
