(* ===== verification/Tls_Ocsp.thy ===== *)
theory Tls_Ocsp
  imports Cox_Prelude Complex_Main
begin

text \<open>
  OCSP stapling, \<^verbatim>\<open>tls/ocsp_stapler.cc\<close>: validation and caching of a response, the fetch, the callback of the handshake, and the automatic refresh over
  a loop and a thread pool. OpenSSL is a parameter: how a response parses, and which of the steps of a fetch succeed. The refresh is a step relation: timers of the loop, tasks posted to the
  loop and tasks of the pool run in any order. A pointer to the scheduling state is a number; \<open>None\<close> is its use after it was freed. The theory
  shows what is ever cached, that the refresh is one chain of activities which neither breaks nor doubles and ends when stopped, the bounds of its
  delay, and when a response is served that should not be.
\<close>

section \<open>Responses\<close>

datatype cert_status = StatusGood | StatusRevoked | StatusUnknown

text \<open>A single response with what \<^verbatim>\<open>OCSP_check_validity\<close> says of it at a time, and its next update in seconds of the epoch.\<close>

record single_response =
  status :: cert_status
  valid_at :: "int \<Rightarrow> bool"
  next_update :: "int option"

text \<open>A response that parses: whether its status is successful, and the single responses of its basic response, if it has one.\<close>

record ocsp_response =
  successful :: bool
  basic :: "single_response list option"

record OcspStapler =
  response_der :: string
  next_update_epoch :: int
  responder_url :: string

definition OcspStapler_new :: OcspStapler where
  "OcspStapler_new = \<lparr>response_der = [], next_update_epoch = 0, responder_url = []\<rparr>"

definition asn1TimeToEpoch :: "int option \<Rightarrow> int" where
  "asn1TimeToEpoch t = (case t of None \<Rightarrow> 0 | Some s \<Rightarrow> s)"

definition setResponseDer :: "(string \<Rightarrow> ocsp_response option) \<Rightarrow> int \<Rightarrow> string \<Rightarrow> OcspStapler \<Rightarrow> bool \<times> OcspStapler" where
  "setResponseDer parse now der st =
     (if der = [] then (False, st)
      else case parse der of
        None \<Rightarrow> (False, st)
      | Some resp \<Rightarrow>
          if \<not> successful resp then (False, st)
          else (case basic resp of
                  None \<Rightarrow> (False, st)
                | Some [] \<Rightarrow> (True, st\<lparr>response_der := der, next_update_epoch := 0\<rparr>)
                | Some (single # _) \<Rightarrow>
                    if status single \<noteq> StatusGood then (False, st)
                    else if \<not> valid_at single now then (False, st)
                    else (True, st\<lparr>response_der := der, next_update_epoch := asn1TimeToEpoch (next_update single)\<rparr>)))"

definition loadFromFile :: "(string \<Rightarrow> ocsp_response option) \<Rightarrow> int \<Rightarrow> string option \<Rightarrow> OcspStapler \<Rightarrow> bool \<times> OcspStapler" where
  "loadFromFile parse now file st = (case file of None \<Rightarrow> (False, st) | Some der \<Rightarrow> setResponseDer parse now der st)"

text \<open>The steps of a fetch: what is found on disk and which calls succeed; \<open>answer\<close> is the response as DER.\<close>

record fetch =
  cert_found :: bool
  issuer_found :: bool
  aia_url :: string
  url_parses :: bool
  request_made :: bool
  id_made :: bool
  id_added :: bool
  bio_made :: bool
  connects :: bool
  answer :: "string option"

definition responderUrl :: "fetch \<Rightarrow> OcspStapler \<Rightarrow> string" where
  "responderUrl f st = (if responder_url st \<noteq> [] then responder_url st else if \<not> cert_found f then [] else aia_url f)"

definition refresh :: "(string \<Rightarrow> ocsp_response option) \<Rightarrow> int \<Rightarrow> fetch \<Rightarrow> OcspStapler \<Rightarrow> bool \<times> OcspStapler" where
  "refresh parse now f st =
     (if \<not> cert_found f \<or> \<not> issuer_found f then (False, st)
      else if responderUrl f st = [] then (False, st)
      else if \<not> url_parses f then (False, st)
      else if \<not> request_made f then (False, st)
      else if \<not> id_made f then (False, st)
      else if \<not> id_added f then (False, st)
      else if \<not> bio_made f then (False, st)
      else if \<not> connects f then (False, st)
      else case answer f of None \<Rightarrow> (False, st) | Some der \<Rightarrow> setResponseDer parse now der st)"

definition hasResponse :: "OcspStapler \<Rightarrow> bool" where
  "hasResponse st = (response_der st \<noteq> [])"

definition secondsUntilExpiry :: "int \<Rightarrow> OcspStapler \<Rightarrow> int" where
  "secondsUntilExpiry now st =
     (if response_der st = [] then 0
      else if next_update_epoch st = 0 then - 1
      else let remaining = next_update_epoch st - now in if remaining > 0 then remaining else 0)"

text \<open>The callback of a handshake: the staple it attaches, unless the copy or the call fails.\<close>

definition statusCallback :: "bool \<Rightarrow> bool \<Rightarrow> OcspStapler \<Rightarrow> string option" where
  "statusCallback malloc_ok set_ok st =
     (if response_der st = [] then None else if \<not> malloc_ok then None else if \<not> set_ok then None else Some (response_der st))"

section \<open>The delay of the next refresh\<close>

record OcspRefreshOptions =
  refresh_ratio :: real
  min_seconds :: int
  max_seconds :: int
  fallback_seconds :: int
  retry_seconds :: int
  refresh_now :: bool

definition default_options :: OcspRefreshOptions where
  "default_options = \<lparr>refresh_ratio = 1 / 2, min_seconds = 300, max_seconds = 24 * 3600, fallback_seconds = 3600, retry_seconds = 300, refresh_now = True\<rparr>"

text \<open>\<^verbatim>\<open>std::clamp\<close> and the conversion of a \<^verbatim>\<open>double\<close> towards zero; \<open>rnd\<close> is the rounding of the product.\<close>

definition clamp :: "int \<Rightarrow> int \<Rightarrow> int \<Rightarrow> int" where
  "clamp v lo hi = (if v < lo then lo else if hi < v then hi else v)"

definition truncate_real :: "real \<Rightarrow> int" where
  "truncate_real x = (if x < 0 then \<lceil>x\<rceil> else \<lfloor>x\<rfloor>)"

definition refresh_delay :: "(real \<Rightarrow> real) \<Rightarrow> OcspRefreshOptions \<Rightarrow> int \<Rightarrow> int" where
  "refresh_delay rnd opts remaining =
     (if remaining > 0 then clamp (truncate_real (rnd (real_of_int remaining * refresh_ratio opts))) (min_seconds opts) (max_seconds opts)
      else if remaining < 0 then fallback_seconds opts
      else retry_seconds opts)"

section \<open>Automatic refresh\<close>

datatype loop_task = LCycle | LSchedule

record AutoRefresh =
  opts :: OcspRefreshOptions
  timer_armed :: bool
  stopped :: bool

text \<open>
  The stapler with the loop and the pool: \<open>auto\<close> is the number of the current scheduling state, \<open>states\<close> holds those that are not freed. A pending timer is its
  delay in seconds; the timer the state remembers is the last one armed.
\<close>

record ocsp_sys =
  stapler :: OcspStapler
  auto :: "nat option"
  states :: "nat \<rightharpoonup> AutoRefresh"
  fresh :: nat
  timers :: "int list"
  loop_tasks :: "loop_task list"
  pool_tasks :: "nat list"

definition ocsp_sys_new :: ocsp_sys where
  "ocsp_sys_new = \<lparr>stapler = OcspStapler_new, auto = None, states = Map.empty, fresh = 0, timers = [], loop_tasks = [], pool_tasks = []\<rparr>"

definition current_auto :: "ocsp_sys \<Rightarrow> AutoRefresh option" where
  "current_auto s = Option.bind (auto s) (states s)"

definition set_auto :: "AutoRefresh \<Rightarrow> ocsp_sys \<Rightarrow> ocsp_sys" where
  "set_auto a s = (case auto s of None \<Rightarrow> s | Some i \<Rightarrow> s\<lparr>states := (states s)(i \<mapsto> a)\<rparr>)"

definition scheduleNextRefresh :: "(real \<Rightarrow> real) \<Rightarrow> int \<Rightarrow> ocsp_sys \<Rightarrow> ocsp_sys" where
  "scheduleNextRefresh rnd now s =
     (case current_auto s of
        None \<Rightarrow> s
      | Some a \<Rightarrow>
          if stopped a then s
          else set_auto (a\<lparr>timer_armed := True\<rparr>)
            (s\<lparr>timers := timers s @ [refresh_delay rnd (opts a) (secondsUntilExpiry now (stapler s))]\<rparr>))"

definition startAutoRefresh :: "(real \<Rightarrow> real) \<Rightarrow> int \<Rightarrow> OcspRefreshOptions \<Rightarrow> ocsp_sys \<Rightarrow> ocsp_sys" where
  "startAutoRefresh rnd now op s =
     (let s1 = s\<lparr>auto := Some (fresh s), fresh := fresh s + 1,
                 states := (case auto s of None \<Rightarrow> states s | Some i \<Rightarrow> (states s)(i := None))(fresh s \<mapsto> \<lparr>opts = op, timer_armed = False, stopped = False\<rparr>)\<rparr>
      in if refresh_now op then s1\<lparr>loop_tasks := loop_tasks s1 @ [LCycle]\<rparr> else scheduleNextRefresh rnd now s1)"

text \<open>Cancelling removes the remembered timer, the last one armed.\<close>

definition stopAutoRefresh :: "ocsp_sys \<Rightarrow> ocsp_sys" where
  "stopAutoRefresh s =
     (case current_auto s of
        None \<Rightarrow> s
      | Some a \<Rightarrow>
          let s1 = set_auto (a\<lparr>stopped := True, timer_armed := False\<rparr>) s
          in if timer_armed a then s1\<lparr>timers := butlast (timers s1)\<rparr> else s1)"

text \<open>\<open>queued\<close> is the answer of the pool's \<^verbatim>\<open>tryRun\<close>.\<close>

definition doRefreshCycle :: "(real \<Rightarrow> real) \<Rightarrow> int \<Rightarrow> bool \<Rightarrow> ocsp_sys \<Rightarrow> ocsp_sys" where
  "doRefreshCycle rnd now queued s =
     (case current_auto s of
        None \<Rightarrow> s
      | Some a \<Rightarrow>
          if stopped a then s
          else let s1 = set_auto (a\<lparr>timer_armed := False\<rparr>) s
            in if queued then s1\<lparr>pool_tasks := pool_tasks s1 @ [the (auto s1)]\<rparr> else scheduleNextRefresh rnd now s1)"

text \<open>The pool's task: the fetch, then the check of the state it captured.\<close>

definition refresh_task :: "(string \<Rightarrow> ocsp_response option) \<Rightarrow> int \<Rightarrow> fetch \<Rightarrow> nat \<Rightarrow> ocsp_sys \<Rightarrow> ocsp_sys option" where
  "refresh_task parse now f i s =
     (let s1 = s\<lparr>stapler := snd (refresh parse now f (stapler s))\<rparr> in
      case states s1 i of
        None \<Rightarrow> None
      | Some a \<Rightarrow> Some (if stopped a then s1 else s1\<lparr>loop_tasks := loop_tasks s1 @ [LSchedule]\<rparr>))"

fun run_loop_task :: "(real \<Rightarrow> real) \<Rightarrow> int \<Rightarrow> bool \<Rightarrow> loop_task \<Rightarrow> ocsp_sys \<Rightarrow> ocsp_sys" where
  "run_loop_task rnd now queued LCycle s = doRefreshCycle rnd now queued s"
| "run_loop_task rnd now queued LSchedule s = scheduleNextRefresh rnd now s"

text \<open>One step of the loop or of the pool, or a stop; a failed step is a use after free.\<close>

inductive ocsp_step :: "(real \<Rightarrow> real) \<Rightarrow> (string \<Rightarrow> ocsp_response option) \<Rightarrow> ocsp_sys \<Rightarrow> ocsp_sys option \<Rightarrow> bool" for rnd parse where
  fire: "timers s = xs @ d # ys \<Longrightarrow> ocsp_step rnd parse s (Some (doRefreshCycle rnd now queued (s\<lparr>timers := xs @ ys\<rparr>)))"
| loop: "loop_tasks s = t # ts \<Longrightarrow> ocsp_step rnd parse s (Some (run_loop_task rnd now queued t (s\<lparr>loop_tasks := ts\<rparr>)))"
| pool: "pool_tasks s = xs @ i # ys \<Longrightarrow> ocsp_step rnd parse s (refresh_task parse now f i (s\<lparr>pool_tasks := xs @ ys\<rparr>))"
| stop: "ocsp_step rnd parse s (Some (stopAutoRefresh s))"

inductive ocsp_reachable :: "(real \<Rightarrow> real) \<Rightarrow> (string \<Rightarrow> ocsp_response option) \<Rightarrow> ocsp_sys option \<Rightarrow> bool" for rnd parse where
  start: "ocsp_reachable rnd parse (Some (startAutoRefresh rnd now op ocsp_sys_new))"
| step: "ocsp_reachable rnd parse (Some s) \<Longrightarrow> ocsp_step rnd parse s r \<Longrightarrow> ocsp_reachable rnd parse r"

section \<open>What is cached\<close>

definition stapleable :: "(string \<Rightarrow> ocsp_response option) \<Rightarrow> string \<Rightarrow> bool" where
  "stapleable parse der =
     (\<exists>resp singles. parse der = Some resp \<and> successful resp \<and> basic resp = Some singles \<and>
       (singles = [] \<or> status (hd singles) = StatusGood \<and> (\<exists>now. valid_at (hd singles) now)))"

lemma setResponseDer_cases:
  assumes "setResponseDer parse now der st = (ok, st')"
  shows "(ok \<and> stapleable parse der \<and> response_der st' = der \<and> der \<noteq> []) \<or> (\<not> ok \<and> st' = st)"
  using assms by (auto simp: setResponseDer_def stapleable_def split: if_splits option.splits list.splits)

lemma refresh_cases:
  assumes "refresh parse now f st = (ok, st')"
  shows "(ok \<and> stapleable parse (response_der st')) \<or> (\<not> ok \<and> st' = st)"
proof (cases "ok")
  case True
  then obtain der where "setResponseDer parse now der st = (True, st')" using assms by (auto simp: refresh_def split: if_splits option.splits)
  then show ?thesis using setResponseDer_cases True by blast
next
  case False
  then show ?thesis using assms by (auto simp: refresh_def split: if_splits option.splits dest: setResponseDer_cases)
qed

text \<open>A failed fetch, whatever step it fails at, leaves the cached response as it was.\<close>

lemma refresh_failure_keeps: "fst (refresh parse now f st) = False \<Longrightarrow> snd (refresh parse now f st) = st"
  using refresh_cases [of parse now f st] by (cases "refresh parse now f st") auto

section \<open>The refresh chain\<close>

definition activities :: "ocsp_sys \<Rightarrow> nat" where
  "activities s = length (timers s) + length (loop_tasks s) + length (pool_tasks s)"

definition chain_inv :: "(string \<Rightarrow> ocsp_response option) \<Rightarrow> ocsp_sys \<Rightarrow> bool" where
  "chain_inv parse s =
     (auto s = Some 0 \<and> set (pool_tasks s) \<subseteq> {0} \<and>
      (response_der (stapler s) = [] \<or> stapleable parse (response_der (stapler s))) \<and>
      (\<exists>a. states s 0 = Some a \<and> timer_armed a = (timers s \<noteq> []) \<and> (if stopped a then timers s = [] \<and> activities s \<le> 1 else activities s = 1)))"

lemmas ocsp_ops = scheduleNextRefresh_def doRefreshCycle_def stopAutoRefresh_def current_auto_def set_auto_def activities_def

lemma chain_invI:
  assumes "auto s = Some 0" "set (pool_tasks s) \<subseteq> {0}" "response_der (stapler s) = [] \<or> stapleable parse (response_der (stapler s))"
    and "states s 0 = Some a" "timer_armed a = (timers s \<noteq> [])" "if stopped a then timers s = [] \<and> activities s \<le> 1 else activities s = 1"
  shows "chain_inv parse s"
  unfolding chain_inv_def using assms by blast

text \<open>A state in which no activity is pending, as a step of the chain finds it.\<close>

definition chain_idle :: "(string \<Rightarrow> ocsp_response option) \<Rightarrow> AutoRefresh \<Rightarrow> ocsp_sys \<Rightarrow> bool" where
  "chain_idle parse a s =
     (auto s = Some 0 \<and> (response_der (stapler s) = [] \<or> stapleable parse (response_der (stapler s))) \<and> states s 0 = Some a \<and>
      timers s = [] \<and> loop_tasks s = [] \<and> pool_tasks s = [] \<and> (stopped a \<longrightarrow> \<not> timer_armed a))"

lemma chain_schedule:
  assumes "chain_idle parse a s"
  shows "chain_inv parse (scheduleNextRefresh rnd now s)"
proof (cases "stopped a")
  case True
  then have "scheduleNextRefresh rnd now s = s" using assms by (simp add: scheduleNextRefresh_def current_auto_def chain_idle_def)
  moreover have "chain_inv parse s" using True assms by (intro chain_invI [of s parse a]) (simp_all add: chain_idle_def activities_def)
  ultimately show ?thesis by simp
next
  case False
  let ?s = "s\<lparr>timers := [refresh_delay rnd (opts a) (secondsUntilExpiry now (stapler s))], states := (states s)(0 \<mapsto> a\<lparr>timer_armed := True\<rparr>)\<rparr>"
  have "scheduleNextRefresh rnd now s = ?s" using False assms by (simp add: scheduleNextRefresh_def current_auto_def set_auto_def chain_idle_def)
  moreover have "chain_inv parse ?s"
    using False assms by (intro chain_invI [of ?s parse "a\<lparr>timer_armed := True\<rparr>"]) (simp_all add: chain_idle_def activities_def)
  ultimately show ?thesis by simp
qed

lemma chain_cycle:
  assumes "chain_idle parse a s"
  shows "chain_inv parse (doRefreshCycle rnd now queued s)"
proof (cases "stopped a")
  case True
  then have "doRefreshCycle rnd now queued s = s" using assms by (simp add: doRefreshCycle_def current_auto_def chain_idle_def)
  moreover have "chain_inv parse s" using True assms by (intro chain_invI [of s parse a]) (simp_all add: chain_idle_def activities_def)
  ultimately show ?thesis by simp
next
  case False
  let ?a = "a\<lparr>timer_armed := False\<rparr>"
  let ?s = "s\<lparr>states := (states s)(0 \<mapsto> ?a)\<rparr>"
  have d: "doRefreshCycle rnd now queued s = (if queued then ?s\<lparr>pool_tasks := [0]\<rparr> else scheduleNextRefresh rnd now ?s)"
    using False assms by (simp add: doRefreshCycle_def current_auto_def set_auto_def chain_idle_def Let_def)
  have "chain_idle parse ?a ?s" using assms by (simp add: chain_idle_def)
  then have "chain_inv parse (scheduleNextRefresh rnd now ?s)" by (rule chain_schedule)
  moreover have "chain_inv parse (?s\<lparr>pool_tasks := [0]\<rparr>)"
    using False assms by (intro chain_invI [of "?s\<lparr>pool_tasks := [0]\<rparr>" parse ?a]) (simp_all add: chain_idle_def activities_def)
  ultimately show ?thesis by (simp add: d)
qed

lemma one_activity:
  assumes "activities s \<le> 1"
  shows "timers s = xs @ d # ys \<Longrightarrow> xs = [] \<and> ys = [] \<and> loop_tasks s = [] \<and> pool_tasks s = []"
    "loop_tasks s = t # ts \<Longrightarrow> ts = [] \<and> timers s = [] \<and> pool_tasks s = []"
    "pool_tasks s = zs @ i # ws \<Longrightarrow> zs = [] \<and> ws = [] \<and> timers s = [] \<and> loop_tasks s = []"
  using assms by (auto simp: activities_def)

lemma chain_step:
  assumes "ocsp_step rnd parse s r" "chain_inv parse s"
  shows "\<exists>s'. r = Some s' \<and> chain_inv parse s'"
proof -
  obtain a where a: "auto s = Some 0" "set (pool_tasks s) \<subseteq> {0}" "response_der (stapler s) = [] \<or> stapleable parse (response_der (stapler s))"
    "states s 0 = Some a" "timer_armed a = (timers s \<noteq> [])" "if stopped a then timers s = [] \<and> activities s \<le> 1 else activities s = 1"
    using assms(2) by (auto simp: chain_inv_def)
  then have one: "activities s \<le> 1" by (simp split: if_splits)
  show ?thesis using assms(1)
  proof cases
    case (fire xs d ys now queued)
    then have "\<not> stopped a" using a(6) by auto
    then have "chain_idle parse a (s\<lparr>timers := xs @ ys\<rparr>)" using one_activity(1) [OF one fire(2)] a by (simp add: chain_idle_def)
    then show ?thesis using fire(1) chain_cycle by blast
  next
    case (loop t ts now queued)
    have "chain_idle parse a (s\<lparr>loop_tasks := ts\<rparr>)" using one_activity(2) [OF one loop(2)] a by (simp add: chain_idle_def)
    then have "chain_inv parse (run_loop_task rnd now queued t (s\<lparr>loop_tasks := ts\<rparr>))"
      using chain_cycle chain_schedule by (cases t) simp_all
    then show ?thesis using loop(1) by blast
  next
    case (pool xs i ys now f)
    have p: "xs = []" "ys = []" "timers s = []" "loop_tasks s = []" using one_activity(3) [OF one pool(2)] by auto
    have i: "i = 0" using a(2) pool(2) by auto
    let ?st = "snd (refresh parse now f (stapler s))"
    have "response_der ?st = [] \<or> stapleable parse (response_der ?st)"
      using refresh_cases [of parse now f "stapler s"] a(3) by (cases "refresh parse now f (stapler s)") auto
    then show ?thesis using pool p i a by (auto simp: refresh_task_def chain_inv_def activities_def Let_def)
  next
    case stop
    have "butlast (timers s) = []" using one by (cases "timers s") (auto simp: activities_def)
    then show ?thesis using stop a one by (auto simp: chain_inv_def ocsp_ops Let_def length_butlast split: if_splits)
  qed
qed

lemma chain_reachable: "ocsp_reachable rnd parse r \<Longrightarrow> \<exists>s. r = Some s \<and> chain_inv parse s"
proof (induction rule: ocsp_reachable.induct)
  case (start now op)
  show ?case by (auto simp: startAutoRefresh_def ocsp_sys_new_def OcspStapler_new_def chain_inv_def ocsp_ops Let_def)
next
  case (step s r)
  then show ?case using chain_step by blast
qed



text \<open>After a stop every step but another stop uses up an activity.\<close>

lemma stopped_chain_ends:
  assumes "chain_inv parse s" "states s 0 = Some a" "stopped a" "ocsp_step rnd parse s (Some s')" "s' \<noteq> stopAutoRefresh s"
  shows "activities s' = 0"
proof -
  have one: "activities s \<le> 1" "timers s = []" "auto s = Some 0" "set (pool_tasks s) \<subseteq> {0}" using assms(1-3) by (auto simp: chain_inv_def)
  show ?thesis using assms(4)
  proof cases
    case (loop t ts now queued)
    then show ?thesis using one assms(2,3) one_activity(2) [OF one(1) loop(2)] by (cases t) (auto simp: ocsp_ops)
  next
    case (pool xs i ys now f)
    then show ?thesis using one assms(2,3) one_activity(3) [OF one(1) pool(2)] by (auto simp: refresh_task_def activities_def Let_def)
  qed (use one assms(5) in auto)
qed

text \<open>
  Started twice, the first state is freed while a task of the pool still refers to it.
\<close>

theorem restart_uses_freed_state:
  "\<exists>s. ocsp_reachable rnd parse (Some s) \<and> refresh_task parse now f 0 (startAutoRefresh rnd now op s) = None"
proof -
  let ?s0 = "startAutoRefresh rnd 0 default_options ocsp_sys_new"
  let ?s1 = "run_loop_task rnd 0 True LCycle (?s0\<lparr>loop_tasks := []\<rparr>)"
  have "loop_tasks ?s0 = [LCycle]" by (simp add: startAutoRefresh_def ocsp_sys_new_def default_options_def Let_def)
  then have "ocsp_step rnd parse ?s0 (Some ?s1)" by (rule ocsp_step.loop)
  then have "ocsp_reachable rnd parse (Some ?s1)" using ocsp_reachable.start ocsp_reachable.step by blast
  moreover have "auto ?s1 = Some 0" "fresh ?s1 = 1"
    by (simp_all add: startAutoRefresh_def ocsp_sys_new_def default_options_def Let_def ocsp_ops)
  then have "refresh_task parse now f 0 (startAutoRefresh rnd now op ?s1) = None"
    by (auto simp: refresh_task_def startAutoRefresh_def Let_def ocsp_ops split: option.splits simp del: run_loop_task.simps)
  ultimately show ?thesis by blast
qed

section \<open>Delays and stale responses\<close>

text \<open>
  The delay before the next refresh lies within the configured limits whatever is cached, and with the default options the refresh of a response that lives long enough comes
  before its expiry.
\<close>

theorem refresh_delay_bounds:
  assumes "min_seconds op \<le> max_seconds op"
  shows "min (min_seconds op) (min (fallback_seconds op) (retry_seconds op)) \<le> refresh_delay rnd op r \<and>
    refresh_delay rnd op r \<le> max (max_seconds op) (max (fallback_seconds op) (retry_seconds op)) \<and>
    (op = default_options \<and> 300 < r \<and> (\<forall>x. rnd x = x) \<longrightarrow> refresh_delay rnd op r < r)"
proof -
  have "refresh_delay rnd default_options r < r" if "300 < r" "\<forall>x. rnd x = x"
  proof -
    have "\<lfloor>real_of_int r * (1 / 2)\<rfloor> < r" using that(1) by linarith
    then show ?thesis using that by (auto simp: refresh_delay_def default_options_def clamp_def truncate_real_def)
  qed
  then show ?thesis using assms by (auto simp: refresh_delay_def clamp_def)
qed

theorem refresh_delay_bounds_witness: "300 \<le> refresh_delay id default_options 1000 \<and> refresh_delay id default_options 1000 < 1000"
  using refresh_delay_bounds [of default_options id 1000] by (simp add: default_options_def)

text \<open>With less than the minimum left, the next refresh is scheduled after the response has expired.\<close>

theorem refresh_after_expiry: "0 < r \<Longrightarrow> r < 300 \<Longrightarrow> refresh_delay id default_options r = 300"
proof -
  assume r: "0 < r" "r < 300"
  then have "\<lfloor>real_of_int r * (1 / 2)\<rfloor> < 300" by linarith
  then show ?thesis using r by (auto simp: refresh_delay_def default_options_def clamp_def truncate_real_def)
qed

text \<open>
  The handshake callback attaches a cached response after its validity has passed: it does not look at the time, although a response outside its window must not be served.
\<close>

theorem stale_response_served:
  assumes "setResponseDer parse now der st = (True, st')" "now < later" "next_update_epoch st' \<noteq> 0" "next_update_epoch st' \<le> later"
  shows "secondsUntilExpiry later st' = 0 \<and> statusCallback True True st' = Some der"
  using setResponseDer_cases [OF assms(1)] assms(2-4) by (simp add: secondsUntilExpiry_def statusCallback_def)

theorem stale_response_served_witness:
  "\<exists>parse st'. setResponseDer parse 0 ''r'' OcspStapler_new = (True, st') \<and> secondsUntilExpiry 50 st' = 0 \<and> statusCallback True True st' = Some ''r''"
proof -
  let ?p = "\<lambda>_. Some \<lparr>successful = True, basic = Some [\<lparr>status = StatusGood, valid_at = (\<lambda>t. t \<le> 10), next_update = Some 10\<rparr>]\<rparr>"
  have s: "setResponseDer ?p 0 ''r'' OcspStapler_new = (True, OcspStapler_new\<lparr>response_der := ''r'', next_update_epoch := 10\<rparr>)"
    by (simp add: setResponseDer_def asn1TimeToEpoch_def)
  from stale_response_served [OF s, of 50] show ?thesis using s by (intro exI [of _ ?p]) simp
qed

text \<open>A response without any single response is cached and served, although only a definite good is to be stapled.\<close>

theorem empty_response_served:
  assumes "der \<noteq> []" "parse der = Some \<lparr>successful = True, basic = Some []\<rparr>"
  shows "fst (setResponseDer parse now der st) \<and> statusCallback True True (snd (setResponseDer parse now der st)) = Some der"
  using assms by (simp add: setResponseDer_def statusCallback_def)

text \<open>When the pool refuses the task, the retry comes after the normal delay, not after the retry interval.\<close>

theorem pool_full_delay:
  assumes "current_auto s = Some a" "\<not> stopped a"
  shows "timers (doRefreshCycle rnd now False s) = timers s @ [refresh_delay rnd (opts a) (secondsUntilExpiry now (stapler s))]"
  using assms by (auto simp: ocsp_ops split: option.splits bind_splits)

end
