(* ===== verification/Net_Resolver.thy ===== *)
theory Net_Resolver
  imports Cox_Prelude "HOL-Library.Multiset"
begin

text \<open>
  Socket addresses and name resolution: \<^verbatim>\<open>net/inet_address.cc\<close>, the address functions of \<^verbatim>\<open>net/socket.cc\<close>, \<^verbatim>\<open>net/resolver.cc\<close> and \<^verbatim>\<open>net/cares_resolver.cc\<close>.
  The text form of an address (\<^verbatim>\<open>inet_ntop\<close>, \<^verbatim>\<open>inet_pton\<close>) and the lookups themselves are parameters. The cached resolver is a step relation over the calling threads, the workers of the pool
  and the loop. The theory shows that printed addresses identify their endpoint, that every call is answered once and correctly under every interleaving, and that a callback that
  resolves again from the cache blocks its own thread.
\<close>

section \<open>Addresses\<close>

text \<open>
  The union of the socket address types by its family; \<open>Unspec\<close> is the zeroed storage that a failed \<^verbatim>\<open>getsockname\<close> leaves. Ports and addresses are in host byte order. An
  IPv6 address carries its scope; \<^verbatim>\<open>sun_path\<close> is the whole array.
\<close>

datatype InetAddress = Unspec | Sin "32 word" "16 word" | Sin6 "128 word" "16 word" "32 word" | Sun string

abbreviation NUL :: char where "NUL \<equiv> CHR 0x00"

definition sun_path_size :: nat where "sun_path_size = 108"

datatype addr_error = InvalidArgument

definition c_str :: "string \<Rightarrow> string" where
  "c_str s = takeWhile (\<lambda>c. c \<noteq> NUL) s"

text \<open>The text form of addresses: \<^verbatim>\<open>inet_ntop\<close> and \<^verbatim>\<open>inet_pton\<close> for both families.\<close>

record inet =
  ntop4 :: "32 word \<Rightarrow> string"
  pton4 :: "string \<Rightarrow> 32 word option"
  ntop6 :: "128 word \<Rightarrow> string"
  pton6 :: "string \<Rightarrow> 128 word option"

fun isIpv6 :: "InetAddress \<Rightarrow> bool" where
  "isIpv6 (Sin6 _ _ _) = True"
| "isIpv6 _ = False"

fun isUnix :: "InetAddress \<Rightarrow> bool" where
  "isUnix (Sun _) = True"
| "isUnix _ = False"

definition unixDomain :: "string \<Rightarrow> addr_error + InetAddress" where
  "unixDomain path =
     (if length path \<ge> sun_path_size then Inl InvalidArgument
      else Inr (Sun (path @ replicate (sun_path_size - length path) NUL)))"

fun unixPath :: "InetAddress \<Rightarrow> string" where
  "unixPath (Sun p) = c_str p"
| "unixPath _ = []"

fun getSockLen :: "InetAddress \<Rightarrow> nat" where
  "getSockLen (Sin6 _ _ _) = 28"
| "getSockLen (Sun p) = 2 + length (c_str p) + 1"
| "getSockLen _ = 16"

definition InetAddress_port :: "16 word \<Rightarrow> bool \<Rightarrow> bool \<Rightarrow> InetAddress" where
  "InetAddress_port p loopback_only ipv6 =
     (if ipv6 then Sin6 (if loopback_only then 1 else 0) p 0
      else Sin (if loopback_only then 0x7F000001 else 0) p)"

definition InetAddress_ip :: "inet \<Rightarrow> string \<Rightarrow> 16 word \<Rightarrow> bool \<Rightarrow> addr_error + InetAddress" where
  "InetAddress_ip net ip p ipv6 =
     (if ipv6 then (case pton6 net (c_str ip) of None \<Rightarrow> Inl InvalidArgument | Some a \<Rightarrow> Inr (Sin6 a p 0))
      else (case pton4 net (c_str ip) of None \<Rightarrow> Inl InvalidArgument | Some a \<Rightarrow> Inr (Sin a p)))"

fun port :: "InetAddress \<Rightarrow> 16 word" where
  "port (Sin _ p) = p"
| "port (Sin6 _ p _) = p"
| "port _ = 0"

fun toIp :: "inet \<Rightarrow> InetAddress \<Rightarrow> string" where
  "toIp net (Sun _) = []"
| "toIp net (Sin6 a _ _) = ntop6 net a"
| "toIp net (Sin a _) = ntop4 net a"
| "toIp net Unspec = ntop4 net 0"

definition toIpPort :: "inet \<Rightarrow> InetAddress \<Rightarrow> string" where
  "toIpPort net a =
     (if isUnix a then ''unix:'' @ unixPath a
      else if isIpv6 a then ''['' @ toIp net a @ '']:'' @ to_string (unat (port a))
      else toIp net a @ '':'' @ to_string (unat (port a)))"

fun same_family :: "InetAddress \<Rightarrow> InetAddress \<Rightarrow> bool" where
  "same_family (Sin _ _) (Sin _ _) = True"
| "same_family (Sin6 _ _ _) (Sin6 _ _ _) = True"
| "same_family (Sun _) (Sun _) = True"
| "same_family Unspec Unspec = True"
| "same_family _ _ = False"

text \<open>\<^verbatim>\<open>isSelfConnect\<close> on the two addresses the kernel reports.\<close>

definition isSelfConnect :: "inet \<Rightarrow> InetAddress \<Rightarrow> InetAddress \<Rightarrow> bool" where
  "isSelfConnect net loc peer =
     (if \<not> same_family loc peer then False
      else if isUnix loc then False
      else port loc = port peer \<and> toIp net loc = toIp net peer)"

text \<open>
  Documented behaviour of the text forms: what is printed is parsed back, a dotted quad consists of digits and dots, and neither form holds a null byte or a bracket.
\<close>

definition v4_chars :: string where "v4_chars = ''0123456789.''"
definition v6_chars :: string where "v6_chars = ''0123456789abcdef:.''"

definition inet_lawful :: "inet \<Rightarrow> bool" where
  "inet_lawful net =
     ((\<forall>a. pton4 net (ntop4 net a) = Some a) \<and> (\<forall>a. pton6 net (ntop6 net a) = Some a) \<and>
      (\<forall>a. set (ntop4 net a) \<subseteq> set v4_chars) \<and> (\<forall>a. set (ntop6 net a) \<subseteq> set v6_chars))"

text \<open>What a printed address keeps of it: family, address and port.\<close>

fun endpoint :: "InetAddress \<Rightarrow> InetAddress" where
  "endpoint (Sin6 a p s) = Sin6 a p 0"
| "endpoint (Sun p) = Sun (c_str p)"
| "endpoint a = a"

lemma inet_lawful_inj:
  assumes "inet_lawful net"
  shows "ntop4 net a = ntop4 net b \<longleftrightarrow> a = b" "ntop6 net c = ntop6 net d \<longleftrightarrow> c = d"
  using assms unfolding inet_lawful_def by (metis option.inject)+

lemma to_string_inj: "to_string m = to_string n \<longleftrightarrow> m = n"
  by (metis read_digits_to_string)

lemma to_string_no_colon: "CHR '':'' \<notin> set (to_string n)"
proof
  assume "CHR '':'' \<in> set (to_string n)"
  then obtain d where "d < 10" "CHR '':'' = digit_char d" using to_string_digits by blast
  then have "(of_char (CHR '':'') :: nat) = 48 + d" using of_char_digit_char [of d] by metis
  then show False using \<open>d < 10\<close> by simp
qed

lemma split_last_colon:
  assumes "x @ CHR '':'' # u = y @ CHR '':'' # v" "CHR '':'' \<notin> set u" "CHR '':'' \<notin> set v"
  shows "x = y \<and> u = v"
proof -
  have tw: "takeWhile (\<lambda>c. c \<noteq> CHR '':'') (rev (z @ CHR '':'' # w)) = rev w" if "CHR '':'' \<notin> set w" for z w :: string
  proof -
    have "\<forall>c \<in> set (rev w). c \<noteq> CHR '':''" using that by auto
    then show ?thesis using takeWhile_append2 [of "rev w" "\<lambda>c. c \<noteq> CHR '':''" "CHR '':'' # rev z"] by simp
  qed
  have "rev u = rev v" using tw [OF assms(2), of x] tw [OF assms(3), of y] assms(1) by simp
  then show ?thesis using assms(1) by simp
qed

text \<open>A dotted quad starts with a digit or a dot, so it is told from the other two forms.\<close>

lemma ntop4_no:
  assumes "inet_lawful net" "c \<notin> set v4_chars" "c \<noteq> CHR '':''"
  shows "ntop4 net a @ CHR '':'' # u \<noteq> c # v"
proof (cases "ntop4 net a")
  case (Cons d ds)
  moreover have "set (ntop4 net a) \<subseteq> set v4_chars" using assms(1) by (simp add: inet_lawful_def)
  ultimately show ?thesis using assms(2) by auto
qed (use assms(3) in simp)

lemma v4_start [simp]: "CHR ''u'' \<notin> set v4_chars" "CHR ''['' \<notin> set v4_chars"
  by (simp_all add: v4_chars_def)

text \<open>
  Printed addresses identify the endpoint: two addresses print the same text only if they are of one family and agree in address and port, or are paths of the same name.
\<close>

theorem toIpPort_identifies:
  assumes "inet_lawful net" "toIpPort net a = toIpPort net b" "a \<noteq> Unspec" "b \<noteq> Unspec"
  shows "endpoint a = endpoint b"
proof -
  note inj = inet_lawful_inj [OF assms(1)] and no = ntop4_no [OF assms(1)] and col = to_string_no_colon split_last_colon
  have p: "unat p = unat q \<longleftrightarrow> p = q" for p q :: "16 word" by (rule word_unat_eq_iff [symmetric])
  show ?thesis
  proof (cases a; cases b)
    fix i k x y assume [simp]: "a = Sin i x" "b = Sin k y"
    have "ntop4 net i = ntop4 net k \<and> to_string (unat x) = to_string (unat y)"
      using assms(2) by (intro split_last_colon) (simp_all add: toIpPort_def to_string_no_colon)
    then show ?thesis by (simp add: inj to_string_inj p)
  next
    fix i k x y s t assume [simp]: "a = Sin6 i x s" "b = Sin6 k y t"
    have "ntop6 net i @ '']'' = ntop6 net k @ '']'' \<and> to_string (unat x) = to_string (unat y)"
      using assms(2) by (intro split_last_colon) (simp_all add: toIpPort_def to_string_no_colon)
    then show ?thesis by (simp add: inj to_string_inj p)
  qed (use assms no [of "CHR ''u''"] no [of "CHR ''[''"] no [of "CHR ''u''", THEN not_sym] no [of "CHR ''[''", THEN not_sym] in \<open>auto simp: toIpPort_def\<close>)
qed

lemma isSelfConnect_iff:
  assumes "inet_lawful net" "loc \<noteq> Unspec"
  shows "isSelfConnect net loc peer \<longleftrightarrow> \<not> isUnix loc \<and> endpoint loc = endpoint peer"
  using assms(2) inet_lawful_inj [OF assms(1)] by (cases loc; cases peer) (auto simp: isSelfConnect_def)

text \<open>When the kernel reports neither address, the connection counts as one to itself.\<close>

lemma isSelfConnect_unknown: "isSelfConnect net Unspec Unspec"
  by (simp add: isSelfConnect_def)

lemma c_str_padded [simp]: "NUL \<notin> set p \<Longrightarrow> c_str (p @ replicate n NUL) = p"
proof -
  assume "NUL \<notin> set p"
  then have "\<And>c. c \<in> set p \<Longrightarrow> c \<noteq> NUL" by blast
  then show ?thesis unfolding c_str_def by (subst takeWhile_append2) (auto simp: takeWhile_eq_Nil_iff)
qed

lemma unixDomain_roundtrip:
  assumes "unixDomain path = Inr a" "NUL \<notin> set path"
  shows "unixPath a = path \<and> getSockLen a = length path + 3 \<and> length path < 108"
  using assms by (auto simp: unixDomain_def sun_path_size_def split: if_splits)

lemma InetAddress_ip_toIp:
  assumes "inet_lawful net" "\<not> isUnix a" "a \<noteq> Unspec"
  shows "InetAddress_ip net (toIp net a) (port a) (isIpv6 a) = Inr (endpoint a)"
proof -
  have "NUL \<notin> set v6_chars" by (simp add: v6_chars_def)
  then have c: "c_str s = s" if "set s \<subseteq> set v6_chars" for s
    unfolding c_str_def using that by (auto simp: takeWhile_eq_all_conv)
  have "set (ntop4 net i) \<subseteq> set v6_chars" for i
    using assms(1) unfolding inet_lawful_def v4_chars_def v6_chars_def by fastforce
  then show ?thesis using assms c by (cases a) (auto simp: InetAddress_ip_def inet_lawful_def)
qed

section \<open>Lookups\<close>

text \<open>The list a lookup returns, one node per address; \<open>AiOther\<close> is a node of another family. The port of the call is written into each.\<close>

datatype ai_node = AiInet "32 word" | AiInet6 "128 word" "32 word" | AiOther

fun collect_addrs :: "16 word \<Rightarrow> ai_node list \<Rightarrow> InetAddress list" where
  "collect_addrs p [] = []"
| "collect_addrs p (AiInet a # ns) = Sin a p # collect_addrs p ns"
| "collect_addrs p (AiInet6 a s # ns) = Sin6 a p s # collect_addrs p ns"
| "collect_addrs p (AiOther # ns) = collect_addrs p ns"

type_synonym answer = "InetAddress list \<times> string"

text \<open>\<^verbatim>\<open>resolveBlocking\<close> over the result of \<^verbatim>\<open>getaddrinfo\<close>: the error text, or the nodes.\<close>

definition resolveBlocking :: "string + ai_node list \<Rightarrow> 16 word \<Rightarrow> answer" where
  "resolveBlocking gai p =
     (case gai of
        Inl err \<Rightarrow> ([], err)
      | Inr nodes \<Rightarrow> let out = collect_addrs p nodes in if out = [] then ([], ''no usable address'') else (out, []))"

text \<open>
  \<^verbatim>\<open>onResult\<close> of the c-ares resolver, on the status (whose text is given, with whether it is success) and the result.
\<close>

definition onResult :: "bool \<times> string \<times> ai_node list option \<Rightarrow> 16 word \<Rightarrow> answer" where
  "onResult res p =
     (case res of
        (ok, err, nodes) \<Rightarrow>
          if \<not> ok \<or> nodes = None then ([], err)
          else let addrs = collect_addrs p (the nodes) in if addrs \<noteq> [] then (addrs, []) else ([], ''no usable address''))"

text \<open>The callback of the one-address call: \<open>None\<close> is the front of an empty list.\<close>

definition first_answer :: "answer \<Rightarrow> (InetAddress \<times> string) option" where
  "first_answer r =
     (if snd r = [] then (case fst r of [] \<Rightarrow> None | a # as \<Rightarrow> Some (a, []))
      else Some (InetAddress_port 0 False False, snd r))"

text \<open>
  The contract of a resolver's answer: addresses and no error, or an error and no address; each address with the port asked for. \<open>good\<close> are the results whose error texts are not empty.
\<close>

locale resolver_answer =
  fixes answer_of :: "'r \<Rightarrow> 16 word \<Rightarrow> answer" and good :: "'r \<Rightarrow> bool"
  assumes either: "good r \<Longrightarrow> snd (answer_of r p) = [] \<longleftrightarrow> fst (answer_of r p) \<noteq> []"
    and ports: "a \<in> set (fst (answer_of r p)) \<Longrightarrow> port a = p \<and> \<not> isUnix a \<and> a \<noteq> Unspec"
begin

lemma first_answer_defined:
  assumes "good r"
  shows "\<exists>a err. first_answer (answer_of r p) = Some (a, err) \<and> (err = [] \<longrightarrow> a \<in> set (fst (answer_of r p)) \<and> port a = p)"
proof (cases "fst (answer_of r p)")
  case Nil
  then show ?thesis using either [OF assms, of p] by (auto simp: first_answer_def)
next
  case (Cons a as)
  then show ?thesis using either [OF assms, of p] ports [of a r p] by (auto simp: first_answer_def)
qed

end

lemma collect_addrs_ports: "a \<in> set (collect_addrs p ns) \<Longrightarrow> port a = p \<and> \<not> isUnix a \<and> a \<noteq> Unspec"
  by (induction p ns rule: collect_addrs.induct) auto

definition gai_good :: "string + ai_node list \<Rightarrow> bool" where
  "gai_good gai = (\<forall>err. gai = Inl err \<longrightarrow> err \<noteq> [])"

interpretation tpr: resolver_answer resolveBlocking gai_good
  by unfold_locales (auto simp: resolveBlocking_def gai_good_def Let_def dest: collect_addrs_ports split: sum.splits if_splits)

interpretation car: resolver_answer onResult "\<lambda>(ok, err, nodes). err \<noteq> []"
  by unfold_locales (auto simp: onResult_def Let_def dest: collect_addrs_ports split: prod.splits if_splits)

text \<open>No address of a usable family is skipped, and the order is the system's.\<close>

lemma collect_addrs_order:
  "collect_addrs p ns = map (\<lambda>n. case n of AiInet a \<Rightarrow> Sin a p | AiInet6 a s \<Rightarrow> Sin6 a p s) (filter (\<lambda>n. n \<noteq> AiOther) ns)"
  by (induction p ns rule: collect_addrs.induct) auto

section \<open>The resolver over a worker pool, with its cache\<close>

text \<open>A call: the host, the port and the number of its callback.\<close>

type_synonym call = "string \<times> 16 word \<times> nat"

record CacheEntry =
  ce_addrs :: "InetAddress list"
  ce_when :: "64 word"

text \<open>
  The cache; the tasks of the pool, the answers that workers are about to post, and the tasks queued on the loop. The last fields record the callbacks that ran, the calls made, those dropped by
  a pool that stops, and the lookups that succeeded.
\<close>

record Resolver =
  cache :: "string \<Rightarrow> CacheEntry option"
  rs_tasks :: "call list"
  rs_posting :: "(call \<times> answer) list"
  loop_queue :: "(call \<times> answer) list"
  called :: "(call \<times> answer) list"
  asked :: "call list"
  lost :: "call list"
  looked :: "(string \<times> InetAddress list) list"

definition Resolver_new :: Resolver where
  "Resolver_new = \<lparr>cache = (\<lambda>_. None), rs_tasks = [], rs_posting = [], loop_queue = [], called = [], asked = [], lost = [], looked = []\<rparr>"

datatype rs_error = SelfDeadlock | BadAddress

definition withPort :: "inet \<Rightarrow> InetAddress \<Rightarrow> 16 word \<Rightarrow> addr_error + InetAddress" where
  "withPort net a p = (if isIpv6 a then InetAddress_ip net (toIp net a) p True else InetAddress_ip net (toIp net a) p False)"

fun withPorts :: "inet \<Rightarrow> 16 word \<Rightarrow> InetAddress list \<Rightarrow> InetAddress list option" where
  "withPorts net p [] = Some []"
| "withPorts net p (a # as) =
     (case withPort net a p of Inl _ \<Rightarrow> None | Inr b \<Rightarrow> map_option ((#) b) (withPorts net p as))"

text \<open>The lookup in the cache at time \<open>now\<close>, in microseconds; the age is unsigned.\<close>

definition cache_hit :: "64 word \<Rightarrow> 32 word \<Rightarrow> string \<Rightarrow> Resolver \<Rightarrow> InetAddress list option" where
  "cache_hit now ttl host r =
     (case cache r host of
        None \<Rightarrow> None
      | Some e \<Rightarrow> if (now - ce_when e) div 1000000 \<le> ucast ttl then Some (ce_addrs e) else None)"

text \<open>
  A hit is delivered with the mutex held: \<^verbatim>\<open>runInLoop\<close> runs the callback at once on the loop thread, and queues it from any other. \<open>app\<close> gives the calls a callback makes; one that is made while the
  thread holds the mutex never returns.
\<close>

definition deliver_hit :: "(call \<Rightarrow> call list) \<Rightarrow> bool \<Rightarrow> call \<Rightarrow> answer \<Rightarrow> Resolver \<Rightarrow> rs_error + Resolver" where
  "deliver_hit app in_loop c ans r =
     (if in_loop then if app c = [] then Inr (r\<lparr>called := called r @ [(c, ans)]\<rparr>) else Inl SelfDeadlock
      else Inr (r\<lparr>loop_queue := loop_queue r @ [(c, ans)]\<rparr>))"

text \<open>\<open>accepts\<close> tells whether the pool takes the task; one that is stopping drops it.\<close>

definition resolveAll :: "inet \<Rightarrow> (call \<Rightarrow> call list) \<Rightarrow> 32 word \<Rightarrow> bool \<Rightarrow> bool \<Rightarrow> 64 word \<Rightarrow> call \<Rightarrow> Resolver \<Rightarrow> rs_error + Resolver" where
  "resolveAll net app ttl in_loop accepts now c r =
     (let r1 = r\<lparr>asked := asked r @ [c]\<rparr> in
      case cache_hit now ttl (fst c) r1 of
        Some as \<Rightarrow>
          (case withPorts net (fst (snd c)) as of None \<Rightarrow> Inl BadAddress | Some bs \<Rightarrow> deliver_hit app in_loop c (bs, []) r1)
      | None \<Rightarrow> Inr (if accepts then r1\<lparr>rs_tasks := rs_tasks r1 @ [c]\<rparr> else r1\<lparr>lost := lost r1 @ [c]\<rparr>))"

text \<open>The task on a worker: the lookup and the cache, then the post to the loop. Workers finish in any order.\<close>

definition remove_nth :: "nat \<Rightarrow> 'a list \<Rightarrow> 'a list" where
  "remove_nth i xs = take i xs @ drop (Suc i) xs"

definition worker_lookup :: "string + ai_node list \<Rightarrow> 64 word \<Rightarrow> nat \<Rightarrow> Resolver \<Rightarrow> Resolver" where
  "worker_lookup gai now i r =
     (let c = rs_tasks r ! i;
          ans = resolveBlocking gai (fst (snd c));
          r1 = r\<lparr>rs_tasks := remove_nth i (rs_tasks r), rs_posting := rs_posting r @ [(c, ans)]\<rparr>
      in if fst ans \<noteq> []
         then r1\<lparr>cache := (cache r1)(fst c \<mapsto> \<lparr>ce_addrs = fst ans, ce_when = now\<rparr>), looked := looked r1 @ [(fst c, fst ans)]\<rparr>
         else r1)"

definition worker_post :: "nat \<Rightarrow> Resolver \<Rightarrow> Resolver" where
  "worker_post i r = r\<lparr>loop_queue := loop_queue r @ [rs_posting r ! i], rs_posting := remove_nth i (rs_posting r)\<rparr>"

text \<open>A queued callback on the loop, with the calls it makes.\<close>

fun run_nested :: "inet \<Rightarrow> (call \<Rightarrow> call list) \<Rightarrow> 32 word \<Rightarrow> bool \<Rightarrow> 64 word \<Rightarrow> call list \<Rightarrow> Resolver \<Rightarrow> rs_error + Resolver" where
  "run_nested net app ttl accepts now [] r = Inr r"
| "run_nested net app ttl accepts now (c # cs) r =
     (case resolveAll net app ttl True accepts now c r of Inl e \<Rightarrow> Inl e | Inr r' \<Rightarrow> run_nested net app ttl accepts now cs r')"

definition loop_callback :: "inet \<Rightarrow> (call \<Rightarrow> call list) \<Rightarrow> 32 word \<Rightarrow> bool \<Rightarrow> 64 word \<Rightarrow> Resolver \<Rightarrow> rs_error + Resolver" where
  "loop_callback net app ttl accepts now r =
     (case loop_queue r of
        [] \<Rightarrow> Inr r
      | (c, ans) # q \<Rightarrow> run_nested net app ttl accepts now (app c) (r\<lparr>loop_queue := q, called := called r @ [(c, ans)]\<rparr>))"

inductive rs_step :: "inet \<Rightarrow> (call \<Rightarrow> call list) \<Rightarrow> 32 word \<Rightarrow> Resolver \<Rightarrow> rs_error + Resolver \<Rightarrow> bool" for net app ttl where
  st_call: "rs_step net app ttl r (resolveAll net app ttl in_loop accepts now c r)"
| st_lookup: "i < length (rs_tasks r) \<Longrightarrow> gai_good gai \<Longrightarrow> rs_step net app ttl r (Inr (worker_lookup gai now i r))"
| st_post: "i < length (rs_posting r) \<Longrightarrow> rs_step net app ttl r (Inr (worker_post i r))"
| st_loop: "rs_step net app ttl r (loop_callback net app ttl accepts now r)"

inductive rs_reachable :: "inet \<Rightarrow> (call \<Rightarrow> call list) \<Rightarrow> 32 word \<Rightarrow> rs_error + Resolver \<Rightarrow> bool" for net app ttl where
  rs_init: "rs_reachable net app ttl (Inr Resolver_new)"
| rs_more: "rs_reachable net app ttl (Inr r) \<Longrightarrow> rs_step net app ttl r x \<Longrightarrow> rs_reachable net app ttl x"

text \<open>An address without its port and scope.\<close>

fun bare :: "InetAddress \<Rightarrow> InetAddress" where
  "bare (Sin a p) = Sin a 0"
| "bare (Sin6 a p s) = Sin6 a 0 0"
| "bare a = a"

definition answer_ok :: "(string \<times> InetAddress list) list \<Rightarrow> call \<Rightarrow> answer \<Rightarrow> bool" where
  "answer_ok lk c ans =
     (if fst ans = [] then snd ans \<noteq> []
      else snd ans = [] \<and> (\<forall>a \<in> set (fst ans). port a = fst (snd c)) \<and> (\<exists>as. (fst c, as) \<in> set lk \<and> map bare (fst ans) = map bare as))"

definition is_ip :: "InetAddress \<Rightarrow> bool" where
  "is_ip a = (\<not> isUnix a \<and> a \<noteq> Unspec)"

definition rs_inv :: "Resolver \<Rightarrow> bool" where
  "rs_inv r =
     (mset (asked r) = mset (rs_tasks r) + mset (map fst (rs_posting r)) + mset (map fst (loop_queue r)) + mset (map fst (called r)) + mset (lost r) \<and>
      (\<forall>x \<in> set (rs_posting r) \<union> set (loop_queue r) \<union> set (called r). answer_ok (looked r) (fst x) (snd x)) \<and>
      (\<forall>h e. cache r h = Some e \<longrightarrow> ce_addrs e \<noteq> [] \<and> list_all is_ip (ce_addrs e) \<and> (h, ce_addrs e) \<in> set (looked r)))"

lemma withPort_ip:
  assumes "inet_lawful net" "is_ip a"
  shows "\<exists>b. withPort net a p = Inr b \<and> port b = p \<and> bare b = bare a"
proof -
  have "\<exists>b. InetAddress_ip net (toIp net a) p (isIpv6 a) = Inr b \<and> port b = p \<and> bare b = bare a"
    using InetAddress_ip_toIp [OF assms(1), of a] assms(2)
    by (cases a) (auto simp: is_ip_def InetAddress_ip_def split: option.splits)
  then show ?thesis using assms(2) by (cases a) (auto simp: withPort_def is_ip_def)
qed

lemma withPorts_ip:
  assumes "inet_lawful net" "list_all is_ip as"
  shows "\<exists>bs. withPorts net p as = Some bs \<and> (\<forall>b \<in> set bs. port b = p) \<and> map bare bs = map bare as"
  using assms(2)
proof (induction as)
  case (Cons a as)
  then obtain bs where "withPorts net p as = Some bs" "\<forall>b \<in> set bs. port b = p" "map bare bs = map bare as" by auto
  moreover obtain b where "withPort net a p = Inr b" "port b = p" "bare b = bare a"
    using withPort_ip [OF assms(1), of a p] Cons.prems by auto
  ultimately show ?case by simp
qed simp

lemma remove_nth_mset: "i < length xs \<Longrightarrow> mset xs = add_mset (xs ! i) (mset (remove_nth i xs))"
  unfolding remove_nth_def by (metis add_mset_add_single id_take_nth_drop mset.simps(2) mset_append union_mset_add_mset_right)

lemma set_remove_nth: "i < length xs \<Longrightarrow> set xs = insert (xs ! i) (set (remove_nth i xs))"
  by (metis remove_nth_mset set_mset_add_mset_insert set_mset_mset)

lemma answer_ok_more: "answer_ok lk c ans \<Longrightarrow> answer_ok (lk @ x) c ans"
  by (auto simp: answer_ok_def split: if_splits)

text \<open>What a step may lead to: a state with its books in order, or the deadlock, if callbacks make calls at all.\<close>

definition rs_result :: "(call \<Rightarrow> call list) \<Rightarrow> rs_error + Resolver \<Rightarrow> bool" where
  "rs_result app x = (case x of Inl e \<Rightarrow> e = SelfDeadlock \<and> app \<noteq> (\<lambda>_. []) | Inr r \<Rightarrow> rs_inv r)"

lemma rs_result_simps [simp]: "rs_result app (Inr r) = rs_inv r" "rs_result app (Inl e) = (e = SelfDeadlock \<and> app \<noteq> (\<lambda>_. []))"
  by (simp_all add: rs_result_def)

lemma resolveAll_inv:
  assumes "inet_lawful net" "rs_inv r"
  shows "rs_result app (resolveAll net app ttl in_loop accepts now c r)"
proof (cases "cache_hit now ttl (fst c) (r\<lparr>asked := asked r @ [c]\<rparr>)")
  case None
  then show ?thesis using assms(2) by (auto simp: resolveAll_def rs_inv_def Let_def)
next
  case (Some as)
  then obtain e where e: "cache r (fst c) = Some e" "as = ce_addrs e" by (auto simp: cache_hit_def split: option.splits if_splits)
  then have as: "as \<noteq> []" "list_all is_ip as" "(fst c, as) \<in> set (looked r)" using assms(2) by (auto simp: rs_inv_def)
  obtain bs where bs: "withPorts net (fst (snd c)) as = Some bs" "\<forall>b \<in> set bs. port b = fst (snd c)" "map bare bs = map bare as"
    using withPorts_ip [OF assms(1) as(2)] by blast
  have "bs \<noteq> []" using bs(3) as(1) by auto
  then have "answer_ok (looked r) c (bs, [])" using bs as(3) unfolding answer_ok_def by auto
  moreover have "app c \<noteq> [] \<Longrightarrow> app \<noteq> (\<lambda>_. [])" by auto
  ultimately show ?thesis using Some bs(1) assms(2) by (auto simp: resolveAll_def deliver_hit_def rs_inv_def Let_def)
qed

lemma run_nested_inv:
  assumes "inet_lawful net" "rs_inv r"
  shows "rs_result app (run_nested net app ttl accepts now cs r)"
  using assms(2)
proof (induction cs arbitrary: r)
  case (Cons c cs)
  then show ?case using resolveAll_inv [OF assms(1) Cons.prems, of app ttl True accepts now c] by (auto split: sum.split)
qed simp

lemma loop_callback_inv:
  assumes "inet_lawful net" "rs_inv r"
  shows "rs_result app (loop_callback net app ttl accepts now r)"
proof (cases "loop_queue r")
  case Nil
  then show ?thesis using assms(2) by (simp add: loop_callback_def)
next
  case (Cons x q)
  moreover have "rs_inv (r\<lparr>loop_queue := q, called := called r @ [x]\<rparr>)"
    using assms(2) Cons by (auto simp: rs_inv_def)
  ultimately show ?thesis using run_nested_inv [OF assms(1), of "r\<lparr>loop_queue := q, called := called r @ [x]\<rparr>"]
    by (cases x) (simp add: loop_callback_def)
qed

lemma worker_lookup_inv:
  assumes "rs_inv r" "i < length (rs_tasks r)" "gai_good gai"
  shows "rs_inv (worker_lookup gai now i r)"
proof -
  define c where "c = rs_tasks r ! i"
  define ans where "ans = resolveBlocking gai (fst (snd c))"
  have m: "mset (rs_tasks r) = add_mset c (mset (remove_nth i (rs_tasks r)))" using remove_nth_mset [OF assms(2)] by (simp add: c_def)
  have either: "snd ans = [] \<longleftrightarrow> fst ans \<noteq> []" using tpr.either [OF assms(3)] by (simp add: ans_def)
  have ports: "\<forall>a \<in> set (fst ans). port a = fst (snd c) \<and> is_ip a" using tpr.ports [of _ gai "fst (snd c)"] by (auto simp: ans_def is_ip_def)
  have w: "worker_lookup gai now i r =
    (if fst ans \<noteq> []
     then r\<lparr>rs_tasks := remove_nth i (rs_tasks r), rs_posting := rs_posting r @ [(c, ans)],
        cache := (cache r)(fst c \<mapsto> \<lparr>ce_addrs = fst ans, ce_when = now\<rparr>), looked := looked r @ [(fst c, fst ans)]\<rparr>
     else r\<lparr>rs_tasks := remove_nth i (rs_tasks r), rs_posting := rs_posting r @ [(c, ans)]\<rparr>)"
    by (simp add: worker_lookup_def Let_def c_def ans_def)
  show ?thesis
  proof (cases "fst ans = []")
    case True
    then show ?thesis using assms(1) m either w by (auto simp: rs_inv_def answer_ok_def)
  next
    case False
    have "answer_ok (looked r @ [(fst c, fst ans)]) c ans" using False either ports by (auto simp: answer_ok_def)
    then show ?thesis using assms(1) m False ports w by (auto simp: rs_inv_def answer_ok_more list_all_iff)
  qed
qed

lemma worker_post_inv:
  assumes "rs_inv r" "i < length (rs_posting r)"
  shows "rs_inv (worker_post i r)"
proof -
  have "mset (map fst (rs_posting r)) = add_mset (fst (rs_posting r ! i)) (mset (map fst (remove_nth i (rs_posting r))))"
    using remove_nth_mset [OF assms(2)] by simp
  then show ?thesis using assms(1) set_remove_nth [OF assms(2)] by (auto simp: rs_inv_def worker_post_def)
qed

lemma rs_step_inv:
  assumes "inet_lawful net" "rs_inv r" "rs_step net app ttl r x"
  shows "rs_result app (x)"
  using assms(3)
proof cases
  case (st_call in_loop accepts now c)
  then show ?thesis using resolveAll_inv [OF assms(1,2)] by simp
next
  case (st_lookup i gai now)
  then show ?thesis using worker_lookup_inv [OF assms(2)] by simp
next
  case (st_post i)
  then show ?thesis using worker_post_inv [OF assms(2)] by simp
next
  case (st_loop accepts now)
  then show ?thesis using loop_callback_inv [OF assms(1,2)] by simp
qed

lemma rs_reachable_inv:
  assumes "rs_reachable net app ttl x" "inet_lawful net"
  shows "rs_result app (x)"
  using assms(1)
proof cases
  case rs_init
  then show ?thesis by (simp add: Resolver_new_def rs_inv_def)
next
  case (rs_more r)
  have "rs_inv r" if "rs_reachable net app ttl (Inr r)"
    using that
  proof (induction "Inr r :: rs_error + Resolver" arbitrary: r)
    case rs_init
    then show ?case by (simp add: Resolver_new_def rs_inv_def)
  next
    case (rs_more r1)
    then show ?case using rs_step_inv [OF assms(2) rs_more(2), of app ttl] by fastforce
  qed
  then show ?thesis using rs_step_inv [OF assms(2)] rs_more by blast
qed


text \<open>A text form for the witness: the digits of the value.\<close>

definition digits_inet :: inet where
  "digits_inet = \<lparr>ntop4 = (\<lambda>a. to_string (unat a)), pton4 = (\<lambda>s. Some (of_nat (read_digits 10 0 s))),
     ntop6 = (\<lambda>a. to_string (unat a)), pton6 = (\<lambda>s. Some (of_nat (read_digits 10 0 s)))\<rparr>"

lemma digits_inet_lawful: "inet_lawful digits_inet"
proof -
  have "list_all (\<lambda>d. digit_char d \<in> set ''0123456789'') [0..<10]" by code_simp
  then have d: "digit_char d \<in> set ''0123456789''" if "d < 10" for d using that by (simp only: list_all_iff) simp
  have "set (to_string n) \<subseteq> set ''0123456789''" for n using to_string_digits d by blast
  moreover have "set ''0123456789'' \<subseteq> set v4_chars" "set ''0123456789'' \<subseteq> set v6_chars" by (simp_all add: v4_chars_def v6_chars_def)
  ultimately show ?thesis by (simp add: inet_lawful_def digits_inet_def read_digits_to_string) blast
qed


text \<open>
  A call from the loop thread that hits the cache runs its callback while it holds the mutex; a callback that makes a call never returns.
\<close>

theorem nested_resolve_deadlocks:
  assumes "inet_lawful net" "rs_reachable net app ttl (Inr r)" "cache_hit now ttl h r = Some as" "app (h, p, cb) \<noteq> []"
  shows "resolveAll net app ttl True accepts now (h, p, cb) r = Inl SelfDeadlock"
proof -
  have "rs_inv r" using rs_reachable_inv [OF assms(2,1)] by simp
  then have "list_all is_ip as" using assms(3) by (auto simp: cache_hit_def rs_inv_def split: option.splits if_splits)
  then obtain bs where "withPorts net p as = Some bs" using withPorts_ip [OF assms(1)] by blast
  moreover have "cache_hit now ttl h (r\<lparr>asked := asked r @ [(h, p, cb)]\<rparr>) = Some as" using assms(3) by (simp add: cache_hit_def)
  ultimately show ?thesis using assms(4) by (simp add: resolveAll_def deliver_hit_def)
qed

text \<open>An entry is used until it is one second older than the limit, so a limit of zero does not switch the cache off.\<close>

lemma cache_hit_age:
  assumes "cache_hit now ttl h r = Some as" "cache r h = Some e"
  shows "unat (now - ce_when e) < (unat ttl + 1) * 1000000"
proof -
  have "(now - ce_when e) div 1000000 \<le> ucast ttl" using assms by (auto simp: cache_hit_def split: if_splits)
  moreover have "unat ttl < 2 ^ LENGTH(32)" by (rule unsigned_less)
  then have "unat (ucast ttl :: 64 word) = unat ttl" by (simp add: unsigned_ucast_eq take_bit_nat_eq_self)
  ultimately have "unat (now - ce_when e) div 1000000 \<le> unat ttl" by (simp add: word_le_nat_alt unat_div)
  then have "unat (now - ce_when e) div 1000000 < unat ttl + 1" by simp
  then show ?thesis by (subst (asm) div_less_iff_less_mult) simp_all
qed

text \<open>The cached address of a link-local host has lost its scope, which the first answer had.\<close>

lemma cached_answer_loses_scope:
  assumes "inet_lawful net" "cache r h = Some \<lparr>ce_addrs = [Sin6 a q s], ce_when = now\<rparr>"
  shows "resolveAll net app ttl False accepts now (h, p, cb) r =
    Inr (r\<lparr>asked := asked r @ [(h, p, cb)], loop_queue := loop_queue r @ [((h, p, cb), [Sin6 a p 0], [])]\<rparr>)"
proof -
  have "InetAddress_ip net (ntop6 net a) p True = Inr (Sin6 a p 0)" using InetAddress_ip_toIp [OF assms(1), of "Sin6 a p 0"] by simp
  then show ?thesis using assms(2) by (simp add: resolveAll_def cache_hit_def withPort_def deliver_hit_def)
qed

section \<open>The sockets of the c-ares resolver\<close>

text \<open>
  The answer of \<^verbatim>\<open>ares_getsock\<close>: sixteen sockets, and a mask that asks for reading socket \<open>i\<close> in bit \<open>i\<close> and for writing it in bit \<open>i + 16\<close>. A channel is its interest in reading and
  writing; \<open>removed\<close> are the channels that were taken out of the poller and destroyed.
\<close>

definition wanted :: "int list \<Rightarrow> 32 word \<Rightarrow> (int \<times> bool \<times> bool) list" where
  "wanted socks bitmask =
     map (\<lambda>i. (socks ! i, bit bitmask i, bit bitmask (i + 16))) (filter (\<lambda>i. bit bitmask i \<or> bit bitmask (i + 16)) [0..<16])"

record Cares =
  ca_channels :: "int \<Rightarrow> (bool \<times> bool) option"
  ca_created :: "int list"
  ca_removed :: "int set"
  ca_timers :: nat

definition Cares_new :: Cares where
  "Cares_new = \<lparr>ca_channels = (\<lambda>_. None), ca_created = [], ca_removed = {}, ca_timers = 0\<rparr>"

fun take_sockets :: "(int \<times> bool \<times> bool) list \<Rightarrow> (int \<Rightarrow> (bool \<times> bool) option) \<Rightarrow> (int \<Rightarrow> (bool \<times> bool) option) \<Rightarrow> int list \<Rightarrow>
    (int \<Rightarrow> (bool \<times> bool) option) \<times> (int \<Rightarrow> (bool \<times> bool) option) \<times> int list" where
  "take_sockets [] channels nxt new = (channels, nxt, new)"
| "take_sockets ((fd, rd, wr) # ws) channels nxt new =
     take_sockets ws (channels(fd := None)) (nxt(fd \<mapsto> (rd, wr))) (if channels fd = None then new @ [fd] else new)"

definition updateSockets :: "int list \<Rightarrow> 32 word \<Rightarrow> Cares \<Rightarrow> Cares" where
  "updateSockets socks bitmask c =
     (case take_sockets (wanted socks bitmask) (ca_channels c) (\<lambda>_. None) [] of
        (left, nxt, new) \<Rightarrow> c\<lparr>ca_channels := nxt, ca_created := ca_created c @ new, ca_removed := ca_removed c \<union> dom left\<rparr>)"

text \<open>\<^verbatim>\<open>ares_timeout\<close> gives seconds and microseconds, or nothing when no query is open.\<close>

definition timer_ms :: "nat \<Rightarrow> nat \<Rightarrow> 64 word" where
  "timer_ms sec usec = (let ms = of_nat sec * 1000 + of_nat (usec div 1000) in if ms = 0 then 1 else ms)"

definition armTimer :: "(nat \<times> nat) option \<Rightarrow> Cares \<Rightarrow> Cares" where
  "armTimer t c = (case t of None \<Rightarrow> c | Some _ \<Rightarrow> c\<lparr>ca_timers := ca_timers c + 1\<rparr>)"

text \<open>The three entries: a call, an event on a socket and the timer. What c-ares does in them shows in the sockets and the timeout it then reports.\<close>

definition cares_resolve :: "int list \<Rightarrow> 32 word \<Rightarrow> (nat \<times> nat) option \<Rightarrow> Cares \<Rightarrow> Cares" where
  "cares_resolve socks bitmask t c = armTimer t (updateSockets socks bitmask c)"

definition cares_event :: "int list \<Rightarrow> 32 word \<Rightarrow> Cares \<Rightarrow> Cares" where
  "cares_event socks bitmask c = updateSockets socks bitmask c"

definition cares_timer :: "int list \<Rightarrow> 32 word \<Rightarrow> (nat \<times> nat) option \<Rightarrow> Cares \<Rightarrow> Cares" where
  "cares_timer socks bitmask t c = armTimer t (updateSockets socks bitmask (c\<lparr>ca_timers := ca_timers c - 1\<rparr>))"

lemma take_sockets_spec:
  assumes "distinct (map fst ws)" "take_sockets ws channels nxt new = (left, nxt', new')"
  shows "nxt' = nxt ++ map_of ws \<and> dom left = dom channels - fst ` set ws \<and> new' = new @ filter (\<lambda>fd. channels fd = None) (map fst ws)"
  using assms
proof (induction ws channels nxt new rule: take_sockets.induct)
  case (2 fd rd wr ws channels nxt new)
  have fd: "fd \<notin> fst ` set ws" using 2(2) by simp
  have d: "distinct (map fst ws)" using 2(2) by simp
  have t: "take_sockets ws (channels(fd := None)) (nxt(fd \<mapsto> (rd, wr))) (if channels fd = None then new @ [fd] else new) = (left, nxt', new')"
    using 2(3) by (simp only: take_sockets.simps)
  have "filter (\<lambda>x. (channels(fd := None)) x = None) (map fst ws) = filter (\<lambda>x. channels x = None) (map fst ws)"
    using fd by (intro filter_cong) auto
  then have ih: "nxt' = nxt(fd \<mapsto> (rd, wr)) ++ map_of ws \<and> dom left = dom (channels(fd := None)) - fst ` set ws \<and>
    new' = (if channels fd = None then new @ [fd] else new) @ filter (\<lambda>x. channels x = None) (map fst ws)"
    using 2(1) [OF d t] by (simp only:)
  have eq: "nxt(fd \<mapsto> (rd, wr)) ++ map_of ws = nxt ++ map_of ((fd, rd, wr) # ws)"
  proof -
    have "fd \<notin> dom (map_of ws)" using fd by (simp add: dom_map_of_conv_image_fst)
    then show ?thesis by (auto simp: map_add_def fun_eq_iff split: option.splits)
  qed
  show ?case
  proof (intro conjI)
    show "nxt' = nxt ++ map_of ((fd, rd, wr) # ws)" using ih eq by (simp only:)
  qed (use ih in auto)
qed simp

text \<open>After every update the channels are those of the sockets c-ares asks for, each with the interest asked for; the others were removed.\<close>

lemma updateSockets_matches:
  assumes "distinct (map fst (wanted socks bitmask))"
  shows "ca_channels (updateSockets socks bitmask c) = map_of (wanted socks bitmask) \<and>
    ca_removed (updateSockets socks bitmask c) = ca_removed c \<union> (dom (ca_channels c) - fst ` set (wanted socks bitmask))"
proof -
  obtain left nxt new where t: "take_sockets (wanted socks bitmask) (ca_channels c) (\<lambda>_. None) [] = (left, nxt, new)"
    by (cases "take_sockets (wanted socks bitmask) (ca_channels c) (\<lambda>_. None) []") 
  then have "nxt = (\<lambda>_. None) ++ map_of (wanted socks bitmask) \<and> dom left = dom (ca_channels c) - fst ` set (wanted socks bitmask)"
    using take_sockets_spec [OF assms t] by blast
  moreover have "(\<lambda>_. None) ++ map_of (wanted socks bitmask) = map_of (wanted socks bitmask)" by (simp add: map_add_def fun_eq_iff split: option.splits)
  ultimately show ?thesis using t by (simp add: updateSockets_def)
qed

text \<open>
  A socket that c-ares is done with after an event on it loses its channel in the callback of that event, while the channel is still dispatching.
\<close>

lemma event_destroys_own_channel:
  assumes "distinct (map fst (wanted socks bitmask))" "ca_channels c fd \<noteq> None" "fd \<notin> fst ` set (wanted socks bitmask)"
  shows "fd \<in> ca_removed (cares_event socks bitmask c)"
  using updateSockets_matches [OF assms(1), of c] assms(2,3) by (auto simp: cares_event_def)

text \<open>Every call arms a timer, and every timer arms the next while a query is open: the timers are as many as the calls.\<close>

lemma cares_timers_accumulate:
  "ca_timers ((cares_resolve socks bitmask (Some t) ^^ n) Cares_new) = n"
  "ca_timers c > 0 \<Longrightarrow> ca_timers (cares_timer socks bitmask (Some t) c) = ca_timers c"
proof -
  have u: "ca_timers (updateSockets socks bitmask c) = ca_timers c" for c
    by (simp add: updateSockets_def split: prod.splits)
  show "ca_timers ((cares_resolve socks bitmask (Some t) ^^ n) Cares_new) = n"
    by (induction n) (simp_all add: cares_resolve_def armTimer_def u Cares_new_def)
  show "ca_timers c > 0 \<Longrightarrow> ca_timers (cares_timer socks bitmask (Some t) c) = ca_timers c"
    by (simp add: cares_timer_def armTimer_def u)
qed

end
