(* ===== verification/Http_Client.thy ===== *)
theory Http_Client
  imports Http_Pool Net_Resolver "HOL-Library.Sublist"
begin

text \<open>
  The two clients over connection pools: \<^verbatim>\<open>http/multi_origin_pool.cc\<close>, one pool per origin created on demand, and \<^verbatim>\<open>http/http_client.cc\<close>, a pool of a single
  connection. The pools are those of the pool model, the constructor of an address that of the address model. The theory shows that the pools of different origins never touch each other, that each keeps its own cap
  and books, and that the client never holds more than one connection or has more than one request in flight.
\<close>

section \<open>The configuration of a pool is fixed\<close>

definition config :: "Pool \<Rightarrow> bool \<times> string \<times> nat \<times> nat" where
  "config p = (pool_tls p, pool_host p, pool_max p, idle_timeout_s p)"

lemma config_emit [simp]: "config (pool_emit e p) = config p" "config (upd_conn c f p) = config p"
  by (simp_all add: config_def pool_emit_def upd_conn_def)

lemma config_frames [simp]:
  "config (p\<lparr>idle := a\<rparr>) = config p" "config (p\<lparr>busy := a\<rparr>) = config p" "config (p\<lparr>connecting := a\<rparr>) = config p"
  "config (p\<lparr>pending := b\<rparr>) = config p" "config (p\<lparr>queue := d\<rparr>) = config p" "config (p\<lparr>resolved := f\<rparr>) = config p"
  "config (p\<lparr>resolving := f\<rparr>) = config p" "config (p\<lparr>waiting_on_dns := d\<rparr>) = config p" "config (p\<lparr>conns := g\<rparr>) = config p"
  "config (p\<lparr>next_conn := h\<rparr>) = config p" "config (p\<lparr>issued := i\<rparr>) = config p"
  by (simp_all add: config_def)

lemma config_start_on [simp]: "config (start_on c pend p) = config p" by (simp add: start_on_def Let_def)
lemma config_close [simp]: "config (close_conn c p) = config p" by (simp add: close_conn_def)
lemma config_open [simp]: "config (open_conn pend p) = config p" by (simp add: open_conn_def Let_def)
lemma config_dispatch [simp]: "config (dispatch pend p) = config p" by (simp add: dispatch_def Let_def)

lemma config_request [simp]: "config (request pend p) = config p"
  by (simp add: request_def startResolveOnce_def Let_def)

lemma config_fold: "(\<And>x q. config (f x q) = config q) \<Longrightarrow> config (fold f xs p) = config p"
  by (induction xs arbitrary: p) auto

lemma config_complete [simp]: "config (complete app cb out p) = config p"
  by (simp add: complete_def config_fold)

lemma config_run_cb [simp]: "config (run_cb app cb out p) = config p"
  by (simp add: run_cb_def split: option.splits)

lemma config_onResolved [simp]: "config (onResolved app addrs err p) = config p"
  by (simp add: onResolved_def Let_def config_fold)

lemma config_onReady [simp]: "config (onReady c p) = config p" by (simp add: onReady_def Let_def split: option.splits)
lemma config_onFree [simp]: "config (onFree c p) = config p" by (simp add: onFree_def Let_def split: list.splits)
lemma config_onClosed [simp]: "config (onClosed c p) = config p" by (simp add: onClosed_def Let_def split: list.splits)
lemma config_evictIdle [simp]: "config (evictIdle now p) = config p" by (simp add: evictIdle_def Let_def config_fold)

lemma config_events [simp]:
  "config (onConnection_up now c p) = config p" "config (handshakeDone now c p) = config p" "config (onConnection_down app c p) = config p"
  by (simp_all add: onConnection_up_def handshakeDone_def onConnection_down_def Let_def)

lemma config_onBytes: "onBytes app now c s p = Some p' \<Longrightarrow> config p' = config p"
  by (auto simp: onBytes_def consume_def Let_def split: bind_splits option.splits prod.splits if_splits)

lemma config_exec: "pool_exec app e p = Some p' \<Longrightarrow> config p' = config p"
  by (cases e) (auto simp: config_onBytes split: if_splits)

lemma config_run: "pool_run app es p = Some p' \<Longrightarrow> config p' = config p"
  by (induction es arbitrary: p) (auto simp: config_exec split: bind_splits)

section \<open>Requests issued only accumulate\<close>

lemma issued_same [simp]:
  "issued (start_on c pend p) = issued p" "issued (close_conn c p) = issued p" "issued (open_conn pend p) = issued p"
  "issued (upd_conn c f p) = issued p" "issued (dispatch pend p) = issued p" "issued (onReady c p) = issued p" "issued (onFree c p) = issued p"
  "issued (onClosed c p) = issued p"
  by (simp_all add: start_on_def close_conn_def open_conn_def upd_conn_def dispatch_def onReady_def onFree_def onClosed_def pool_emit_def Let_def
      split: option.splits list.splits)

lemma issued_request [simp]: "issued (request pend p) = issued p @ [snd pend]"
  by (simp add: request_def startResolveOnce_def pool_emit_def Let_def)

lemma issued_fold: "(\<And>x q. prefix (issued q) (issued (f x q))) \<Longrightarrow> prefix (issued p) (issued (fold f xs p))"
  by (induction xs arbitrary: p) (auto intro: prefix_order.trans)

lemma issued_complete: "prefix (issued p) (issued (complete app cb out p))"
  using issued_fold [of request "pool_emit (Complete cb out) p"] by (simp add: complete_def pool_emit_def)

lemma issued_run_cb: "issued q = issued p \<Longrightarrow> prefix (issued p) (issued (run_cb app cb out q))"
  using issued_complete [of q app] by (simp add: run_cb_def split: option.splits)

lemma issued_onResolved: "prefix (issued p) (issued (onResolved app addrs err p))"
proof -
  have 1: "prefix (issued q) (issued (fold (\<lambda>pend. complete app (snd pend) x) xs q))" for q x and xs :: "Pending list"
    by (rule issued_fold) (rule issued_complete)
  have 2: "prefix (issued q) (issued (fold dispatch xs q))" for q xs by (rule issued_fold) simp
  show ?thesis using 1 [of "p\<lparr>resolving := False, waiting_on_dns := []\<rparr>"] 2 [of "p\<lparr>resolving := False, waiting_on_dns := [], resolved := True\<rparr>"]
    by (simp add: onResolved_def Let_def)
qed

lemma issued_down: "prefix (issued p) (issued (onConnection_down app c p))"
  by (simp add: onConnection_down_def Let_def issued_run_cb)

lemma issued_onBytes: "onBytes app now c s p = Some p' \<Longrightarrow> prefix (issued p) (issued p')"
  by (auto simp: onBytes_def consume_def Let_def issued_run_cb split: bind_splits option.splits prod.splits if_splits)

lemma issued_evict: "prefix (issued p) (issued (evictIdle now p))"
  by (simp add: evictIdle_def Let_def) (rule issued_fold, simp)

lemma issued_exec: "pool_exec app e p = Some p' \<Longrightarrow> prefix (issued p) (issued p')"
  by (cases e) (auto simp: issued_onResolved issued_down issued_onBytes issued_evict onConnection_up_def handshakeDone_def Let_def split: if_splits)

section \<open>The client of one origin\<close>

definition HttpClient_address :: "bool \<Rightarrow> string \<Rightarrow> Pool" where
  "HttpClient_address tls host_header = (ConnectionPool_address tls host_header)\<lparr>pool_max := 1\<rparr>"

definition HttpClient_name :: "bool \<Rightarrow> string \<Rightarrow> string \<Rightarrow> Pool" where
  "HttpClient_name tls host host_header = (ConnectionPool_name tls host host_header)\<lparr>pool_max := 1\<rparr>"

definition hc_send :: "HttpRequest \<Rightarrow> nat \<Rightarrow> Pool \<Rightarrow> Pool" where
  "hc_send req cb p = request (req, cb) p"

definition hc_get :: "string \<Rightarrow> nat \<Rightarrow> Pool \<Rightarrow> Pool" where
  "hc_get path cb p = hc_send (HttpRequest_new\<lparr>req_method := kGet, req_path := path\<rparr>) cb p"

lemma HttpClient_pool:
  "HttpClient_address tls hdr = startEviction (Pool_new tls hdr 1 60 True)"
  "HttpClient_name tls host hdr = startEviction (Pool_new tls (if hdr = [] then host else hdr) 1 60 False)"
  by (simp_all add: HttpClient_address_def HttpClient_name_def ConnectionPool_address_def ConnectionPool_name_def startEviction_def Pool_new_def)

text \<open>The client never has more than one connection, so its requests go out one at a time; the others wait in the queue in order.\<close>

theorem client_one_connection:
  assumes "c = HttpClient_address tls hdr \<or> c = HttpClient_name tls host hdr" "pool_orderly app es c"
  shows "\<exists>p. pool_run app es c = Some p \<and> total p \<le> 1 \<and> size (in_flight p) \<le> 1 \<and> mset (issued p) = account p"
proof -
  obtain h n where c: "c = startEviction (Pool_new tls h 1 60 n)" using assms(1) HttpClient_pool by metis
  obtain p where p: "pool_run app es c = Some p" "pool_ok p" "balanced {#} p"
    using pool_run_ok [of c "{#}" app es] pool_ok_new c assms(2) by blast
  have "config p = config c" using config_run [OF p(1)] .
  then have "pool_max p = 1" using c by (simp add: config_def startEviction_def Pool_new_def)
  then have t: "total p \<le> 1" using p(2) by (simp add: pool_ok_def pool_base_def)
  then have "busy p = [] \<or> (\<exists>b. busy p = [b])" by (cases "busy p") (auto simp: total_def)
  then have "size (in_flight p) \<le> 1" by (auto simp: in_flight_def cbm_def split: option.splits)
  then show ?thesis using p t by (auto simp: balanced_def)
qed

section \<open>One pool per origin\<close>

type_synonym Origin = "string \<times> 16 word \<times> bool"

record MultiOriginPool =
  mo_resolver :: bool
  max_per_origin :: nat
  mo_idle_s :: nat
  tls_ctx :: "string \<times> 16 word \<Rightarrow> nat option"
  pools :: "Origin \<Rightarrow> Pool option"

definition MultiOriginPool_new :: MultiOriginPool where
  "MultiOriginPool_new = \<lparr>mo_resolver = False, max_per_origin = 8, mo_idle_s = 60, tls_ctx = (\<lambda>_. None), pools = (\<lambda>_. None)\<rparr>"

definition mo_setTlsContext :: "string \<Rightarrow> 16 word \<Rightarrow> nat \<Rightarrow> MultiOriginPool \<Rightarrow> MultiOriginPool" where
  "mo_setTlsContext host p ctx m = m\<lparr>tls_ctx := (tls_ctx m)((host, p) \<mapsto> ctx)\<rparr>"

definition origin_of :: "string \<Rightarrow> 16 word \<Rightarrow> MultiOriginPool \<Rightarrow> Origin" where
  "origin_of host p m = (host, p, tls_ctx m (host, p) \<noteq> None)"

text \<open>The pool made for an origin: by name when there is a resolver, else by the address the host spells, which may throw.\<close>

definition new_pool :: "inet \<Rightarrow> string \<Rightarrow> 16 word \<Rightarrow> string \<Rightarrow> MultiOriginPool \<Rightarrow> addr_error + Pool" where
  "new_pool net host p host_header m =
     (let tls = tls_ctx m (host, p) \<noteq> None;
          hdr = (if host_header = [] then host else host_header);
          setup = (\<lambda>q. q\<lparr>pool_max := max_per_origin m, idle_timeout_s := mo_idle_s m\<rparr>)
      in if mo_resolver m then Inr (setup (ConnectionPool_name tls host hdr))
         else case InetAddress_ip net host p False of
                Inl e \<Rightarrow> Inl e
              | Inr addr \<Rightarrow> Inr (setup (ConnectionPool_address tls hdr)))"

definition mo_request :: "inet \<Rightarrow> string \<Rightarrow> 16 word \<Rightarrow> string \<Rightarrow> Pending \<Rightarrow> MultiOriginPool \<Rightarrow> addr_error + MultiOriginPool" where
  "mo_request net host p host_header pend m =
     (let key = origin_of host p m in
      case pools m key of
        Some q \<Rightarrow> Inr (m\<lparr>pools := (pools m)(key \<mapsto> request pend q)\<rparr>)
      | None \<Rightarrow>
          (case new_pool net host p host_header m of
             Inl e \<Rightarrow> Inl e
           | Inr q \<Rightarrow> Inr (m\<lparr>pools := (pools m)(key \<mapsto> request pend q)\<rparr>)))"

text \<open>
  What happens to the whole: requests, events of one pool, and changes of the settings. A request that throws leaves the state as it was. The requests that a callback issues to its own origin are made
  inside the event; those to another origin are events of their own, which is no restriction since the pools share nothing.
\<close>

datatype mo_event =
    MoRequest string "16 word" string Pending
  | MoPool Origin pool_event
  | MoTls string "16 word" nat
  | MoLimits nat nat
  | MoResolver bool

fun mo_exec :: "inet \<Rightarrow> (Origin \<Rightarrow> nat \<Rightarrow> outcome \<Rightarrow> Pending list) \<Rightarrow> mo_event \<Rightarrow> MultiOriginPool \<Rightarrow> MultiOriginPool option" where
  "mo_exec net app (MoRequest host p hdr pend) m = (case mo_request net host p hdr pend m of Inl _ \<Rightarrow> Some m | Inr m' \<Rightarrow> Some m')"
| "mo_exec net app (MoPool key e) m =
     (case pools m key of
        None \<Rightarrow> Some m
      | Some q \<Rightarrow> map_option (\<lambda>q'. m\<lparr>pools := (pools m)(key \<mapsto> q')\<rparr>) (pool_exec (app key) e q))"
| "mo_exec net app (MoTls host p ctx) m = Some (mo_setTlsContext host p ctx m)"
| "mo_exec net app (MoLimits n s) m = Some (m\<lparr>max_per_origin := n, mo_idle_s := s\<rparr>)"
| "mo_exec net app (MoResolver b) m = Some (m\<lparr>mo_resolver := b\<rparr>)"

fun mo_run :: "inet \<Rightarrow> (Origin \<Rightarrow> nat \<Rightarrow> outcome \<Rightarrow> Pending list) \<Rightarrow> mo_event list \<Rightarrow> MultiOriginPool \<Rightarrow> MultiOriginPool option" where
  "mo_run net app [] m = Some m"
| "mo_run net app (e # es) m = Option.bind (mo_exec net app e m) (mo_run net app es)"

text \<open>The server of every origin answers only requests.\<close>

fun mo_event_ok :: "mo_event \<Rightarrow> MultiOriginPool \<Rightarrow> bool" where
  "mo_event_ok (MoPool key e) m = (case pools m key of None \<Rightarrow> True | Some q \<Rightarrow> pool_event_ok e q)"
| "mo_event_ok _ m = True"

fun mo_orderly :: "inet \<Rightarrow> (Origin \<Rightarrow> nat \<Rightarrow> outcome \<Rightarrow> Pending list) \<Rightarrow> mo_event list \<Rightarrow> MultiOriginPool \<Rightarrow> bool" where
  "mo_orderly net app [] m = True"
| "mo_orderly net app (e # es) m =
     (mo_event_ok e m \<and> (case mo_exec net app e m of None \<Rightarrow> True | Some m' \<Rightarrow> mo_orderly net app es m'))"

fun target :: "mo_event \<Rightarrow> MultiOriginPool \<Rightarrow> Origin option" where
  "target (MoRequest host p hdr pend) m = Some (origin_of host p m)"
| "target (MoPool key e) m = Some key"
| "target _ m = None"

definition mo_ok :: "MultiOriginPool \<Rightarrow> bool" where
  "mo_ok m = (\<forall>key q. pools m key = Some q \<longrightarrow> pool_ok q \<and> balanced {#} q \<and> pool_tls q = snd (snd key))"

lemma new_pool_ok:
  assumes "new_pool net host p hdr m = Inr q"
  shows "pool_ok q" "balanced {#} q" "pool_tls q = snd (snd (origin_of host p m))" "pool_max q = max_per_origin m" "issued q = []"
proof -
  obtain h n where q: "q = startEviction (Pool_new (snd (snd (origin_of host p m))) h (max_per_origin m) (mo_idle_s m) n)"
    using assms by (auto simp: new_pool_def ConnectionPool_name_def ConnectionPool_address_def startEviction_def Pool_new_def origin_of_def Let_def
        split: if_splits sum.splits)
  then show "pool_ok q" "balanced {#} q" using pool_ok_new by blast+
  show "pool_tls q = snd (snd (origin_of host p m))" "pool_max q = max_per_origin m" "issued q = []"
    by (simp_all add: q startEviction_def Pool_new_def)
qed

lemma config_tls: "config q' = config q \<Longrightarrow> pool_tls q' = pool_tls q" "config q' = config q \<Longrightarrow> pool_max q' = pool_max q"
  by (simp_all add: config_def)

lemma mo_okD:
  assumes "mo_ok m" "pools m key = Some q"
  shows "pool_ok q" "balanced {#} q" "pool_tls q = snd (snd key)"
  using assms unfolding mo_ok_def by blast+

lemma mo_okI:
  assumes "mo_ok m" "pool_ok q" "balanced {#} q" "pool_tls q = snd (snd key)"
  shows "mo_ok (m\<lparr>pools := (pools m)(key \<mapsto> q)\<rparr>)"
  using assms unfolding mo_ok_def by (simp del: split_paired_All)

lemma mo_request_ok:
  assumes "mo_ok m" "mo_request net host p hdr pend m = Inr m'"
  shows "mo_ok m'"
proof -
  obtain q where q: "m' = m\<lparr>pools := (pools m)(origin_of host p m \<mapsto> request pend q)\<rparr>"
      "pools m (origin_of host p m) = Some q \<or> new_pool net host p hdr m = Inr q"
    using assms(2) by (auto simp: mo_request_def Let_def split: option.splits sum.splits)
  from q(2) have k: "pool_ok q \<and> balanced {#} q \<and> pool_tls q = snd (snd (origin_of host p m))"
  proof
    assume "pools m (origin_of host p m) = Some q"
    from mo_okD [OF assms(1) this] show ?thesis by simp
  next
    assume "new_pool net host p hdr m = Inr q"
    from new_pool_ok(1-3) [OF this] show ?thesis by simp
  qed
  have "pool_tls (request pend q) = pool_tls q" by (rule config_tls) simp
  then show ?thesis unfolding q(1) using request_ok_pool [of q "{#}" pend] k by (intro mo_okI [OF assms(1)]) simp_all
qed

lemma mo_exec_ok:
  assumes "mo_ok m" "mo_event_ok e m"
  shows "\<exists>m'. mo_exec net app e m = Some m' \<and> mo_ok m'"
proof (cases e)
  case (MoRequest host p hdr pend)
  then show ?thesis using mo_request_ok [OF assms(1), of net host p hdr pend] assms(1) by (auto split: sum.splits)
next
  case (MoPool key ev)
  show ?thesis
  proof (cases "pools m key")
    case (Some q)
    then have q: "pool_ok q" "balanced {#} q" "pool_tls q = snd (snd key)" "pool_event_ok ev q"
      using mo_okD [OF assms(1) Some] assms(2) MoPool by simp_all
    obtain q' where q': "pool_exec (app key) ev q = Some q'" "pool_ok q'" "balanced {#} q'"
      using pool_exec_ok [OF q(1,2,4)] by blast
    then have "pool_tls q' = pool_tls q" using config_tls(1) config_exec by blast
    then show ?thesis using MoPool Some q'(1) mo_okI [OF assms(1) q'(2,3)] q(3) by simp
  qed (use MoPool assms(1) in simp)
qed (use assms(1) in \<open>auto simp: mo_ok_def mo_setTlsContext_def\<close>)

lemma mo_run_ok:
  "mo_ok m \<Longrightarrow> mo_orderly net app es m \<Longrightarrow> \<exists>m'. mo_run net app es m = Some m' \<and> mo_ok m'"
proof (induction es arbitrary: m)
  case (Cons e es)
  obtain m1 where m1: "mo_exec net app e m = Some m1" "mo_ok m1" using mo_exec_ok [OF Cons.prems(1), of e net app] Cons.prems(2) by auto
  then show ?case using Cons.IH [OF m1(2)] Cons.prems(2) by (simp del: mo_exec.simps)
qed simp

text \<open>An event touches the pool of its own origin only, and a pool once made is never replaced.\<close>

theorem origins_isolated:
  assumes "mo_exec net app e m = Some m'"
  shows "(target e m \<noteq> Some key \<longrightarrow> pools m' key = pools m key) \<and>
    (pools m key = Some q \<longrightarrow> (\<exists>q'. pools m' key = Some q' \<and> config q' = config q))"
  using assms
proof (cases e)
  case (MoRequest host p hdr pend)
  then show ?thesis using assms by (auto simp: mo_request_def Let_def split: sum.splits option.splits)
next
  case (MoPool k ev)
  then show ?thesis using assms config_exec by (auto split: option.splits)
qed (auto simp: mo_setTlsContext_def)

text \<open>The requests that were routed to an origin in a run.\<close>

fun routed :: "inet \<Rightarrow> (Origin \<Rightarrow> nat \<Rightarrow> outcome \<Rightarrow> Pending list) \<Rightarrow> Origin \<Rightarrow> mo_event list \<Rightarrow> MultiOriginPool \<Rightarrow> nat list" where
  "routed net app key [] m = []"
| "routed net app key (e # es) m =
     (case e of
        MoRequest host p hdr pend \<Rightarrow> if origin_of host p m = key \<and> \<not> isl (mo_request net host p hdr pend m) then [snd pend] else []
      | _ \<Rightarrow> []) @
     (case mo_exec net app e m of None \<Rightarrow> [] | Some m' \<Rightarrow> routed net app key es m')"

definition issued_to :: "Origin \<Rightarrow> MultiOriginPool \<Rightarrow> nat list" where
  "issued_to key m = (case pools m key of None \<Rightarrow> [] | Some q \<Rightarrow> issued q)"

lemma issued_to_exec:
  assumes "mo_exec net app e m = Some m'"
  shows "prefix (issued_to key m @ routed net app key [e] m) (issued_to key m')"
proof (cases e)
  case (MoRequest host p hdr pend)
  show ?thesis
  proof (cases "mo_request net host p hdr pend m")
    case (Inl x)
    then show ?thesis using MoRequest assms by simp
  next
    case (Inr m1)
    then obtain q where q: "m1 = m\<lparr>pools := (pools m)(origin_of host p m \<mapsto> request pend q)\<rparr>"
        "pools m (origin_of host p m) = Some q \<or> pools m (origin_of host p m) = None \<and> new_pool net host p hdr m = Inr q"
      by (auto simp: mo_request_def Let_def split: option.splits sum.splits)
    then have "issued_to (origin_of host p m) m = issued q" using new_pool_ok(5) by (auto simp: issued_to_def)
    then show ?thesis using MoRequest Inr q(1) assms by (auto simp: issued_to_def)
  qed
next
  case (MoPool k ev)
  show ?thesis
  proof (cases "pools m k")
    case (Some q)
    then obtain q' where "pool_exec (app k) ev q = Some q'" "m' = m\<lparr>pools := (pools m)(k \<mapsto> q')\<rparr>" using assms MoPool by auto
    then show ?thesis using issued_exec [of "app k" ev q q'] Some MoPool by (cases "k = key") (simp_all add: issued_to_def)
  qed (use assms MoPool in simp)
qed (use assms in \<open>auto simp: issued_to_def mo_setTlsContext_def\<close>)

lemma routed_issued:
  "mo_run net app es m = Some m' \<Longrightarrow> mset (issued_to key m) + mset (routed net app key es m) \<subseteq># mset (issued_to key m')"
proof (induction es arbitrary: m)
  case (Cons e es)
  then obtain m1 where m1: "mo_exec net app e m = Some m1" "mo_run net app es m1 = Some m'" by (auto split: bind_splits)
  obtain x where "issued_to key m1 = (issued_to key m @ routed net app key [e] m) @ x"
    using issued_to_exec [OF m1(1), of key] by (auto simp: prefix_def)
  then have "mset (issued_to key m) + mset (routed net app key [e] m) \<subseteq># mset (issued_to key m1)" by simp
  moreover have "mset (issued_to key m1) + mset (routed net app key es m1) \<subseteq># mset (issued_to key m')" using Cons.IH [OF m1(2)] .
  moreover have "routed net app key (e # es) m = routed net app key [e] m @ routed net app key es m1" using m1(1) by (cases e) simp_all
  ultimately show ?case
    using subset_mset.trans [OF subset_mset.add_right_mono, of "mset (issued_to key m) + mset (routed net app key [e] m)" "mset (issued_to key m1)"
        "mset (routed net app key es m1)" "mset (issued_to key m')"]
    by (simp only: mset_append add.assoc)
qed simp


lemma mo_orderly_plain: "(\<And>e m. e \<in> set es \<Longrightarrow> mo_event_ok e m) \<Longrightarrow> mo_orderly net app es m"
  by (induction es arbitrary: m) (auto split: option.split)


text \<open>Without a resolver the host is read as an IPv4 address only: the spelling of an IPv6 address is refused.\<close>

lemma ipv6_origin_refused:
  assumes "pton4 net (c_str host) = None" "pools m (origin_of host p m) = None" "\<not> mo_resolver m"
  shows "mo_request net host p hdr pend m = Inl InvalidArgument"
  using assms by (simp add: mo_request_def new_pool_def InetAddress_ip_def Let_def)

text \<open>A context registered for an origin that already has a pool with TLS does not reach that pool.\<close>

lemma tls_context_not_replaced:
  assumes "tls_ctx m (host, p) = Some ctx" "pools m (host, p, True) = Some q"
  shows "mo_request net host p hdr pend (mo_setTlsContext host p ctx' m) =
    Inr ((mo_setTlsContext host p ctx' m)\<lparr>pools := (pools m)((host, p, True) \<mapsto> request pend q)\<rparr>)"
  using assms by (simp add: mo_request_def mo_setTlsContext_def origin_of_def Let_def)

end
