(* ===== verification/Spec2Isabelle.thy ===== *)
theory Spec2Isabelle
  imports Cox_Buffer Http_Url Http_Message Http_Context_Props Http_Response_Parser Http_Router Http_Server
    Flow_Token_Bucket Flow_Backoff Flow_Limiter Reactor_Timer Thread_Pool Reactor_Channel
    Reactor_Loop Net_Connection Net_Connector Net_Server Net_Client Http_Pool Metrics_Registry
    Log_Sink Log_Async Tls_Context Fs_Watch Tls_Connection Tls_Ocsp Net_Resolver Http_Client
begin

text \<open>
  A verification development for the cox networking library.
\<close>

end
